(* ===== verification/Prelude.thy ===== *)
theory Prelude
  imports Complex_Main "HOL-Library.AList"
begin

text \<open>
  Shared vocabulary of the development.

  \<^item> JavaScript's \<open>Map\<close> keeps insertion order and replaces a value in place, which is
    what the association lists of \<open>HOL-Library.AList\<close> do: \<open>jset\<close>, \<open>jdel\<close> and
    \<open>jget\<close> name its \<open>update\<close>, \<open>delete\<close> and lookup.
  \<^item> Results of code that throws are \<open>'e + 'a\<close>, \<open>Inl\<close> for the thrown error.
  \<^item> Object identity (\<open>===\<close> on a freshly allocated record) is a \<open>nat\<close> token drawn from a
    counter of the component's state; the locale \<open>token_registry\<close> is the contract of all
    the code's registries (register once, dispose only what was registered).
  \<^item> Strings are \<open>char list\<close>: the model speaks of strings whose UTF-16 code units are
    below 256, so \<open>length\<close> is JavaScript's \<open>length\<close>.
\<close>

named_theorems step_simps \<open>equations that evaluate the operations of a component\<close>
named_theorems inv_intros \<open>preservation of the components' invariants\<close>

section \<open>Insertion-ordered maps\<close>

type_synonym ('k, 'v) jmap = "('k \<times> 'v) list"

abbreviation jget :: "('k, 'v) jmap \<Rightarrow> 'k \<Rightarrow> 'v option" where
  "jget \<equiv> map_of"

abbreviation jset :: "'k \<Rightarrow> 'v \<Rightarrow> ('k, 'v) jmap \<Rightarrow> ('k, 'v) jmap" where
  "jset \<equiv> AList.update"

abbreviation jdel :: "'k \<Rightarrow> ('k, 'v) jmap \<Rightarrow> ('k, 'v) jmap" where
  "jdel \<equiv> AList.delete"

definition jhas :: "('k, 'v) jmap \<Rightarrow> 'k \<Rightarrow> bool" where
  "jhas m k = (case jget m k of None \<Rightarrow> False | Some _ \<Rightarrow> True)"

declare map_of_eq_Some_iff [simp del]
declare Some_eq_map_of_iff [simp del]

lemma jhas_iff [simp]: "jhas m k \<longleftrightarrow> jget m k \<noteq> None"
  by (simp add: jhas_def split: option.split)

lemma jget_jset [simp]: "jget (jset k v m) = (jget m)(k \<mapsto> v)"
  by (rule update_conv')

lemma jget_jdel [simp]: "jget (jdel k m) = (jget m)(k := None)"
  by (rule delete_conv')

abbreviation jkeys_distinct :: "('k, 'v) jmap \<Rightarrow> bool" where
  "jkeys_distinct m \<equiv> distinct (map fst m)"

lemma jset_distinct [intro]: "jkeys_distinct m \<Longrightarrow> jkeys_distinct (jset k v m)"
  by (rule distinct_update)

lemma jdel_distinct [intro]: "jkeys_distinct m \<Longrightarrow> jkeys_distinct (jdel k m)"
  by (rule distinct_delete)

lemma jset_new: "jget m k = None \<Longrightarrow> jset k v m = m @ [(k, v)]"
  by (induction m) auto

text \<open>Keeping the entries of a map that satisfy a test (a \<open>for\<close> loop that deletes the others).\<close>

definition jfilter :: "('k \<Rightarrow> 'v \<Rightarrow> bool) \<Rightarrow> ('k, 'v) jmap \<Rightarrow> ('k, 'v) jmap" where
  "jfilter p m = filter (\<lambda>(k, v). p k v) m"

lemma jfilter_distinct [intro]: "jkeys_distinct m \<Longrightarrow> jkeys_distinct (jfilter p m)"
  by (auto simp: jfilter_def distinct_map intro: inj_on_subset)

lemma jget_jfilter:
  "jkeys_distinct m \<Longrightarrow>
   jget (jfilter p m) k =
     (case jget m k of None \<Rightarrow> None | Some v \<Rightarrow> if p k v then Some v else None)"
  by (induction m) (auto simp: jfilter_def map_of_eq_None_iff split: option.splits)

section \<open>Results\<close>

definition rbind :: "'e + 'a \<Rightarrow> ('a \<Rightarrow> 'e + 'b) \<Rightarrow> 'e + 'b" where
  "rbind r f = (case r of Inl e \<Rightarrow> Inl e | Inr a \<Rightarrow> f a)"

lemma rbind_simps [simp]:
  "rbind (Inl e) f = Inl e"
  "rbind (Inr a) f = f a"
  by (simp_all add: rbind_def)

lemma rbind_Inr: "rbind r f = Inr b \<longleftrightarrow> (\<exists>a. r = Inr a \<and> f a = Inr b)"
  by (cases r) auto

lemma rbind_Inl: "rbind r f = Inl e \<longleftrightarrow> r = Inl e \<or> (\<exists>a. r = Inr a \<and> f a = Inl e)"
  by (cases r) auto

definition guard_r :: "bool \<Rightarrow> 'e \<Rightarrow> 'e + unit" where
  "guard_r ok e = (if ok then Inr () else Inl e)"

lemma guard_r_simps [simp]:
  "guard_r True e = Inr ()" "guard_r False e = Inl e"
  "guard_r b e = Inr u \<longleftrightarrow> b"
  "guard_r b e = Inl e' \<longleftrightarrow> \<not> b \<and> e = e'"
  by (auto simp: guard_r_def)

fun map_res :: "('a \<Rightarrow> 'e + 'b) \<Rightarrow> 'a list \<Rightarrow> 'e + 'b list" where
  "map_res f [] = Inr []"
| "map_res f (x # xs) = rbind (f x) (\<lambda>y. rbind (map_res f xs) (\<lambda>ys. Inr (y # ys)))"

section \<open>Strings\<close>

text \<open>JavaScript white space (\<open>trim\<close>, \<open>\s\<close>) among the code units below 256.\<close>

definition is_ws :: "char \<Rightarrow> bool" where
  "is_ws c = (of_char c \<in> {9, 10, 11, 12, 13, 32, 160 :: nat})"

definition js_trim :: "string \<Rightarrow> string" where
  "js_trim s = rev (dropWhile is_ws (rev (dropWhile is_ws s)))"

definition js_starts_with :: "string \<Rightarrow> string \<Rightarrow> bool" where
  "js_starts_with p s = (take (length p) s = p)"

definition js_ends_with :: "string \<Rightarrow> string \<Rightarrow> bool" where
  "js_ends_with p s = js_starts_with (rev p) (rev s)"

fun js_split :: "char \<Rightarrow> string \<Rightarrow> string list" where
  "js_split d [] = [[]]"
| "js_split d (c # cs) =
     (if c = d then [] # js_split d cs
      else case js_split d cs of [] \<Rightarrow> [[c]] | w # ws \<Rightarrow> (c # w) # ws)"

fun js_join :: "string \<Rightarrow> string list \<Rightarrow> string" where
  "js_join sep [] = []"
| "js_join sep [w] = w"
| "js_join sep (w # ws) = w @ sep @ js_join sep ws"

lemma js_split_nonempty [simp]: "js_split d s \<noteq> []"
  by (induction s) (auto split: list.split)

lemma js_split_free: "d \<notin> set s \<Longrightarrow> js_split d s = [s]"
  by (induction s) auto

lemma js_split_append: "d \<notin> set w \<Longrightarrow> js_split d (w @ d # s) = w # js_split d s"
  by (induction w) auto

lemma js_split_join:
  "ws \<noteq> [] \<Longrightarrow> (\<And>w. w \<in> set ws \<Longrightarrow> d \<notin> set w) \<Longrightarrow> js_split d (js_join [d] ws) = ws"
  by (induction "[d]" ws rule: js_join.induct) (auto simp: js_split_free js_split_append)

lemma sep_cancel:
  "d \<notin> set a \<Longrightarrow> d \<notin> set b \<Longrightarrow> a @ d # x = b @ d # y \<longleftrightarrow> a = b \<and> x = y"
proof (induction a arbitrary: b)
  case Nil
  then show ?case by (cases b) auto
next
  case (Cons c cs)
  then show ?case by (cases b) auto
qed

lemma js_starts_with_append [simp]: "js_starts_with p (p @ s)"
  by (simp add: js_starts_with_def)

lemma js_starts_with_iff: "js_starts_with p s \<longleftrightarrow> (\<exists>r. s = p @ r)"
  by (metis append_eq_conv_conj append_take_drop_id js_starts_with_def)

definition is_digit_c :: "char \<Rightarrow> bool" where
  "is_digit_c c = (48 \<le> (of_char c :: nat) \<and> of_char c \<le> (57 :: nat))"

definition is_lower_c :: "char \<Rightarrow> bool" where
  "is_lower_c c = (97 \<le> (of_char c :: nat) \<and> of_char c \<le> (122 :: nat))"

definition is_upper_c :: "char \<Rightarrow> bool" where
  "is_upper_c c = (65 \<le> (of_char c :: nat) \<and> of_char c \<le> (90 :: nat))"

text \<open>The last \<open>n\<close> entries: \<open>splice(0, length - n)\<close> when the list is longer than \<open>n\<close>.\<close>

definition keep_last :: "nat \<Rightarrow> 'a list \<Rightarrow> 'a list" where
  "keep_last n xs = drop (length xs - n) xs"

lemma length_keep_last [simp]: "length (keep_last n xs) = min n (length xs)"
  by (simp add: keep_last_def)

lemma set_keep_last: "set (keep_last n xs) \<subseteq> set xs"
  by (simp add: keep_last_def set_drop_subset)

lemma keep_last_all [simp]: "length xs \<le> n \<Longrightarrow> keep_last n xs = xs"
  by (simp add: keep_last_def)

lemma last_keep_last: "0 < n \<Longrightarrow> xs \<noteq> [] \<Longrightarrow> last (keep_last n xs) = last xs"
  by (simp add: keep_last_def last_drop Suc_leI)

text \<open>Decimal digits, as a template literal prints a number.\<close>

fun show_nat :: "nat \<Rightarrow> string" where
  "show_nat n = (if n < 10 then [char_of (48 + n)] else show_nat (n div 10) @ [char_of (48 + n mod 10)])"

declare show_nat.simps [simp del]

text \<open>\<open>sort\<close> with a comparator: stable, so an insertion sort on a "not greater" test.\<close>

fun insert_by :: "('a \<Rightarrow> 'a \<Rightarrow> bool) \<Rightarrow> 'a \<Rightarrow> 'a list \<Rightarrow> 'a list" where
  "insert_by le x [] = [x]"
| "insert_by le x (y # ys) = (if le x y then x # y # ys else y # insert_by le x ys)"

definition sort_by :: "('a \<Rightarrow> 'a \<Rightarrow> bool) \<Rightarrow> 'a list \<Rightarrow> 'a list" where
  "sort_by le xs = foldr (insert_by le) xs []"

lemma set_insert_by [simp]: "set (insert_by le x xs) = insert x (set xs)"
  by (induction xs) auto

lemma set_sort_by [simp]: "set (sort_by le xs) = set xs"
  by (induction xs) (simp_all add: sort_by_def)

lemma length_insert_by [simp]: "length (insert_by le x xs) = Suc (length xs)"
  by (induction xs) auto

lemma length_sort_by [simp]: "length (sort_by le xs) = length xs"
  by (induction xs) (simp_all add: sort_by_def)

lemma sorted_insert_by:
  assumes "totalp le" "transp le" "reflp le" "sorted_wrt le xs"
  shows "sorted_wrt le (insert_by le x xs)"
  using assms(4)
proof (induction xs)
  case (Cons y ys)
  show ?case
  proof (cases "le x y")
    case True
    with Cons assms(2) show ?thesis by (auto dest: transpD)
  next
    case False
    with assms(1,3) have "le y x" by (metis reflpD totalpD)
    with False Cons show ?thesis by auto
  qed
qed simp

lemma sorted_sort_by:
  "totalp le \<Longrightarrow> transp le \<Longrightarrow> reflp le \<Longrightarrow> sorted_wrt le (sort_by le xs)"
  by (induction xs) (simp_all add: sort_by_def sorted_insert_by)

section \<open>The contract of a registry\<close>

text \<open>
  Every registry of the kernel has the same shape: registering refuses a key that is taken,
  stores a fresh record and returns a handle; disposing the handle removes the record only if
  the key still holds that very record. \<open>owner s k\<close> is the token stored at a key and
  \<open>used s\<close> the tokens handed out so far.
\<close>

locale token_registry =
  fixes owner :: "'s \<Rightarrow> 'k \<Rightarrow> nat option"
    and used :: "'s \<Rightarrow> nat set"
    and register :: "'k \<Rightarrow> 'a \<Rightarrow> 's \<Rightarrow> 'e + nat \<times> 's"
    and dispose :: "'k \<Rightarrow> nat \<Rightarrow> 's \<Rightarrow> 's"
    and inv :: "'s \<Rightarrow> bool"
  assumes register_free: "inv s \<Longrightarrow> register k a s = Inr (t, s') \<Longrightarrow> owner s k = None"
    and register_owner: "inv s \<Longrightarrow> register k a s = Inr (t, s') \<Longrightarrow> owner s' = (owner s)(k \<mapsto> t)"
    and register_fresh: "inv s \<Longrightarrow> register k a s = Inr (t, s') \<Longrightarrow> t \<notin> used s"
    and register_used: "inv s \<Longrightarrow> register k a s = Inr (t, s') \<Longrightarrow> used s' = insert t (used s)"
    and register_inv: "inv s \<Longrightarrow> register k a s = Inr (t, s') \<Longrightarrow> inv s'"
    and dispose_owner: "inv s \<Longrightarrow>
          owner (dispose k t s) = (if owner s k = Some t then (owner s)(k := None) else owner s)"
    and dispose_used: "inv s \<Longrightarrow> used (dispose k t s) = used s"
    and dispose_inv: "inv s \<Longrightarrow> inv (dispose k t s)"
begin

lemma duplicate_refused:
  assumes "inv s" and "owner s k = Some t"
  shows "\<exists>e. register k a s = Inl e"
proof (cases "register k a s")
  case (Inr r)
  obtain t' s' where "r = (t', s')" by (cases r)
  with Inr assms(1) have "owner s k = None" by (auto dest: register_free)
  with assms(2) show ?thesis by simp
qed simp

lemma dispose_undoes_register:
  assumes "inv s" and "register k a s = Inr (t, s')"
  shows "owner (dispose k t s') = owner s"
proof -
  have "owner s' = (owner s)(k \<mapsto> t)" and "inv s'" and "owner s k = None"
    using assms by (auto intro: register_owner register_inv register_free)
  then show ?thesis by (auto simp: dispose_owner fun_upd_idem_iff)
qed

text \<open>A handle that was disposed, or that outlives its record, never removes a later record.\<close>

lemma stale_dispose_harmless:
  assumes "inv s" and "t \<in> used s" and "register k a s = Inr (t', s')"
  shows "owner (dispose k t s') k = Some t'"
proof -
  have "t' \<noteq> t" using assms register_fresh by blast
  moreover have "inv s'" and "owner s' k = Some t'"
    using assms by (auto intro: register_inv simp: register_owner)
  ultimately show ?thesis by (simp add: dispose_owner)
qed

lemma dispose_idempotent:
  assumes "inv s"
  shows "owner (dispose k t (dispose k t s)) = owner (dispose k t s)"
  using assms by (simp add: dispose_owner dispose_inv)

end

end
