(* ===== verification/Classification.thy ===== *)
theory Classification
  imports Prelude
begin

text \<open>
  The data classification lattice and \<open>ClassificationService\<close>
  (\<open>packages/kernel/src/classification-service.ts\<close>): the ordered levels, channel capacities
  and their ceilings, and the per-run high-water mark with its version and bounded history.
  A run's record has an identity (a token) because its disposable only removes the record it
  was returned for.
\<close>

section \<open>Levels, capacities and ceilings\<close>

datatype data_classification = Public | Internal | Confidential | Restricted

datatype channel_capacity = CapPublic | CapInternal | CapPrivate | CapLocalOnly

definition CLASSIFICATION_ORDER :: "data_classification list" where
  "CLASSIFICATION_ORDER = [Public, Internal, Confidential, Restricted]"

fun index_of :: "'a \<Rightarrow> 'a list \<Rightarrow> nat" where
  "index_of x [] = 0"
| "index_of x (y # ys) = (if x = y then 0 else Suc (index_of x ys))"

text \<open>\<open>indexOf\<close> cannot miss: every value of the enum is in the list.\<close>

definition classification_rank :: "data_classification \<Rightarrow> nat" where
  "classification_rank l = index_of l CLASSIFICATION_ORDER"

lemma classification_rank_simps [simp]:
  "classification_rank Public = 0"
  "classification_rank Internal = 1"
  "classification_rank Confidential = 2"
  "classification_rank Restricted = 3"
  by (simp_all add: classification_rank_def CLASSIFICATION_ORDER_def)

lemma classification_rank_inj: "classification_rank a = classification_rank b \<longleftrightarrow> a = b"
  by (cases a; cases b) simp_all

instantiation data_classification :: linorder
begin

definition less_eq_data_classification :: "data_classification \<Rightarrow> data_classification \<Rightarrow> bool" where
  "a \<le> b \<longleftrightarrow> classification_rank a \<le> classification_rank b"

definition less_data_classification :: "data_classification \<Rightarrow> data_classification \<Rightarrow> bool" where
  "a < b \<longleftrightarrow> classification_rank a < classification_rank b"

instance
  by standard
    (auto simp: less_eq_data_classification_def less_data_classification_def classification_rank_inj)

end

lemmas classification_order_defs = less_eq_data_classification_def less_data_classification_def

lemma Public_least [simp]: "Public \<le> l"
  by (simp add: classification_order_defs)

lemma Restricted_greatest [simp]: "l \<le> Restricted"
  by (cases l) (simp_all add: classification_order_defs)

definition compare_classification :: "data_classification \<Rightarrow> data_classification \<Rightarrow> int" where
  "compare_classification a b = int (classification_rank a) - int (classification_rank b)"

lemma compare_classification_pos [simp]: "0 < compare_classification a b \<longleftrightarrow> b < a"
  by (simp add: compare_classification_def classification_order_defs)

lemma compare_classification_nonpos [simp]: "compare_classification a b \<le> 0 \<longleftrightarrow> a \<le> b"
  by (simp add: compare_classification_def classification_order_defs)

fun max_classification_from :: "data_classification \<Rightarrow> data_classification list \<Rightarrow> data_classification" where
  "max_classification_from h [] = h"
| "max_classification_from h (l # ls) =
     max_classification_from (if compare_classification l h > 0 then l else h) ls"

definition max_classification :: "data_classification list \<Rightarrow> data_classification" where
  "max_classification ls = max_classification_from Public ls"

lemma max_classification_from_Max: "max_classification_from h ls = Max (insert h (set ls))"
proof (induction ls arbitrary: h)
  case (Cons l ls)
  have "(if l > h then l else h) = max h l" by (auto simp: max_def)
  moreover have "Max (insert (max h l) (set ls)) = Max (insert h (insert l (set ls)))"
    by (cases "ls = []") (simp_all add: max.assoc)
  ultimately show ?case using Cons by simp
qed simp

definition CAPACITY_CEILINGS :: "channel_capacity \<Rightarrow> data_classification" where
  "CAPACITY_CEILINGS c = (case c of
      CapPublic \<Rightarrow> Public | CapInternal \<Rightarrow> Internal
    | CapPrivate \<Rightarrow> Confidential | CapLocalOnly \<Rightarrow> Restricted)"

definition capacity_ceiling :: "channel_capacity \<Rightarrow> data_classification" where
  "capacity_ceiling c = CAPACITY_CEILINGS c"

definition exceeds_capacity :: "data_classification \<Rightarrow> channel_capacity \<Rightarrow> bool" where
  "exceeds_capacity l c = (compare_classification l (capacity_ceiling c) > 0)"

lemma exceeds_capacity_iff: "exceeds_capacity l c \<longleftrightarrow> capacity_ceiling c < l"
  by (simp add: exceeds_capacity_def)

lemma local_only_never_exceeded [simp]: "\<not> exceeds_capacity l CapLocalOnly"
  by (simp add: exceeds_capacity_iff capacity_ceiling_def CAPACITY_CEILINGS_def not_less)

section \<open>Parsing the enums\<close>

definition parse_classification :: "string \<Rightarrow> data_classification option" where
  "parse_classification s =
     (if s = ''public'' then Some Public
      else if s = ''internal'' then Some Internal
      else if s = ''confidential'' then Some Confidential
      else if s = ''restricted'' then Some Restricted else None)"

definition parse_capacity :: "string \<Rightarrow> channel_capacity option" where
  "parse_capacity s =
     (if s = ''public'' then Some CapPublic
      else if s = ''internal'' then Some CapInternal
      else if s = ''private'' then Some CapPrivate
      else if s = ''local-only'' then Some CapLocalOnly else None)"

definition show_classification :: "data_classification \<Rightarrow> string" where
  "show_classification l = (case l of Public \<Rightarrow> ''public'' | Internal \<Rightarrow> ''internal''
     | Confidential \<Rightarrow> ''confidential'' | Restricted \<Rightarrow> ''restricted'')"

definition show_capacity :: "channel_capacity \<Rightarrow> string" where
  "show_capacity c = (case c of CapPublic \<Rightarrow> ''public'' | CapInternal \<Rightarrow> ''internal''
     | CapPrivate \<Rightarrow> ''private'' | CapLocalOnly \<Rightarrow> ''local-only'')"

lemma parse_show_classification [simp]: "parse_classification (show_classification l) = Some l"
  by (cases l) (simp_all add: parse_classification_def show_classification_def)

section \<open>The service\<close>

record classification_snapshot =
  snap_level :: data_classification
  snap_version :: nat

record classification_raise =
  raise_level :: data_classification
  raise_version :: nat
  raise_reason :: string

record run_classification =
  rc_level :: data_classification
  rc_version :: nat
  rc_history :: "classification_raise list"

record classification_service =
  cs_runs :: "(string, nat \<times> run_classification) jmap"
  cs_next :: nat

datatype classification_error =
    RunIdInvalid
  | RunAlreadyOpen string
  | InitialClassificationInvalid string
  | ClassificationInvalid string
  | CapacityInvalid string

definition DEFAULT_RUN_CLASSIFICATION :: string where
  "DEFAULT_RUN_CLASSIFICATION = ''internal''"

definition MAX_RAISE_HISTORY :: nat where
  "MAX_RAISE_HISTORY = 64"

definition MAX_REASON_LENGTH :: nat where
  "MAX_REASON_LENGTH = 512"

definition UNCLASSIFIED_SNAPSHOT :: classification_snapshot where
  "UNCLASSIFIED_SNAPSHOT = \<lparr>snap_level = Public, snap_version = 0\<rparr>"

definition new_classification_service :: classification_service where
  "new_classification_service = \<lparr>cs_runs = [], cs_next = 0\<rparr>"

definition open_run ::
  "string \<Rightarrow> string option \<Rightarrow> classification_service
    \<Rightarrow> classification_error + nat \<times> classification_service" where
  "open_run run_id initial s =
     (if run_id = [] then Inl RunIdInvalid
      else if jhas (cs_runs s) run_id then Inl (RunAlreadyOpen run_id)
      else let candidate = (case initial of None \<Rightarrow> DEFAULT_RUN_CLASSIFICATION | Some c \<Rightarrow> c) in
        (case parse_classification candidate of
           None \<Rightarrow> Inl (InitialClassificationInvalid run_id)
         | Some l \<Rightarrow>
             let entry = \<lparr>rc_level = l, rc_version = 1, rc_history = []\<rparr> in
             Inr (cs_next s,
                  s\<lparr>cs_runs := jset run_id (cs_next s, entry) (cs_runs s),
                    cs_next := Suc (cs_next s)\<rparr>)))"

text \<open>The disposable of \<open>open_run\<close>: it holds the run id and the record it was returned for.\<close>

definition dispose_run :: "string \<Rightarrow> nat \<Rightarrow> classification_service \<Rightarrow> classification_service" where
  "dispose_run run_id entry s =
     (case jget (cs_runs s) run_id of
        None \<Rightarrow> s
      | Some (t, _) \<Rightarrow> if t = entry then s\<lparr>cs_runs := jdel run_id (cs_runs s)\<rparr> else s)"

definition is_open :: "string \<Rightarrow> classification_service \<Rightarrow> bool" where
  "is_open run_id s = jhas (cs_runs s) run_id"

definition snapshot :: "string option \<Rightarrow> classification_service \<Rightarrow> classification_snapshot" where
  "snapshot run s =
     (case run of
        None \<Rightarrow> UNCLASSIFIED_SNAPSHOT
      | Some run_id \<Rightarrow>
          (case jget (cs_runs s) run_id of
             None \<Rightarrow> UNCLASSIFIED_SNAPSHOT
           | Some (_, e) \<Rightarrow> \<lparr>snap_level = rc_level e, snap_version = rc_version e\<rparr>))"

definition raise_entry ::
  "data_classification \<Rightarrow> string \<Rightarrow> run_classification \<Rightarrow> run_classification" where
  "raise_entry l reason e =
     e\<lparr>rc_level := l,
       rc_version := Suc (rc_version e),
       rc_history := keep_last MAX_RAISE_HISTORY
         (rc_history e @ [\<lparr>raise_level = l, raise_version = Suc (rc_version e),
                           raise_reason = take MAX_REASON_LENGTH reason\<rparr>])\<rparr>"

definition raise_run ::
  "string \<Rightarrow> string \<Rightarrow> string \<Rightarrow> classification_service
    \<Rightarrow> classification_error + classification_snapshot \<times> classification_service" where
  "raise_run run_id level reason s =
     (case parse_classification level of
        None \<Rightarrow> Inl (ClassificationInvalid level)
      | Some l \<Rightarrow>
          (case jget (cs_runs s) run_id of
             None \<Rightarrow> Inr (UNCLASSIFIED_SNAPSHOT, s)
           | Some (t, e) \<Rightarrow>
               if compare_classification l (rc_level e) \<le> 0
               then Inr (\<lparr>snap_level = rc_level e, snap_version = rc_version e\<rparr>, s)
               else let e' = raise_entry l reason e in
                 Inr (\<lparr>snap_level = rc_level e', snap_version = rc_version e'\<rparr>,
                      s\<lparr>cs_runs := jset run_id (t, e') (cs_runs s)\<rparr>)))"

definition history :: "string \<Rightarrow> classification_service \<Rightarrow> classification_raise list" where
  "history run_id s =
     (case jget (cs_runs s) run_id of None \<Rightarrow> [] | Some (_, e) \<Rightarrow> rc_history e)"

definition ceiling_for :: "string \<Rightarrow> classification_error + data_classification" where
  "ceiling_for c =
     (case parse_capacity c of
        None \<Rightarrow> Inl (CapacityInvalid c) | Some cap \<Rightarrow> Inr (capacity_ceiling cap))"

definition exceeds :: "data_classification \<Rightarrow> string \<Rightarrow> classification_error + bool" where
  "exceeds l c = rbind (ceiling_for c) (\<lambda>ceil. Inr (compare_classification l ceil > 0))"

section \<open>Invariant and laws\<close>

definition history_ok :: "run_classification \<Rightarrow> bool" where
  "history_ok e \<longleftrightarrow>
     length (rc_history e) \<le> MAX_RAISE_HISTORY \<and>
     sorted_wrt (<) (map raise_version (rc_history e)) \<and>
     (\<forall>h \<in> set (rc_history e).
        raise_version h \<le> rc_version e \<and> raise_level h \<le> rc_level e \<and>
        length (raise_reason h) \<le> MAX_REASON_LENGTH)"

definition class_inv :: "classification_service \<Rightarrow> bool" where
  "class_inv s \<longleftrightarrow>
     jkeys_distinct (cs_runs s) \<and>
     (\<forall>r t e. jget (cs_runs s) r = Some (t, e) \<longrightarrow> t < cs_next s \<and> 1 \<le> rc_version e \<and> history_ok e)"

lemma sorted_wrt_keep_last: "sorted_wrt P xs \<Longrightarrow> sorted_wrt P (keep_last n xs)"
  by (simp add: keep_last_def sorted_wrt_drop)

lemma history_ok_raise:
  assumes "history_ok e" and "rc_level e < l"
  shows "history_ok (raise_entry l reason e)"
proof -
  let ?h = "rc_history e @ [\<lparr>raise_level = l, raise_version = Suc (rc_version e),
                           raise_reason = take MAX_REASON_LENGTH reason\<rparr>]"
  have "sorted_wrt (<) (map raise_version ?h)"
    using assms by (force simp: history_ok_def sorted_wrt_append)
  then have "sorted_wrt (<) (map raise_version (keep_last MAX_RAISE_HISTORY ?h))"
    by (simp add: keep_last_def drop_map [symmetric] sorted_wrt_drop del: drop_append map_append)
  moreover have "\<forall>h \<in> set ?h. raise_version h \<le> Suc (rc_version e) \<and> raise_level h \<le> l \<and>
        length (raise_reason h) \<le> MAX_REASON_LENGTH"
    using assms by (auto simp: history_ok_def intro: order_trans [OF _ less_imp_le])
  ultimately show ?thesis
    using set_keep_last [of MAX_RAISE_HISTORY ?h]
    by (auto simp: history_ok_def raise_entry_def)
qed

lemma class_inv_new: "class_inv new_classification_service"
  by (simp add: class_inv_def new_classification_service_def)

lemma open_run_cases:
  assumes "open_run r i s = Inr (t, s')"
  obtains l where "r \<noteq> []" and "jget (cs_runs s) r = None" and "t = cs_next s"
    and "s' = s\<lparr>cs_runs := jset r (t, \<lparr>rc_level = l, rc_version = 1, rc_history = []\<rparr>) (cs_runs s),
                cs_next := Suc t\<rparr>"
  using assms
  by (auto simp: open_run_def Let_def simp del: not_None_eq split: if_splits option.splits)

lemma class_inv_open: "class_inv s \<Longrightarrow> open_run r i s = Inr (t, s') \<Longrightarrow> class_inv s'"
  by (erule open_run_cases)
    (auto simp: class_inv_def history_ok_def less_Suc_eq split: if_splits)

lemma class_inv_dispose: "class_inv s \<Longrightarrow> class_inv (dispose_run r t s)"
  by (auto simp: class_inv_def dispose_run_def split: option.splits if_splits)

lemma raise_run_cases:
  assumes "raise_run r level reason s = Inr (snap, s')"
  obtains (unchanged) "s' = s"
  | (raised) l t e where "parse_classification level = Some l"
      and "jget (cs_runs s) r = Some (t, e)" and "rc_level e < l"
      and "s' = s\<lparr>cs_runs := jset r (t, raise_entry l reason e) (cs_runs s)\<rparr>"
  using assms
  by (auto simp: raise_run_def Let_def not_le split: option.splits if_splits)

lemma class_inv_raise: "class_inv s \<Longrightarrow> raise_run r level reason s = Inr (snap, s') \<Longrightarrow> class_inv s'"
  by (erule raise_run_cases)
    (auto simp: class_inv_def raise_entry_def history_ok_raise [unfolded raise_entry_def]
      split: if_splits)

definition run_owner :: "classification_service \<Rightarrow> string \<Rightarrow> nat option" where
  "run_owner s r = map_option fst (jget (cs_runs s) r)"

interpretation runs: token_registry run_owner "\<lambda>s. {..<cs_next s}" open_run dispose_run class_inv
proof (unfold_locales, goal_cases)
  case (1 s k a t s') then show ?case by (auto elim: open_run_cases simp: run_owner_def)
next
  case (2 s k a t s') then show ?case by (auto elim!: open_run_cases simp: run_owner_def fun_eq_iff)
next
  case (3 s k a t s') then show ?case by (auto elim: open_run_cases)
next
  case (4 s k a t s') then show ?case by (auto elim!: open_run_cases)
next
  case (5 s k a t s') then show ?case by (rule class_inv_open)
next
  case (6 s k t) then show ?case
    by (auto simp: run_owner_def dispose_run_def fun_eq_iff split: option.splits)
next
  case (7 s k t) then show ?case by (auto simp: dispose_run_def split: option.splits)
next
  case (8 s k t) then show ?case by (rule class_inv_dispose)
qed

section \<open>Traces of the service\<close>

datatype class_op =
    OpenRun string "string option"
  | RaiseRun string string string
  | DisposeRun string nat

fun class_step :: "class_op \<Rightarrow> classification_service \<Rightarrow> classification_service" where
  "class_step (OpenRun r i) s = (case open_run r i s of Inl _ \<Rightarrow> s | Inr (_, s') \<Rightarrow> s')"
| "class_step (RaiseRun r l why) s = (case raise_run r l why s of Inl _ \<Rightarrow> s | Inr (_, s') \<Rightarrow> s')"
| "class_step (DisposeRun r t) s = dispose_run r t s"

definition class_trace :: "class_op list \<Rightarrow> classification_service \<Rightarrow> classification_service" where
  "class_trace ops s = fold class_step ops s"

lemma class_inv_step: "class_inv s \<Longrightarrow> class_inv (class_step x s)"
  by (cases x)
    (auto intro: class_inv_open class_inv_raise class_inv_dispose split: sum.splits)

lemma class_inv_trace: "class_inv s \<Longrightarrow> class_inv (class_trace ops s)"
  by (induction ops arbitrary: s) (auto simp: class_trace_def class_inv_step)

lemma class_step_next_mono: "cs_next s \<le> cs_next (class_step x s)"
  by (cases x)
    (auto elim!: open_run_cases raise_run_cases simp: dispose_run_def
      split: sum.splits option.splits)

lemma class_trace_next_mono: "cs_next s \<le> cs_next (class_trace ops s)"
  by (induction ops arbitrary: s)
    (auto simp: class_trace_def intro: order_trans [OF class_step_next_mono])

definition entry_le :: "run_classification \<Rightarrow> run_classification \<Rightarrow> bool" where
  "entry_le e e' \<longleftrightarrow> rc_level e \<le> rc_level e' \<and> rc_version e \<le> rc_version e' \<and>
     (rc_version e = rc_version e' \<longrightarrow> e = e')"

lemma entry_le_refl [simp]: "entry_le e e"
  by (simp add: entry_le_def)

lemma entry_le_trans: "entry_le a b \<Longrightarrow> entry_le b c \<Longrightarrow> entry_le a c"
  by (auto simp: entry_le_def)

lemma entry_le_raise: "rc_level e < l \<Longrightarrow> entry_le e (raise_entry l reason e)"
  by (simp add: entry_le_def raise_entry_def less_imp_le)

lemma class_step_entry:
  assumes "jget (cs_runs (class_step x s)) r = Some (t, e')" and "t < cs_next s"
  shows "\<exists>e. jget (cs_runs s) r = Some (t, e) \<and> entry_le e e'"
proof (cases x)
  case (OpenRun r2 i)
  with assms show ?thesis
    by (auto elim!: open_run_cases split: sum.splits if_splits)
next
  case (RaiseRun r2 l why)
  with assms show ?thesis
    by (auto elim!: raise_run_cases intro: entry_le_raise split: sum.splits if_splits)
next
  case (DisposeRun r2 t2)
  with assms show ?thesis
    by (auto simp: dispose_run_def split: option.splits if_splits)
qed

lemma class_trace_entry:
  assumes "t < cs_next s" and "jget (cs_runs (class_trace ops s)) r = Some (t, e')"
  shows "\<exists>e. jget (cs_runs s) r = Some (t, e) \<and> entry_le e e'"
  using assms(2)
proof (induction ops arbitrary: e' rule: rev_induct)
  case Nil
  then show ?case by (simp add: class_trace_def)
next
  case (snoc x ops)
  let ?m = "class_trace ops s"
  have "t < cs_next ?m" using assms(1) class_trace_next_mono order_less_le_trans by blast
  moreover have "jget (cs_runs (class_step x ?m)) r = Some (t, e')"
    using snoc.prems by (simp add: class_trace_def)
  ultimately obtain e where "jget (cs_runs ?m) r = Some (t, e)" and "entry_le e e'"
    using class_step_entry by blast
  with snoc.IH show ?case by (blast intro: entry_le_trans)
qed

section \<open>The high-water mark of a run\<close>

text \<open>The levels that a sequence of operations raises a run to, and how many of them are new highs.\<close>

fun raised_level :: "string \<Rightarrow> class_op \<Rightarrow> data_classification option" where
  "raised_level r (RaiseRun r' l why) = (if r' = r then parse_classification l else None)"
| "raised_level r x = None"

definition raised_levels :: "string \<Rightarrow> class_op list \<Rightarrow> data_classification list" where
  "raised_levels r ops = List.map_filter (raised_level r) ops"

fun new_highs :: "data_classification \<Rightarrow> data_classification list \<Rightarrow> nat" where
  "new_highs h [] = 0"
| "new_highs h (l # ls) = (if h < l then Suc (new_highs l ls) else new_highs h ls)"

lemma new_highs_append:
  "new_highs h (ls @ [l]) = new_highs h ls + (if Max (insert h (set ls)) < l then 1 else 0)"
proof (induction ls arbitrary: h)
  case (Cons k ls)
  have "Max (insert h (insert k (set ls))) = (if h < k then Max (insert k (set ls)) else Max (insert h (set ls)))"
    by (cases "ls = []") (auto simp: max_def insert_commute [of h k])
  then show ?case using Cons by simp
qed simp

lemma raised_levels_append:
  "raised_levels r (ops @ [x]) = raised_levels r ops @ (case raised_level r x of None \<Rightarrow> [] | Some l \<Rightarrow> [l])"
  by (simp add: raised_levels_def List.map_filter_def split: option.split)

lemma class_step_exact:
  assumes "jget (cs_runs s) r = Some (t, e)" and "jget (cs_runs (class_step x s)) r = Some (t, e')" and "t < cs_next s"
  shows "(rc_level e', rc_version e') =
    (case raised_level r x of None \<Rightarrow> (rc_level e, rc_version e)
     | Some l \<Rightarrow> (max (rc_level e) l, rc_version e + (if rc_level e < l then 1 else 0)))"
proof (cases x)
  case (OpenRun r2 i)
  with assms show ?thesis
    by (auto elim!: open_run_cases split: sum.splits if_splits)
next
  case (RaiseRun r2 l why)
  with assms show ?thesis
    by (auto simp: raise_run_def raise_entry_def Let_def max_def split: option.splits if_splits)
next
  case (DisposeRun r2 t2)
  with assms show ?thesis
    by (auto simp: dispose_run_def split: option.splits if_splits)
qed

section \<open>Properties\<close>

text \<open>
  C5: the high-water mark of a run. Whatever operations the service performs, as long as a run's
  record is still the one that was open, its level is exactly the highest of its level then and of all
  levels it was raised to since, and its version has grown by one for every raise that was a new high.
  This is what an approval's \<open>recheck\<close> relies on: an unchanged version means an unchanged level.
\<close>

theorem high_water_mark:
  assumes "class_inv s"
    and "jget (cs_runs s) r = Some (t, e)"
    and "jget (cs_runs (class_trace ops s)) r = Some (t, e')"
  shows "rc_level e' = Max (insert (rc_level e) (set (raised_levels r ops))) \<and>
     rc_version e' = rc_version e + new_highs (rc_level e) (raised_levels r ops)"
  using assms(3)
proof (induction ops arbitrary: e' rule: rev_induct)
  case Nil
  then show ?case using assms(2) by (simp add: class_trace_def raised_levels_def List.map_filter_def)
next
  case (snoc x ops)
  let ?m = "class_trace ops s"
  have "t < cs_next s" using assms(1,2) by (auto simp: class_inv_def)
  then have t: "t < cs_next ?m" using class_trace_next_mono order_less_le_trans by blast
  have e': "jget (cs_runs (class_step x ?m)) r = Some (t, e')"
    using snoc.prems by (simp add: class_trace_def)
  then obtain em where m: "jget (cs_runs ?m) r = Some (t, em)"
    using class_step_entry [OF e' t] by blast
  show ?case
  proof (cases "raised_level r x")
    case None
    then show ?thesis
      using class_step_exact [OF m e' t] snoc.IH [OF m] by (simp add: raised_levels_append)
  next
    case (Some l)
    then show ?thesis
      using class_step_exact [OF m e' t] snoc.IH [OF m]
      by (simp add: raised_levels_append new_highs_append insert_commute [of _ l] max.commute)
  qed
qed

definition demo_service :: classification_service where
  "demo_service = class_trace [OpenRun ''r'' None] new_classification_service"

theorem high_water_mark_witness:
  "\<exists>e. jget (cs_runs (class_trace [RaiseRun ''r'' ''confidential'' ''x'', RaiseRun ''r'' ''public'' ''y''] demo_service)) ''r''
      = Some (0, e) \<and> rc_level e = Confidential \<and> rc_version e = 2"
proof -
  let ?ops = "[RaiseRun ''r'' ''confidential'' ''x'', RaiseRun ''r'' ''public'' ''y'']"
  have i: "class_inv demo_service"
    unfolding demo_service_def by (rule class_inv_trace [OF class_inv_new])
  have a: "jget (cs_runs demo_service) ''r'' = Some (0, \<lparr>rc_level = Internal, rc_version = 1, rc_history = []\<rparr>)"
    by code_simp
  have b: "jget (cs_runs (class_trace ?ops demo_service)) ''r''
      = Some (0, \<lparr>rc_level = Confidential, rc_version = 2,
          rc_history = [\<lparr>raise_level = Confidential, raise_version = 2, raise_reason = ''x''\<rparr>]\<rparr>)"
    by code_simp
  have l: "raised_levels ''r'' ?ops = [Confidential, Public]" by code_simp
  have "Max (insert Internal (set (raised_levels ''r'' ?ops))) = Confidential" "new_highs Internal (raised_levels ''r'' ?ops) = 1"
    unfolding l by (simp_all add: classification_order_defs max_def)
  then show ?thesis using high_water_mark [OF i a b] b by simp
qed

text \<open>the history of every run stays within its bound of 64 entries, with strictly increasing
  versions and reasons cut to 512 characters, in every state the service can reach.
\<close>

theorem history_bounded:
  assumes "h = history r (class_trace ops new_classification_service)"
  shows "length h \<le> 64 \<and> sorted_wrt (<) (map raise_version h) \<and> list_all (\<lambda>x. length (raise_reason x) \<le> 512) h"
proof -
  have "class_inv (class_trace ops new_classification_service)"
    by (rule class_inv_trace [OF class_inv_new])
  with assms show ?thesis
    by (auto simp: history_def class_inv_def history_ok_def MAX_RAISE_HISTORY_def
        MAX_REASON_LENGTH_def list_all_iff split: option.splits)
qed

theorem history_bounded_witness:
  "length (history ''r'' (class_trace [OpenRun ''r'' None, RaiseRun ''r'' ''restricted'' ''leak'']
     new_classification_service)) \<le> 64"
  using history_bounded [OF refl, of "''r''"] by blast

text \<open>
  Raising an open run with a valid level always leaves it at the maximum of its level and
  the requested one, and the returned snapshot is the run's new snapshot.
\<close>

theorem raise_is_max:
  assumes "parse_classification level = Some l" and "jget (cs_runs s) r = Some (t, e)"
  shows "\<exists>s'. raise_run r level reason s = Inr (snapshot (Some r) s', s') \<and>
     snap_level (snapshot (Some r) s') = max (rc_level e) l"
  using assms
  by (auto simp: raise_run_def snapshot_def raise_entry_def Let_def max_def)

theorem raise_is_max_witness:
  "\<exists>s'. raise_run ''r'' ''restricted'' ''x'' demo_service = Inr (snapshot (Some ''r'') s', s') \<and>
     snap_level (snapshot (Some ''r'') s') = max Internal Restricted"
proof -
  have a: "jget (cs_runs demo_service) ''r'' = Some (0, \<lparr>rc_level = Internal, rc_version = 1, rc_history = []\<rparr>)"
    by code_simp
  have b: "parse_classification ''restricted'' = Some Restricted" by code_simp
  show ?thesis using raise_is_max [OF b a, of "''x''"] by simp
qed

lemma max_classification_Max: "max_classification ls = Max (insert Public (set ls))"
  by (simp add: max_classification_def max_classification_from_Max)

lemma max_classification_two: "max_classification [a, b] = max a b"
  by (simp add: max_classification_Max max_def)

lemma exceeds_agrees: "exceeds l (show_capacity c) = Inr (exceeds_capacity l c)"
  by (cases c)
    (simp_all add: exceeds_def ceiling_for_def parse_capacity_def show_capacity_def exceeds_capacity_def)

end
