(* ===== verification/Json.thy ===== *)
theory Json
  imports Prelude
begin

text \<open>
  JavaScript values as the kernel's validators see them (\<open>unknown\<close>): trees without cycles or
  shared nodes. \<open>VOther\<close> stands for what is never JSON (functions, symbols, bigints, class
  instances), \<open>VUndef\<close> for \<open>undefined\<close>. An object is its own enumerable string keys in
  insertion order. Numbers are IEEE doubles read as exact rationals, with the values that are not
  rationals written out.
\<close>

datatype jsnum = NaN | PosInf | NegInf | NegZero | Fin rat

datatype jsval =
    VUndef
  | VNull
  | VBool bool
  | VNum jsnum
  | VStr string
  | VArr "jsval list"
  | VObj "(string \<times> jsval) list"
  | VOther

section \<open>Numbers\<close>

definition num_finite :: "jsnum \<Rightarrow> bool" where
  "num_finite n = (case n of NegZero \<Rightarrow> True | Fin _ \<Rightarrow> True | _ \<Rightarrow> False)"

text \<open>The mathematical value of a finite number.\<close>

definition num_val :: "jsnum \<Rightarrow> rat" where
  "num_val n = (case n of Fin q \<Rightarrow> q | _ \<Rightarrow> 0)"

definition num_integer :: "jsnum \<Rightarrow> bool" where
  "num_integer n = (num_finite n \<and> of_int \<lfloor>num_val n\<rfloor> = num_val n)"

text \<open>The integer of a JavaScript number, if it is one.\<close>

definition num_int :: "jsnum \<Rightarrow> int option" where
  "num_int n = (if num_integer n then Some \<lfloor>num_val n\<rfloor> else None)"

lemma num_int_Fin [simp]: "num_int (Fin (of_int i)) = Some i"
  by (simp add: num_int_def num_integer_def num_finite_def num_val_def)

text \<open>
  IEEE rounding. A finite operation of the language is the exact result rounded to the nearest
  double, ties to even: 53 significant bits, exponents down to -1074, infinity from \<open>2 ^ 1024\<close>.
\<close>

definition pow2 :: "int \<Rightarrow> rat" where
  "pow2 k = (if 0 \<le> k then 2 ^ nat k else 1 / 2 ^ nat (- k))"

text \<open>The number of binary digits of a positive integer.\<close>

function bits :: "int \<Rightarrow> int" where
  "bits n = (if n \<le> 0 then 0 else 1 + bits (n div 2))"
  by auto
termination by (relation "measure nat") auto

declare bits.simps [simp del]

definition ilog2 :: "rat \<Rightarrow> int" where
  "ilog2 q =
     (let (n, d) = quotient_of q;
          k = bits n - bits d
      in if pow2 k \<le> q then k else k - 1)"

definition round_half_even :: "rat \<Rightarrow> int" where
  "round_half_even q =
     (let f = \<lfloor>q\<rfloor>; r = q - of_int f in
      if r < 1 / 2 then f else if 1 / 2 < r then f + 1 else if even f then f else f + 1)"

definition round_53 :: "rat \<Rightarrow> rat" where
  "round_53 a =
     (let e = max (ilog2 a - 52) (-1074) in of_int (round_half_even (a / pow2 e)) * pow2 e)"

definition double_of :: "rat \<Rightarrow> jsnum" where
  "double_of q =
     (if q = 0 then Fin 0
      else
        let r = round_53 \<bar>q\<bar>
        in if pow2 1024 \<le> r then (if q < 0 then NegInf else PosInf)
           else if r = 0 then (if q < 0 then NegZero else Fin 0)
           else Fin (if q < 0 then - r else r))"

text \<open>Integers of at most 53 bits are doubles.\<close>

lemma bits_nonneg: "0 \<le> bits n"
  by (induction n rule: bits.induct) (subst bits.simps, simp)

lemma bits_bounds: "0 < n \<Longrightarrow> 0 < bits n \<and> 2 ^ nat (bits n - 1) \<le> n \<and> n < 2 ^ nat (bits n)"
proof (induction n rule: bits.induct)
  case (1 n)
  have b: "bits n = 1 + bits (n div 2)" using 1(2) by (subst bits.simps) simp
  show ?case
  proof (cases "n = 1")
    case True
    then show ?thesis using b by (simp add: bits.simps [of 0])
  next
    case False
    then have "0 < n div 2" using 1(2) by linarith
    then have ih: "0 < bits (n div 2)" "2 ^ nat (bits (n div 2) - 1) \<le> n div 2"
      "n div 2 < 2 ^ nat (bits (n div 2))" using 1 by auto
    obtain m where m: "bits (n div 2) = int (Suc m)" using ih(1) by (metis gr0_implies_Suc pos_int_cases)
    then show ?thesis using ih unfolding b by (simp add: nat_add_distrib) linarith
  qed
qed

lemma bits_le: "0 < n \<Longrightarrow> n < 2 ^ k \<Longrightarrow> bits n \<le> int k"
proof -
  assume n: "0 < n" "n < 2 ^ k"
  with bits_bounds have "(2::int) ^ nat (bits n - 1) < 2 ^ k" by (meson le_less_trans)
  then have "nat (bits n - 1) < k" by simp
  then show ?thesis by linarith
qed

lemma ilog2_of_int: "0 < i \<Longrightarrow> ilog2 (of_int i) = bits i - 1"
proof -
  assume i: "0 < i"
  have "bits 1 = 1" by (simp add: bits.simps [of 1] bits.simps [of 0])
  moreover have "pow2 (bits i - 1) \<le> of_int i"
    using bits_bounds [OF i] by (simp add: pow2_def flip: of_int_le_iff)
  ultimately show ?thesis by (simp add: ilog2_def)
qed

lemma round_half_even_int [simp]: "round_half_even (of_int n) = n"
  by (simp add: round_half_even_def Let_def)

lemma pow2_int: "e \<le> 0 \<Longrightarrow> of_int i / pow2 e = of_int (i * 2 ^ nat (- e))"
  by (simp add: pow2_def)

lemma round_53_int:
  assumes "0 < i" and "i < 2 ^ 53"
  shows "round_53 (of_int i) = of_int i"
proof -
  let ?e = "max (ilog2 (of_int i) - 52) (-1074)"
  have "ilog2 (of_int i) \<le> 52" using ilog2_of_int [of i] bits_le [of i 53] assms by simp
  then have e: "?e \<le> 0" by simp
  show ?thesis
    unfolding round_53_def Let_def pow2_int [OF e] round_half_even_int using e by (simp add: pow2_def)
qed

lemma double_of_int:
  assumes "\<bar>i\<bar> < 2 ^ 53"
  shows "double_of (of_int i) = Fin (of_int i)"
proof (cases "i = 0")
  case False
  have r: "round_53 \<bar>of_int i\<bar> = of_int \<bar>i\<bar>"
    using round_53_int [of "\<bar>i\<bar>"] False assms by simp
  have "(of_int \<bar>i\<bar> :: rat) < of_int (2 ^ 53)" using assms by (simp only: of_int_less_iff)
  also have "\<dots> \<le> 2 ^ 1024" unfolding of_int_power by (simp add: power_increasing del: power_numeral)
  finally have "\<not> pow2 1024 \<le> (of_int \<bar>i\<bar> :: rat)" by (simp add: pow2_def)
  then show ?thesis using False unfolding double_of_def r Let_def by (auto simp: abs_if)
qed (simp add: double_of_def)

section \<open>Strings to numbers\<close>

definition digit_in :: "nat \<Rightarrow> char \<Rightarrow> nat option" where
  "digit_in base c =
     (let n = of_char c :: nat;
          v = (if is_digit_c c then Some (n - 48)
               else if is_lower_c c then Some (n - 87)
               else if is_upper_c c then Some (n - 55) else None)
      in case v of None \<Rightarrow> None | Some d \<Rightarrow> if d < base then Some d else None)"

fun digits_value :: "nat \<Rightarrow> int \<Rightarrow> string \<Rightarrow> int option" where
  "digits_value base acc [] = Some acc"
| "digits_value base acc (c # cs) =
     (case digit_in base c of None \<Rightarrow> None | Some d \<Rightarrow> digits_value base (acc * int base + int d) cs)"

definition unsigned_int :: "nat \<Rightarrow> string \<Rightarrow> int option" where
  "unsigned_int base s = (if s = [] then None else digits_value base 0 s)"

definition split_sign :: "string \<Rightarrow> bool \<times> string" where
  "split_sign s =
     (case s of
        [] \<Rightarrow> (False, [])
      | c # cs \<Rightarrow> if c = CHR ''-'' then (True, cs) else if c = CHR ''+'' then (False, cs) else (False, s))"

text \<open>The exponent part: \<open>Some 0\<close> when it is absent.\<close>

definition exponent_value :: "string \<Rightarrow> int option" where
  "exponent_value s =
     (case s of
        [] \<Rightarrow> Some 0
      | c # cs \<Rightarrow>
          if c = CHR ''e'' \<or> c = CHR ''E'' then
            (case split_sign cs of (neg, ds) \<Rightarrow>
               map_option (\<lambda>n. if neg then - n else n) (unsigned_int 10 ds))
          else None)"

definition unsigned_decimal :: "string \<Rightarrow> rat option" where
  "unsigned_decimal s =
     (let whole = takeWhile is_digit_c s;
          rest = drop (length whole) s;
          frac = (case rest of [] \<Rightarrow> []
            | c # cs \<Rightarrow> if c = CHR ''.'' then takeWhile is_digit_c cs else []);
          tail = (case rest of [] \<Rightarrow> []
            | c # cs \<Rightarrow> if c = CHR ''.'' then drop (length frac) cs else rest)
      in if whole = [] \<and> frac = [] then None
         else
           case (unsigned_int 10 (whole @ frac), exponent_value tail) of
             (Some m, Some e) \<Rightarrow>
               let k = e - int (length frac) in
               Some (if 0 \<le> k then of_int m * 10 ^ nat k else of_int m / 10 ^ nat (- k))
           | _ \<Rightarrow> None)"

text \<open>\<open>Number(s)\<close>.\<close>

definition js_number :: "string \<Rightarrow> jsnum" where
  "js_number s =
     (let t = js_trim s;
          radix = (\<lambda>base. case unsigned_int base (drop 2 t) of None \<Rightarrow> NaN | Some n \<Rightarrow> double_of (of_int n))
      in if t = [] then Fin 0
         else if take 2 t = ''0x'' \<or> take 2 t = ''0X'' then radix 16
         else if take 2 t = ''0o'' \<or> take 2 t = ''0O'' then radix 8
         else if take 2 t = ''0b'' \<or> take 2 t = ''0B'' then radix 2
         else
           case split_sign t of (neg, u) \<Rightarrow>
             if u = ''Infinity'' then (if neg then NegInf else PosInf)
             else
               case unsigned_decimal u of
                 None \<Rightarrow> NaN
               | Some q \<Rightarrow> if neg then (if q = 0 then NegZero else double_of (- q)) else double_of q)"

section \<open>Values\<close>

definition is_plain_object :: "jsval \<Rightarrow> bool" where
  "is_plain_object v = (case v of VObj _ \<Rightarrow> True | _ \<Rightarrow> False)"

definition obj_fields :: "jsval \<Rightarrow> (string \<times> jsval) list" where
  "obj_fields v = (case v of VObj fs \<Rightarrow> fs | _ \<Rightarrow> [])"

text \<open>Property read: \<open>undefined\<close> where the key is absent.\<close>

definition getp :: "jsval \<Rightarrow> string \<Rightarrow> jsval" where
  "getp v k = (case jget (obj_fields v) k of None \<Rightarrow> VUndef | Some x \<Rightarrow> x)"

definition str_of :: "jsval \<Rightarrow> string option" where
  "str_of v = (case v of VStr s \<Rightarrow> Some s | _ \<Rightarrow> None)"

lemma str_of_Some [simp]: "str_of v = Some s \<longleftrightarrow> v = VStr s"
  by (cases v) (auto simp: str_of_def)

text \<open>Well-formed values: no object holds a key twice, as in JavaScript.\<close>

fun wf_val :: "jsval \<Rightarrow> bool" where
  "wf_val (VArr xs) = (\<forall>x \<in> set xs. wf_val x)"
| "wf_val (VObj fs) = (distinct (map fst fs) \<and> (\<forall>x \<in> snd ` set fs. wf_val x))"
| "wf_val _ = True"

text \<open>The size of a value: the number of its nodes.\<close>

fun nodes :: "jsval \<Rightarrow> nat" where
  "nodes (VArr xs) = Suc (sum_list (map nodes xs))"
| "nodes (VObj fs) = Suc (sum_list (map (\<lambda>f. nodes (snd f)) fs))"
| "nodes _ = 1"

fun depth :: "jsval \<Rightarrow> nat" where
  "depth (VArr xs) = Suc (foldr (\<lambda>x m. max (depth x) m) xs 0)"
| "depth (VObj fs) = Suc (foldr (\<lambda>f m. max (depth (snd f)) m) fs 0)"
| "depth _ = 0"

lemma nodes_pos [simp]: "0 < nodes v"
  by (cases v) auto

end
