(* ===== verification/Approval_Grants.thy ===== *)
theory Approval_Grants
  imports Json
begin

text \<open>
  \<open>ApprovalGrantStore\<close> (\<open>packages/kernel/src/approval-grants.ts\<close>): remembered approvals,
  per session in memory and "always" grants in the persistent store. \<open>#ensureLoaded\<close> awaits the
  store, so it is modelled as two steps, \<open>ensure_loaded_start\<close> up to the await and
  \<open>ensure_loaded_finish\<close> after it; other calls may run between the two.
\<close>

section \<open>Keys\<close>

definition uri_unreserved :: "char \<Rightarrow> bool" where
  "uri_unreserved c = (is_digit_c c \<or> is_lower_c c \<or> is_upper_c c \<or> c \<in> set ''-_.!~*()'' \<or> c = CHR 0x27)"

definition hex_digit :: "nat \<Rightarrow> char" where
  "hex_digit n = ''0123456789ABCDEF'' ! n"

definition pct :: "nat \<Rightarrow> string" where
  "pct b = [CHR ''%'', hex_digit (b div 16), hex_digit (b mod 16)]"

text \<open>\<open>encodeURIComponent\<close> on code units below 256: UTF-8, each byte percent-encoded.\<close>

definition uri_char :: "char \<Rightarrow> string" where
  "uri_char c =
     (let n = of_char c :: nat in
      if uri_unreserved c then [c]
      else if n < 128 then pct n
      else pct (192 + n div 64) @ pct (128 + n mod 64))"

definition encode_uri_component :: "string \<Rightarrow> string" where
  "encode_uri_component s = concat (map uri_char s)"

record approval_grant_key =
  g_plugin :: string
  g_feature :: string
  g_grant :: string
  g_session :: "string option"

definition ALWAYS_PREFIX :: string where
  "ALWAYS_PREFIX = ''always/''"

definition always_key :: "approval_grant_key \<Rightarrow> string" where
  "always_key g =
     ALWAYS_PREFIX @ encode_uri_component (g_plugin g) @ ''/'' @
     encode_uri_component (g_feature g) @ ''/'' @ encode_uri_component (g_grant g)"

definition session_key :: "approval_grant_key \<Rightarrow> string option" where
  "session_key g =
     (case g_session g of
        None \<Rightarrow> None
      | Some sid \<Rightarrow>
          if sid = [] then None
          else Some (''session:'' @ sid @ '':'' @ g_plugin g @ '':'' @ g_feature g @ '':'' @ g_grant g))"

section \<open>The stored document\<close>

text \<open>\<open>alwaysGrantSchema\<close>: a strict object of three non-empty strings.\<close>

definition parse_always_grant :: "jsval \<Rightarrow> approval_grant_key option" where
  "parse_always_grant v =
     (if is_plain_object v \<and> set (map fst (obj_fields v)) \<subseteq> {''pluginId'', ''feature'', ''grantId''}
      then (case (getp v ''pluginId'', getp v ''feature'', getp v ''grantId'') of
              (VStr p, VStr f, VStr g) \<Rightarrow>
                if p \<noteq> [] \<and> f \<noteq> [] \<and> g \<noteq> []
                then Some \<lparr>g_plugin = p, g_feature = f, g_grant = g, g_session = None\<rparr>
                else None
            | _ \<Rightarrow> None)
      else None)"

definition always_grant_value :: "approval_grant_key \<Rightarrow> jsval" where
  "always_grant_value g =
     VObj [(''pluginId'', VStr (g_plugin g)), (''feature'', VStr (g_feature g)),
           (''grantId'', VStr (g_grant g))]"

section \<open>The store object\<close>

datatype approval_duration = Once | Session | Always

datatype grant_error = GrantSchemaRejected

text \<open>
  \<open>gs_store\<close> is the namespace \<open>kernel.approval-grants\<close> of the persistent store, \<open>None\<close>
  when the service was built without one.
\<close>

record grant_store =
  gs_session :: "string set"
  gs_always :: "string set"
  gs_store :: "(string, jsval) jmap option"
  gs_loaded :: bool

definition new_grant_store :: "(string, jsval) jmap option \<Rightarrow> grant_store" where
  "new_grant_store st = \<lparr>gs_session = {}, gs_always = {}, gs_store = st, gs_loaded = False\<rparr>"

definition store_list :: "string \<Rightarrow> (string, jsval) jmap \<Rightarrow> (string \<times> jsval) list" where
  "store_list prefix st = filter (\<lambda>(k, v). js_starts_with prefix k) st"

text \<open>The part of \<open>#ensureLoaded\<close> before its await; true when the caller then awaits the listing.\<close>

definition ensure_loaded_start :: "grant_store \<Rightarrow> bool \<times> grant_store" where
  "ensure_loaded_start s =
     (if gs_loaded s then (False, s)
      else (gs_store s \<noteq> None, s\<lparr>gs_loaded := True\<rparr>))"

fun add_entries :: "(string \<times> jsval) list \<Rightarrow> string set \<Rightarrow> string set" where
  "add_entries [] acc = acc"
| "add_entries ((k, v) # es) acc =
     (case parse_always_grant v of
        None \<Rightarrow> add_entries es acc
      | Some g \<Rightarrow> add_entries es (insert (always_key g) acc))"

text \<open>The part after the await, with the entries the store listed.\<close>

definition ensure_loaded_finish :: "(string \<times> jsval) list \<Rightarrow> grant_store \<Rightarrow> grant_store" where
  "ensure_loaded_finish entries s = s\<lparr>gs_always := add_entries entries (gs_always s)\<rparr>"

definition ensure_loaded :: "grant_store \<Rightarrow> grant_store" where
  "ensure_loaded s =
     (case ensure_loaded_start s of
        (False, s') \<Rightarrow> s'
      | (True, s') \<Rightarrow>
          (case gs_store s' of
             None \<Rightarrow> s'
           | Some st \<Rightarrow> ensure_loaded_finish (store_list ALWAYS_PREFIX st) s'))"

text \<open>The answer of \<open>has\<close> once its own \<open>#ensureLoaded\<close> has returned.\<close>

definition has_now :: "approval_grant_key \<Rightarrow> grant_store \<Rightarrow> bool" where
  "has_now g s =
     (always_key g \<in> gs_always s \<or>
      (case session_key g of None \<Rightarrow> False | Some k \<Rightarrow> k \<in> gs_session s))"

definition has :: "approval_grant_key \<Rightarrow> grant_store \<Rightarrow> bool \<times> grant_store" where
  "has g s = (let s' = ensure_loaded s in (has_now g s', s'))"

text \<open>
  What \<open>remember\<close> does after its \<open>#ensureLoaded\<close>. The "always" set is extended before the
  document is parsed, so a rejected document leaves the grant in memory.
\<close>

definition remember_now :: "approval_grant_key \<Rightarrow> approval_duration \<Rightarrow> grant_store \<Rightarrow> grant_error option \<times> grant_store" where
  "remember_now g d s =
     (case d of
        Once \<Rightarrow> (None, s)
      | Session \<Rightarrow>
          (case session_key g of
             None \<Rightarrow> (None, s)
           | Some k \<Rightarrow> (None, s\<lparr>gs_session := insert k (gs_session s)\<rparr>))
      | Always \<Rightarrow>
          let key = always_key g;
              s1 = s\<lparr>gs_always := insert key (gs_always s)\<rparr> in
          (case gs_store s1 of
             None \<Rightarrow> (None, s1)
           | Some st \<Rightarrow>
               (case parse_always_grant (always_grant_value g) of
                  None \<Rightarrow> (Some GrantSchemaRejected, s1)
                | Some p \<Rightarrow> (None, s1\<lparr>gs_store := Some (jset key (always_grant_value p) st)\<rparr>))))"

definition remember :: "approval_grant_key \<Rightarrow> approval_duration \<Rightarrow> grant_store \<Rightarrow> grant_error option \<times> grant_store" where
  "remember g d s = (if d = Once then (None, s) else remember_now g d (ensure_loaded s))"

section \<open>The encoding is injective\<close>

lemma hex_digit_inj: "a < 16 \<Longrightarrow> b < 16 \<Longrightarrow> hex_digit a = hex_digit b \<longleftrightarrow> a = b"
  unfolding hex_digit_def by (rule nth_eq_iff_index_eq) (auto simp: distinct_def)

lemma pct_inj: "a < 256 \<Longrightarrow> b < 256 \<Longrightarrow> pct a = pct b \<longleftrightarrow> a = b"
proof -
  assume "a < 256" and "b < 256"
  then have "a div 16 < 16" "b div 16 < 16" by auto
  then have "pct a = pct b \<longleftrightarrow> a div 16 = b div 16 \<and> a mod 16 = b mod 16"
    by (simp add: pct_def hex_digit_inj)
  then show ?thesis by (metis div_mult_mod_eq)
qed

lemma length_pct [simp]: "length (pct b) = 3"
  by (simp add: pct_def)

lemma hd_pct [simp]: "hd (pct b @ xs) = CHR ''%''"
  by (simp add: pct_def)

lemma percent_reserved [simp]: "\<not> uri_unreserved (CHR ''%'')"
  by (simp add: uri_unreserved_def is_digit_c_def is_lower_c_def is_upper_c_def)

lemma slash_reserved [simp]: "\<not> uri_unreserved (CHR ''/'')"
  by (simp add: uri_unreserved_def is_digit_c_def is_lower_c_def is_upper_c_def)

lemma of_char_div_64 [simp]: "of_char c div 64 < (4 :: nat)"
  by (rule less_mult_imp_div_less) simp

lemma utf8_lead_bound: "192 + of_char c div 64 < (256 :: nat)"
  using of_char_div_64 [of c] by linarith

lemma of_char_inj: "(of_char c :: nat) = of_char d \<longleftrightarrow> c = d"
  by (rule of_char_eq_iff)

lemma uri_char_cancel:
  assumes "uri_char c @ xs = uri_char d @ ys"
  shows "c = d \<and> xs = ys"
proof -
  let ?c = "of_char c :: nat" and ?d = "of_char d :: nat"
  let ?q = "\<lambda>n. if n < 128 then n else 192 + n div 64"
  have lead: "?q (of_char x) < (256 :: nat)" for x
    by (simp add: utf8_lead_bound)
  have hd_c: "\<not> uri_unreserved c \<Longrightarrow> hd (uri_char c @ xs) = CHR ''%''"
    by (simp add: uri_char_def Let_def)
  have hd_d: "\<not> uri_unreserved d \<Longrightarrow> hd (uri_char d @ ys) = CHR ''%''"
    by (simp add: uri_char_def Let_def)
  consider "uri_unreserved c" "uri_unreserved d" | "uri_unreserved c" "\<not> uri_unreserved d"
    | "\<not> uri_unreserved c" "uri_unreserved d" | "\<not> uri_unreserved c" "\<not> uri_unreserved d"
    by blast
  then show ?thesis
  proof cases
    case 1 with assms show ?thesis by (simp add: uri_char_def)
  next
    case 2
    then have "hd (uri_char c @ xs) = c" by (simp add: uri_char_def)
    with 2 hd_d assms have "c = CHR ''%''" by simp
    with 2 show ?thesis by simp
  next
    case 3
    then have "hd (uri_char d @ ys) = d" by (simp add: uri_char_def)
    with 3 hd_c assms have "d = CHR ''%''" by simp
    with 3 show ?thesis by simp
  next
    case 4
    have t: "take 3 (uri_char c @ xs) = pct (?q ?c)" "take 3 (uri_char d @ ys) = pct (?q ?d)"
      using 4 by (simp_all add: uri_char_def Let_def)
    have "pct (?q ?c) = pct (?q ?d)" using t assms by simp
    then have e: "?q ?c = ?q ?d" by (simp only: pct_inj [OF lead lead])
    show ?thesis
    proof (cases "?c < 128")
      case True
      with e have "?c = ?d" by (simp split: if_splits)
      then have "c = d" by (simp add: of_char_inj)
      with assms show ?thesis by simp
    next
      case False
      with e have nd: "\<not> ?d < 128" and hi: "?c div 64 = ?d div 64" by (simp_all split: if_splits)
      have "pct (128 + ?c mod 64) @ xs = pct (128 + ?d mod 64) @ ys"
        using assms 4 False nd hi by (simp add: uri_char_def Let_def)
      then have "pct (128 + ?c mod 64) = pct (128 + ?d mod 64)" by simp
      then have "?c mod 64 = ?d mod 64" by (simp add: pct_inj)
      with hi have "?c = ?d" by (metis div_mult_mod_eq)
      then have "c = d" by (simp add: of_char_inj)
      with assms show ?thesis by simp
    qed
  qed
qed

lemma uri_char_nonempty [simp]: "uri_char c \<noteq> []"
  by (simp add: uri_char_def Let_def pct_def)

lemma encode_inj: "encode_uri_component a = encode_uri_component b \<longleftrightarrow> a = b"
proof
  show "encode_uri_component a = encode_uri_component b \<Longrightarrow> a = b"
  proof (induction a arbitrary: b)
    case Nil
    then show ?case by (cases b) (auto simp: encode_uri_component_def)
  next
    case (Cons c cs)
    then obtain d ds where b: "b = d # ds" by (cases b) (auto simp: encode_uri_component_def)
    with Cons.prems have "c = d \<and> encode_uri_component cs = encode_uri_component ds"
      unfolding encode_uri_component_def by (intro uri_char_cancel) simp
    with Cons.IH b show ?case by simp
  qed
qed simp

lemma slash_hex: "n < 16 \<Longrightarrow> hex_digit n \<noteq> CHR ''/''"
proof -
  assume "n < 16"
  then have "hex_digit n \<in> set ''0123456789ABCDEF''" unfolding hex_digit_def by (intro nth_mem) simp
  then show ?thesis by auto
qed

lemma slash_pct: "b < 256 \<Longrightarrow> CHR ''/'' \<notin> set (pct b)"
proof -
  assume "b < 256"
  then have "b div 16 < 16" "b mod 16 < 16" by auto
  then have "hex_digit (b div 16) \<noteq> CHR ''/''" "hex_digit (b mod 16) \<noteq> CHR ''/''"
    by (simp_all add: slash_hex)
  then show ?thesis by (auto simp: pct_def)
qed

lemma slash_encode: "CHR ''/'' \<notin> set (encode_uri_component s)"
proof -
  have "CHR ''/'' \<notin> set (uri_char c)" for c
  proof -
    have "128 + of_char c mod 64 < (256 :: nat)" by simp
    with utf8_lead_bound [of c] show ?thesis
      using slash_reserved by (auto simp: uri_char_def Let_def slash_pct)
  qed
  then show ?thesis by (auto simp: encode_uri_component_def)
qed

lemma always_key_inj:
  "always_key g = always_key h \<longleftrightarrow>
     g_plugin g = g_plugin h \<and> g_feature g = g_feature h \<and> g_grant g = g_grant h"
proof
  assume eq: "always_key g = always_key h"
  let ?w = "\<lambda>k. [encode_uri_component (g_plugin k), encode_uri_component (g_feature k),
                  encode_uri_component (g_grant k)]"
  have k: "always_key k = ALWAYS_PREFIX @ js_join ''/'' (?w k)" for k
    by (simp add: always_key_def)
  have s: "js_split (CHR ''/'') (js_join ''/'' (?w k)) = ?w k" for k
    by (rule js_split_join) (auto simp: slash_encode)
  from eq have "?w g = ?w h" by (metis k s same_append_eq)
  then show "g_plugin g = g_plugin h \<and> g_feature g = g_feature h \<and> g_grant g = g_grant h"
    by (simp add: encode_inj)
qed (simp add: always_key_def)

section \<open>What a store remembers\<close>

lemma add_entries_iff:
  "k \<in> add_entries es acc \<longleftrightarrow>
     k \<in> acc \<or> (\<exists>p \<in> set es. \<exists>h. parse_always_grant (snd p) = Some h \<and> k = always_key h)"
  by (induction es acc rule: add_entries.induct) (auto split: option.splits)

lemma always_key_prefix [simp]: "js_starts_with ALWAYS_PREFIX (always_key g)"
  by (simp add: always_key_def)

lemma parse_always_grant_value:
  "parse_always_grant (always_grant_value g) =
     (if g_plugin g \<noteq> [] \<and> g_feature g \<noteq> [] \<and> g_grant g \<noteq> []
      then Some (g\<lparr>g_session := None\<rparr>) else None)"
  by (simp add: parse_always_grant_def always_grant_value_def is_plain_object_def obj_fields_def getp_def)

text \<open>Every document of the namespace is stored under the key of the grant it holds.\<close>

definition grants_consistent :: "(string, jsval) jmap \<Rightarrow> bool" where
  "grants_consistent st \<longleftrightarrow> jkeys_distinct st \<and>
     (\<forall>k v h. jget st k = Some v \<longrightarrow> parse_always_grant v = Some h \<longrightarrow> k = always_key h)"

definition persisted :: "(string, jsval) jmap \<Rightarrow> approval_grant_key \<Rightarrow> bool" where
  "persisted st g \<longleftrightarrow>
     (\<exists>v. jget st (always_key g) = Some v \<and> parse_always_grant v \<noteq> None)"

lemma loaded_keys:
  assumes "grants_consistent st"
  shows "k \<in> add_entries (store_list ALWAYS_PREFIX st) {} \<longleftrightarrow>
     (\<exists>g. k = always_key g \<and> persisted st g)"
proof -
  have "k \<in> add_entries (store_list ALWAYS_PREFIX st) {} \<longleftrightarrow>
      (\<exists>k' v h. js_starts_with ALWAYS_PREFIX k' \<and> jget st k' = Some v \<and>
         parse_always_grant v = Some h \<and> k = always_key h)"
  proof -
    have "(k', v) \<in> set st \<longleftrightarrow> jget st k' = Some v" for k' v
      using assms by (simp add: grants_consistent_def map_of_eq_Some_iff)
    then show ?thesis by (auto simp: add_entries_iff store_list_def)
  qed
  also have "\<dots> \<longleftrightarrow> (\<exists>g. k = always_key g \<and> persisted st g)"
  proof
    assume "\<exists>k' v h. js_starts_with ALWAYS_PREFIX k' \<and> jget st k' = Some v \<and>
         parse_always_grant v = Some h \<and> k = always_key h"
    then obtain k' v h where *: "jget st k' = Some v" "parse_always_grant v = Some h" "k = always_key h"
      by blast
    moreover have "k' = always_key h" using assms * by (auto simp: grants_consistent_def)
    ultimately show "\<exists>g. k = always_key g \<and> persisted st g" by (auto simp: persisted_def)
  next
    assume "\<exists>g. k = always_key g \<and> persisted st g"
    then obtain g v h where k: "k = always_key g" and v: "jget st (always_key g) = Some v"
      and p: "parse_always_grant v = Some h" by (auto simp: persisted_def)
    with assms have "always_key g = always_key h" by (auto simp: grants_consistent_def)
    with k v p show "\<exists>k' v h. js_starts_with ALWAYS_PREFIX k' \<and> jget st k' = Some v \<and>
         parse_always_grant v = Some h \<and> k = always_key h"
      using always_key_prefix by blast
  qed
  finally show ?thesis .
qed

lemma has_after_restart:
  assumes "grants_consistent st"
  shows "fst (has g (new_grant_store (Some st))) = persisted st g"
proof -
  have e: "(\<exists>h. always_key g = always_key h \<and> persisted st h) = persisted st g"
    by (metis persisted_def)
  show ?thesis
    by (simp add: has_def Let_def ensure_loaded_def ensure_loaded_start_def new_grant_store_def
        ensure_loaded_finish_def has_now_def loaded_keys [OF assms] e split: option.split)
qed

lemma grants_consistent_jset:
  "grants_consistent st \<Longrightarrow> grants_consistent (jset (always_key g) (always_grant_value g) st)"
  by (auto simp: grants_consistent_def parse_always_grant_value always_key_inj split: if_splits)

definition grant_wf :: "approval_grant_key \<Rightarrow> bool" where
  "grant_wf g \<longleftrightarrow> g_plugin g \<noteq> [] \<and> g_feature g \<noteq> [] \<and> g_grant g \<noteq> []"

lemma gs_store_ensure_loaded [simp]: "gs_store (ensure_loaded s) = gs_store s"
  by (auto simp: ensure_loaded_def ensure_loaded_start_def ensure_loaded_finish_def split: option.splits)

lemma gs_loaded_ensure_loaded [simp]: "gs_loaded (ensure_loaded s)"
  by (auto simp: ensure_loaded_def ensure_loaded_start_def ensure_loaded_finish_def split: option.splits)

lemma always_grant_value_no_session [simp]:
  "always_grant_value (g\<lparr>g_session := None\<rparr>) = always_grant_value g"
  by (simp add: always_grant_value_def)

lemma remember_always_store:
  assumes "grant_wf g" and "gs_store s = Some st"
  shows "gs_store (snd (remember g Always s)) = Some (jset (always_key g) (always_grant_value g) st)"
  using assms
  by (simp add: remember_def remember_now_def grant_wf_def parse_always_grant_value Let_def)

section \<open>The contract the authorizer relies on\<close>

text \<open>
  A memory of approvals: what it grants only grows, remembering once changes nothing, and it grants
  nothing that was not remembered for the same plugin, feature and grant.
\<close>

locale approval_memory =
  fixes granted :: "'s \<Rightarrow> approval_grant_key \<Rightarrow> bool"
    and remembered :: "approval_grant_key \<Rightarrow> approval_duration \<Rightarrow> 's \<Rightarrow> 's"
    and ready :: "'s \<Rightarrow> bool"
    and same_scope :: "approval_grant_key \<Rightarrow> approval_grant_key \<Rightarrow> bool"
  assumes once_forgets: "ready s \<Longrightarrow> granted (remembered g Once s) h = granted s h"
    and grants_grow: "ready s \<Longrightarrow> granted s h \<Longrightarrow> granted (remembered g d s) h"
    and grants_sound: "ready s \<Longrightarrow> granted (remembered g d s) h \<Longrightarrow> granted s h \<or> same_scope g h"
    and always_grants: "ready s \<Longrightarrow> granted (remembered g Always s) g"
    and ready_kept: "ready s \<Longrightarrow> ready (remembered g d s)"
begin

lemma fold_grants_grow:
  "ready s \<Longrightarrow> granted s h \<Longrightarrow> granted (fold (\<lambda>(g, d). remembered g d) gds s) h"
  by (induction gds arbitrary: s) (auto simp: grants_grow ready_kept)

lemma fold_ready: "ready s \<Longrightarrow> ready (fold (\<lambda>(g, d). remembered g d) gds s)"
  by (induction gds arbitrary: s) (auto simp: ready_kept)

text \<open>Every grant a history of approvals leaves was given before or comes from one of its approvals.\<close>

lemma fold_grants_sound:
  assumes "ready s" and "granted (fold (\<lambda>(g, d). remembered g d) gds s) h"
  shows "granted s h \<or> (\<exists>(g, d) \<in> set gds. d \<noteq> Once \<and> same_scope g h)"
  using assms
proof (induction gds arbitrary: s)
  case (Cons p gds)
  obtain g d where p: "p = (g, d)" by (cases p)
  have "granted (remembered g d s) h \<or> (\<exists>(g, d) \<in> set gds. d \<noteq> Once \<and> same_scope g h)"
    using Cons p by (simp add: ready_kept)
  moreover have "granted (remembered g d s) h \<Longrightarrow> granted s h \<or> d \<noteq> Once \<and> same_scope g h"
    using Cons.prems(1) grants_sound once_forgets by (cases "d = Once") auto
  ultimately show ?case using p by auto
qed simp

end

text \<open>
  Two keys have the same scope when they name the same plugin, feature and grant, or when their
  session keys are one string.
\<close>

definition grant_scope :: "approval_grant_key \<Rightarrow> approval_grant_key \<Rightarrow> bool" where
  "grant_scope g h \<longleftrightarrow>
     (g_plugin g = g_plugin h \<and> g_feature g = g_feature h \<and> g_grant g = g_grant h) \<or>
     (session_key g \<noteq> None \<and> session_key g = session_key h)"

interpretation grants: approval_memory "\<lambda>s g. has_now g s" "\<lambda>g d s. snd (remember g d s)"
  gs_loaded grant_scope
proof (unfold_locales, goal_cases)
  case (1 s g h) then show ?case by (simp add: remember_def)
next
  case (2 s h g d) then show ?case
    by (cases d) (auto simp: remember_def remember_now_def has_now_def ensure_loaded_def
        ensure_loaded_start_def Let_def split: option.splits)
next
  case (3 s g d h) then show ?case
    by (cases d) (auto simp: remember_def remember_now_def has_now_def ensure_loaded_def
        ensure_loaded_start_def Let_def always_key_inj grant_scope_def split: option.splits)
next
  case (4 s g) then show ?case
    by (auto simp: remember_def remember_now_def has_now_def ensure_loaded_def
        ensure_loaded_start_def Let_def split: option.splits)
next
  case (5 s g d) then show ?case
    by (cases d) (auto simp: remember_def remember_now_def ensure_loaded_def
        ensure_loaded_start_def Let_def split: option.splits)
qed

section \<open>Properties\<close>

text \<open>
  C6: an "always" approval survives a restart, for exactly the plugin, feature and grant it was
  given for: after it is remembered, a fresh store over the persisted data grants a key iff it
  granted it before or the key names the same three parts.
\<close>

theorem always_grant_roundtrip:
  assumes "grants_consistent st" and "grant_wf g"
    and "gs_store (snd (remember g Always (new_grant_store (Some st)))) = Some st'"
  shows "fst (has h (new_grant_store (Some st'))) \<longleftrightarrow>
     fst (has h (new_grant_store (Some st))) \<or>
     (g_plugin h = g_plugin g \<and> g_feature h = g_feature g \<and> g_grant h = g_grant g)"
proof -
  have "st' = jset (always_key g) (always_grant_value g) st"
    using assms remember_always_store [of g "new_grant_store (Some st)" st]
    by (simp add: new_grant_store_def)
  then show ?thesis using assms
    by (auto simp: has_after_restart grants_consistent_jset persisted_def always_key_inj
        parse_always_grant_value grant_wf_def)
qed

definition demo_grant :: approval_grant_key where
  "demo_grant = \<lparr>g_plugin = ''borg.chat'', g_feature = ''tool'', g_grant = ''fs/read'', g_session = Some ''s1''\<rparr>"

theorem always_grant_roundtrip_witness:
  "fst (has demo_grant (new_grant_store
      (Some [(''always/borg.chat/tool/fs%2Fread'', always_grant_value demo_grant)])))"
proof -
  have a: "grants_consistent []" by (simp add: grants_consistent_def)
  have b: "grant_wf demo_grant" by (simp add: grant_wf_def demo_grant_def)
  have c: "gs_store (snd (remember demo_grant Always (new_grant_store (Some [])))) =
      Some [(''always/borg.chat/tool/fs%2Fread'', always_grant_value demo_grant)]"
    by code_simp
  show ?thesis using always_grant_roundtrip [OF a b c, of demo_grant] by simp
qed

text \<open>
  C7: while the first caller awaits the store listing, the store already counts as loaded, so a
  second caller is told that a persisted grant does not exist, although a store whose load had
  finished would say it does.
\<close>

theorem concurrent_load_misses_grant:
  assumes "grants_consistent st" and "persisted st g"
  shows "let (awaiting, s1) = ensure_loaded_start (new_grant_store (Some st)) in
     awaiting \<and> \<not> fst (has g s1) \<and> fst (has g (new_grant_store (Some st)))"
proof -
  have "fst (has g (new_grant_store (Some st)))" using assms by (simp add: has_after_restart)
  moreover have "\<not> fst (has g (snd (ensure_loaded_start (new_grant_store (Some st)))))"
    by (simp add: has_def Let_def ensure_loaded_def ensure_loaded_start_def new_grant_store_def
        has_now_def split: option.split)
  moreover have "fst (ensure_loaded_start (new_grant_store (Some st)))"
    by (simp add: ensure_loaded_start_def new_grant_store_def)
  ultimately show ?thesis by (simp add: split_def)
qed

theorem concurrent_load_misses_grant_witness:
  "\<not> fst (has demo_grant (snd (ensure_loaded_start (new_grant_store
      (Some [(''always/borg.chat/tool/fs%2Fread'', always_grant_value demo_grant)])))))"
proof -
  let ?st = "[(''always/borg.chat/tool/fs%2Fread'', always_grant_value demo_grant)]"
  have k: "always_key demo_grant = ''always/borg.chat/tool/fs%2Fread''" by code_simp
  have a: "grants_consistent ?st"
    using grants_consistent_jset [of "[]" demo_grant] k by (simp add: grants_consistent_def)
  have b: "persisted ?st demo_grant"
    by (simp add: persisted_def k parse_always_grant_value) (simp add: demo_grant_def)
  show ?thesis using concurrent_load_misses_grant [OF a b] by (simp add: Let_def split_def)
qed

text \<open>
  The string under which a session grant is kept identifies session, plugin, feature and grant,
  provided none of the first three contains the separator; with a separator in a feature, two
  different grants can share one string.
\<close>

theorem session_key_injective:
  assumes "session_key g = Some k" and "session_key h = Some k"
    and "list_all (\<lambda>x. CHR '':'' \<notin> set x) [g_plugin g, g_feature g, g_plugin h, g_feature h]"
    and "g_session g = Some sg" and "g_session h = Some sh" and "CHR '':'' \<notin> set sg \<union> set sh"
  shows "g = h"
proof -
  have kg: "k = ''session:'' @ sg @ CHR '':'' # g_plugin g @ CHR '':'' # g_feature g @ CHR '':'' # g_grant g"
    using assms(1,4) by (simp add: session_key_def split: if_splits)
  have kh: "k = ''session:'' @ sh @ CHR '':'' # g_plugin h @ CHR '':'' # g_feature h @ CHR '':'' # g_grant h"
    using assms(2,5) by (simp add: session_key_def split: if_splits)
  have "sg = sh \<and> g_plugin g = g_plugin h \<and> g_feature g = g_feature h \<and> g_grant g = g_grant h"
    using trans [OF kg [symmetric] kh] assms(3,6) by (simp add: sep_cancel)
  with assms(4,5) show ?thesis by (cases g; cases h) simp
qed

theorem session_key_injective_witness:
  "session_key demo_grant = Some ''session:s1:borg.chat:tool:fs/read'' \<and>
   demo_grant = \<lparr>g_plugin = ''borg.chat'', g_feature = ''tool'', g_grant = ''fs/read'', g_session = Some ''s1''\<rparr>"
proof
  show k: "session_key demo_grant = Some ''session:s1:borg.chat:tool:fs/read''"
    by (simp add: session_key_def demo_grant_def)
  show "demo_grant =
      \<lparr>g_plugin = ''borg.chat'', g_feature = ''tool'', g_grant = ''fs/read'', g_session = Some ''s1''\<rparr>"
    by (rule session_key_injective [OF k, of _ "''s1''" "''s1''"])
      (simp_all add: session_key_def demo_grant_def)
qed

lemma session_keys_can_collide:
  "session_key \<lparr>g_plugin = p, g_feature = f @ '':'' @ x, g_grant = g, g_session = Some s\<rparr> =
   session_key \<lparr>g_plugin = p, g_feature = f, g_grant = x @ '':'' @ g, g_session = Some s\<rparr>"
  by (simp add: session_key_def)

end
