(* ===== verification/Regex.thy ===== *)
theory Regex
  imports Prelude
begin

text \<open>
  Anchored regular expressions. The source validates identifiers with anchored patterns; each is
  a term of \<open>rx\<close> here, and \<open>rx_match\<close> decides it by derivatives. \<open>rx_match_correct\<close>
  shows that the decision is membership in the language the pattern denotes.
\<close>

datatype rx = RZero | ROne | RCls "char \<Rightarrow> bool" | RSeq rx rx | RAlt rx rx | RStar rx

inductive in_rx :: "rx \<Rightarrow> string \<Rightarrow> bool" where
  in_one: "in_rx ROne []"
| in_cls: "p c \<Longrightarrow> in_rx (RCls p) [c]"
| in_seq: "in_rx r s \<Longrightarrow> in_rx q t \<Longrightarrow> in_rx (RSeq r q) (s @ t)"
| in_altL: "in_rx r s \<Longrightarrow> in_rx (RAlt r q) s"
| in_altR: "in_rx q s \<Longrightarrow> in_rx (RAlt r q) s"
| in_star_nil: "in_rx (RStar r) []"
| in_star: "in_rx r s \<Longrightarrow> in_rx (RStar r) t \<Longrightarrow> in_rx (RStar r) (s @ t)"

inductive_simps in_rx_simps [simp]:
  "in_rx RZero s" "in_rx ROne s" "in_rx (RCls p) s" "in_rx (RAlt r q) s"

inductive_cases in_seqE: "in_rx (RSeq r q) s"
inductive_cases in_starE: "in_rx (RStar r) s"

fun nullable :: "rx \<Rightarrow> bool" where
  "nullable RZero = False"
| "nullable ROne = True"
| "nullable (RCls p) = False"
| "nullable (RSeq r q) = (nullable r \<and> nullable q)"
| "nullable (RAlt r q) = (nullable r \<or> nullable q)"
| "nullable (RStar r) = True"

text \<open>Constructors that keep derivatives small.\<close>

fun mk_seq :: "rx \<Rightarrow> rx \<Rightarrow> rx" where
  "mk_seq RZero q = RZero"
| "mk_seq ROne q = q"
| "mk_seq r q = RSeq r q"

fun mk_alt :: "rx \<Rightarrow> rx \<Rightarrow> rx" where
  "mk_alt RZero q = q"
| "mk_alt r RZero = r"
| "mk_alt r q = RAlt r q"

fun deriv :: "char \<Rightarrow> rx \<Rightarrow> rx" where
  "deriv c RZero = RZero"
| "deriv c ROne = RZero"
| "deriv c (RCls p) = (if p c then ROne else RZero)"
| "deriv c (RSeq r q) =
     (if nullable r then mk_alt (mk_seq (deriv c r) q) (deriv c q) else mk_seq (deriv c r) q)"
| "deriv c (RAlt r q) = mk_alt (deriv c r) (deriv c q)"
| "deriv c (RStar r) = mk_seq (deriv c r) (RStar r)"

fun rx_match :: "rx \<Rightarrow> string \<Rightarrow> bool" where
  "rx_match r [] = nullable r"
| "rx_match r (c # cs) = rx_match (deriv c r) cs"

lemma in_seq_iff: "in_rx (RSeq r q) s \<longleftrightarrow> (\<exists>a b. s = a @ b \<and> in_rx r a \<and> in_rx q b)"
  by (blast elim: in_seqE intro: in_rx.in_seq)

lemma in_mk_seq [simp]: "in_rx (mk_seq r q) s \<longleftrightarrow> in_rx (RSeq r q) s"
  by (induction r q rule: mk_seq.induct) (simp_all add: in_seq_iff)

lemma in_mk_alt [simp]: "in_rx (mk_alt r q) s \<longleftrightarrow> in_rx r s \<or> in_rx q s"
  by (induction r q rule: mk_alt.induct) auto

lemma nullable_iff: "nullable r \<longleftrightarrow> in_rx r []"
  by (induction r) (auto simp: in_seq_iff intro: in_rx.intros)

lemma star_cons_step:
  "in_rx (RStar r) w \<Longrightarrow> w = c # s \<Longrightarrow> \<exists>a b. s = a @ b \<and> in_rx r (c # a) \<and> in_rx (RStar r) b"
proof (induction "RStar r" w arbitrary: s rule: in_rx.induct)
  case (in_star u v)
  then show ?case by (cases u) (auto simp: Cons_eq_append_conv)
qed simp_all

lemma in_star_cons:
  "in_rx (RStar r) (c # s) \<longleftrightarrow> (\<exists>a b. s = a @ b \<and> in_rx r (c # a) \<and> in_rx (RStar r) b)"
  using star_cons_step in_rx.in_star [of r "c # _"] by (metis append_Cons)

lemma deriv_correct: "in_rx (deriv c r) s \<longleftrightarrow> in_rx r (c # s)"
proof (induction r arbitrary: s)
  case (RSeq r q)
  have split: "in_rx (RSeq r q) (c # s) \<longleftrightarrow>
      in_rx r [] \<and> in_rx q (c # s) \<or> (\<exists>a b. s = a @ b \<and> in_rx r (c # a) \<and> in_rx q b)"
    by (auto simp: in_seq_iff Cons_eq_append_conv)
  show ?case
  proof (cases "nullable r")
    case True
    then have "in_rx r []" by (simp add: nullable_iff)
    with True show ?thesis unfolding split by (auto simp: RSeq.IH in_seq_iff)
  next
    case False
    then have "\<not> in_rx r []" by (simp add: nullable_iff)
    with False show ?thesis unfolding split by (auto simp: RSeq.IH in_seq_iff)
  qed
next
  case (RStar r)
  then show ?case by (simp add: in_seq_iff in_star_cons)
qed simp_all

theorem rx_match_correct: "rx_match r s \<longleftrightarrow> in_rx r s"
  by (induction r s rule: rx_match.induct) (simp_all add: nullable_iff deriv_correct)

section \<open>Derived forms\<close>

definition rplus :: "rx \<Rightarrow> rx" where
  "rplus r = RSeq r (RStar r)"

definition ropt :: "rx \<Rightarrow> rx" where
  "ropt r = RAlt ROne r"

text \<open>A class given by the characters it lists.\<close>

definition rset :: "string \<Rightarrow> rx" where
  "rset cs = RCls (\<lambda>c. List.member cs c)"

definition lower_or_digit :: "char \<Rightarrow> bool" where
  "lower_or_digit c = (is_lower_c c \<or> is_digit_c c)"

definition lower_digit_dash :: "char \<Rightarrow> bool" where
  "lower_digit_dash c = (lower_or_digit c \<or> c = CHR ''-'')"

text \<open>The segment shape shared by the kernel's identifiers: \<open>[a-z0-9]+([.-][a-z0-9-]+)*\<close>.\<close>

definition ident_head :: rx where
  "ident_head = rplus (RCls lower_or_digit)"

definition ident_tail :: rx where
  "ident_tail = RSeq (rset ''.-'') (rplus (RCls lower_digit_dash))"

text \<open>A match uses only characters the classes of the pattern allow.\<close>

fun rx_chars :: "rx \<Rightarrow> char \<Rightarrow> bool" where
  "rx_chars RZero c = False"
| "rx_chars ROne c = False"
| "rx_chars (RCls p) c = p c"
| "rx_chars (RSeq r q) c = (rx_chars r c \<or> rx_chars q c)"
| "rx_chars (RAlt r q) c = (rx_chars r c \<or> rx_chars q c)"
| "rx_chars (RStar r) c = rx_chars r c"

lemma in_rx_chars: "in_rx r s \<Longrightarrow> c \<in> set s \<Longrightarrow> rx_chars r c"
  by (induction r s rule: in_rx.induct) auto

lemma rx_match_chars: "rx_match r s \<Longrightarrow> c \<in> set s \<Longrightarrow> rx_chars r c"
  by (simp add: rx_match_correct in_rx_chars)

end
