(* ===== verification/Scanner.thy ===== *)
theory Scanner
  imports Json Regex
begin

text \<open>
  \<open>ScannerRegistry\<close> (\<open>packages/kernel/src/scanner-registry.ts\<close>) and the scan schemas of
  \<open>packages/contracts/src/index.ts\<close>: registering prompt scanners, running every scanner of a
  stage, and combining what they return into one report. What a scanner does within its deadline
  is a plugin's business: it is an argument of \<open>scan\<close>, one of \<open>scan_result\<close>'s cases.
\<close>

section \<open>Stages, actions and findings\<close>

datatype scan_stage =
  UserInput | InboundMessage | ToolResult | ModelInput | ModelOutput | OutboundMessage

definition parse_stage :: "string \<Rightarrow> scan_stage option" where
  "parse_stage s =
     (if s = ''user_input'' then Some UserInput
      else if s = ''inbound_message'' then Some InboundMessage
      else if s = ''tool_result'' then Some ToolResult
      else if s = ''model_input'' then Some ModelInput
      else if s = ''model_output'' then Some ModelOutput
      else if s = ''outbound_message'' then Some OutboundMessage else None)"

definition show_stage :: "scan_stage \<Rightarrow> string" where
  "show_stage st = (case st of UserInput \<Rightarrow> ''user_input'' | InboundMessage \<Rightarrow> ''inbound_message''
     | ToolResult \<Rightarrow> ''tool_result'' | ModelInput \<Rightarrow> ''model_input''
     | ModelOutput \<Rightarrow> ''model_output'' | OutboundMessage \<Rightarrow> ''outbound_message'')"

lemma parse_show_stage [simp]: "parse_stage (show_stage st) = Some st"
  by (cases st) (simp_all add: parse_stage_def show_stage_def)

datatype scan_action = AllowA | ReviewA | BlockA

definition parse_action :: "string \<Rightarrow> scan_action option" where
  "parse_action s =
     (if s = ''allow'' then Some AllowA
      else if s = ''review'' then Some ReviewA
      else if s = ''block'' then Some BlockA else None)"

record scan_finding =
  f_scanner :: string
  f_code :: string
  f_action :: scan_action
  f_reason :: string
  f_evidence :: "string option"

text \<open>The pattern \<open>^[a-z][a-z0-9._-]*$\<close> of a finding's code.\<close>

definition finding_code_rx :: rx where
  "finding_code_rx = RSeq (RCls is_lower_c)
     (RStar (RCls (\<lambda>c. lower_or_digit c \<or> List.member ''._-'' c)))"

definition parse_finding :: "string \<Rightarrow> jsval \<Rightarrow> scan_finding option" where
  "parse_finding scanner v =
     (if \<not> is_plain_object v \<or>
         \<not> set (map fst (obj_fields v)) \<subseteq> {''code'', ''action'', ''reason'', ''evidence''} then None
      else
        (case (getp v ''code'', getp v ''action'', getp v ''reason'') of
           (VStr code, VStr act, VStr reason) \<Rightarrow>
             (case parse_action act of
                None \<Rightarrow> None
              | Some a \<Rightarrow>
                  if code = [] \<or> 64 < length code \<or> \<not> rx_match finding_code_rx code
                     \<or> reason = [] \<or> 1000 < length reason then None
                  else
                    (case getp v ''evidence'' of
                       VUndef \<Rightarrow> Some \<lparr>f_scanner = scanner, f_code = code, f_action = a,
                                     f_reason = reason, f_evidence = None\<rparr>
                     | VStr ev \<Rightarrow>
                         if 512 < length ev then None
                         else Some \<lparr>f_scanner = scanner, f_code = code, f_action = a,
                                    f_reason = reason, f_evidence = Some ev\<rparr>
                     | _ \<Rightarrow> None))
         | _ \<Rightarrow> None))"

section \<open>Reports\<close>

datatype scan_coverage = Complete | Partial | NoCoverage

datatype failure_kind = FTimeout | FError | FInvalid

record scan_failure =
  x_scanner :: string
  x_kind :: failure_kind
  x_message :: string

record scan_report =
  r_stage :: scan_stage
  r_findings :: "scan_finding list"
  r_failures :: "scan_failure list"
  r_coverage :: scan_coverage
  r_truncated :: bool
  r_unavailable :: scan_action

definition MAX_SCAN_TEXT_LENGTH :: nat where
  "MAX_SCAN_TEXT_LENGTH = 65536"

definition MAX_SCAN_FINDINGS :: nat where
  "MAX_SCAN_FINDINGS = 64"

definition MAX_SCANNER_CANDIDATES :: nat where
  "MAX_SCANNER_CANDIDATES = MAX_SCAN_FINDINGS * 8"

definition UNAVAILABLE_SCAN_ACTION :: scan_action where
  "UNAVAILABLE_SCAN_ACTION = ReviewA"

definition ACTION_SEVERITY :: "scan_action \<Rightarrow> nat" where
  "ACTION_SEVERITY a = (case a of BlockA \<Rightarrow> 0 | ReviewA \<Rightarrow> 1 | AllowA \<Rightarrow> 2)"

lemma ACTION_SEVERITY_simps [simp]:
  "ACTION_SEVERITY a = 0 \<longleftrightarrow> a = BlockA"
  "ACTION_SEVERITY a \<le> 2"
  by (cases a; simp add: ACTION_SEVERITY_def)+

definition scan_report_action :: "scan_report \<Rightarrow> scan_action" where
  "scan_report_action r =
     (if list_ex (\<lambda>f. f_action f = BlockA) (r_findings r) then BlockA
      else if list_ex (\<lambda>f. f_action f = ReviewA) (r_findings r) then ReviewA
      else if r_coverage r \<noteq> Complete then r_unavailable r
      else AllowA)"

text \<open>The sort by severity and the cap, used per scanner and on the whole report.\<close>

definition most_severe :: "scan_finding list \<Rightarrow> scan_finding list" where
  "most_severe fs = take MAX_SCAN_FINDINGS (sort_key (\<lambda>f. ACTION_SEVERITY (f_action f)) fs)"

section \<open>Running one scanner\<close>

datatype scan_result = Returned jsval | Threw | TimedOut

record scanner_outcome =
  o_findings :: "scan_finding list"
  o_failure :: "scan_failure option"

definition invalid_outcome :: "string \<Rightarrow> scan_finding list \<Rightarrow> string \<Rightarrow> scanner_outcome" where
  "invalid_outcome sid fs msg =
     \<lparr>o_findings = fs,
      o_failure = Some \<lparr>x_scanner = sid, x_kind = FInvalid, x_message = ''Prompt scanner '' @ sid @ msg\<rparr>\<rparr>"

definition parse_findings :: "string \<Rightarrow> jsval \<Rightarrow> scanner_outcome" where
  "parse_findings sid raw =
     (case raw of
        VArr xs \<Rightarrow>
          let parsed = map (parse_finding sid) (take MAX_SCANNER_CANDIDATES xs);
              rejected = length (filter (\<lambda>p. p = None) parsed);
              findings = most_severe (List.map_filter id parsed);
              overflow = int (length xs) - int MAX_SCAN_FINDINGS;
              parts =
                (if rejected > 0 then [show_nat rejected @ '' malformed finding(s)''] else []) @
                (if overflow > 0
                 then [show_nat (nat overflow) @ '' finding(s) over the '' @ show_nat MAX_SCAN_FINDINGS @ '' cap'']
                 else [])
          in if rejected = 0 \<and> overflow \<le> 0
             then \<lparr>o_findings = findings, o_failure = None\<rparr>
             else invalid_outcome sid findings ('' returned '' @ js_join '' and '' parts)
      | _ \<Rightarrow> invalid_outcome sid [] '' did not return findings'')"

definition run_scanner :: "nat \<Rightarrow> string \<Rightarrow> scan_result \<Rightarrow> scanner_outcome" where
  "run_scanner timeout_ms sid res =
     (case res of
        Returned v \<Rightarrow> parse_findings sid v
      | TimedOut \<Rightarrow>
          \<lparr>o_findings = [], o_failure = Some \<lparr>x_scanner = sid, x_kind = FTimeout,
             x_message = ''Prompt scanner '' @ sid @ '' timed out after '' @ show_nat timeout_ms @ ''ms''\<rparr>\<rparr>
      | Threw \<Rightarrow>
          \<lparr>o_findings = [], o_failure = Some \<lparr>x_scanner = sid, x_kind = FError,
             x_message = ''Prompt scanner '' @ sid @ '' failed''\<rparr>\<rparr>)"

section \<open>The registry\<close>

text \<open>The pattern \<open>^[a-z0-9]+(?:[.-][a-z0-9-]+)*$\<close> of a scanner id.\<close>

definition SCANNER_ID :: rx where
  "SCANNER_ID = RSeq ident_head (RStar ident_tail)"

definition MAX_SCANNER_ID_LENGTH :: nat where
  "MAX_SCANNER_ID_LENGTH = 200"

definition DEFAULT_SCANNER_TIMEOUT_MS :: nat where
  "DEFAULT_SCANNER_TIMEOUT_MS = 2000"

record scanner_contribution =
  sc_id :: string
  sc_stages :: "string list"
  sc_callable :: bool

record registered_scanner =
  rs_plugin :: string
  rs_stages :: "scan_stage list"

record scanner_registry =
  sr_scanners :: "(string, nat \<times> registered_scanner) jmap"
  sr_next :: nat
  sr_aborted :: "nat set"
  sr_timeout :: nat

datatype scanner_error =
    ScanTimeoutInvalid
  | ScannerOwnerInvalid
  | ScannerInvalid string
  | ScannerNamespace string string
  | ScannerNoStages string
  | ScannerUnknownStage string string
  | ScannerStageTwice string scan_stage
  | ScannerDuplicate string
  | ScanStageRejected
  | ScanAborted

definition new_scanner_registry :: "jsnum option \<Rightarrow> scanner_error + scanner_registry" where
  "new_scanner_registry timeout =
     (let t = (case timeout of None \<Rightarrow> Some (int DEFAULT_SCANNER_TIMEOUT_MS) | Some n \<Rightarrow> num_int n) in
      (case t of
         None \<Rightarrow> Inl ScanTimeoutInvalid
       | Some i \<Rightarrow>
           if i < 1 then Inl ScanTimeoutInvalid
           else Inr \<lparr>sr_scanners = [], sr_next = 0, sr_aborted = {}, sr_timeout = nat i\<rparr>))"

fun collect_stages :: "string \<Rightarrow> string list \<Rightarrow> scan_stage list \<Rightarrow> scanner_error + scan_stage list" where
  "collect_stages sid [] acc = Inr acc"
| "collect_stages sid (c # cs) acc =
     (case parse_stage c of
        None \<Rightarrow> Inl (ScannerUnknownStage sid c)
      | Some st \<Rightarrow>
          if List.member acc st then Inl (ScannerStageTwice sid st)
          else collect_stages sid cs (acc @ [st]))"

definition register_scanner ::
  "string \<Rightarrow> scanner_contribution \<Rightarrow> scanner_registry \<Rightarrow> scanner_error + nat \<times> scanner_registry" where
  "register_scanner plugin sc s =
     (if plugin = [] then Inl ScannerOwnerInvalid
      else if \<not> rx_match SCANNER_ID (sc_id sc) \<or> MAX_SCANNER_ID_LENGTH < length (sc_id sc)
              \<or> \<not> sc_callable sc then Inl (ScannerInvalid (sc_id sc))
      else if sc_id sc \<noteq> plugin \<and> \<not> js_starts_with (plugin @ ''.'') (sc_id sc)
        then Inl (ScannerNamespace (sc_id sc) plugin)
      else if sc_stages sc = [] then Inl (ScannerNoStages (sc_id sc))
      else
        (case collect_stages (sc_id sc) (sc_stages sc) [] of
           Inl e \<Rightarrow> Inl e
         | Inr stages \<Rightarrow>
             if jhas (sr_scanners s) (sc_id sc) then Inl (ScannerDuplicate (sc_id sc))
             else Inr (sr_next s,
               s\<lparr>sr_scanners := jset (sc_id sc)
                   (sr_next s, \<lparr>rs_plugin = plugin, rs_stages = stages\<rparr>) (sr_scanners s),
                 sr_next := Suc (sr_next s)\<rparr>)))"

definition remove_scanner :: "string \<Rightarrow> nat \<Rightarrow> scanner_registry \<Rightarrow> scanner_registry" where
  "remove_scanner sid t s =
     s\<lparr>sr_scanners := jdel sid (sr_scanners s), sr_aborted := insert t (sr_aborted s)\<rparr>"

definition dispose_scanner :: "string \<Rightarrow> nat \<Rightarrow> scanner_registry \<Rightarrow> scanner_registry" where
  "dispose_scanner sid t s =
     (case jget (sr_scanners s) sid of
        None \<Rightarrow> s
      | Some (t', _) \<Rightarrow> if t' = t then remove_scanner sid t s else s)"

definition remove_plugin_scanners :: "string \<Rightarrow> scanner_registry \<Rightarrow> scanner_registry" where
  "remove_plugin_scanners plugin s =
     fold (\<lambda>(sid, t, r) s. if rs_plugin r = plugin then remove_scanner sid t s else s)
       (sr_scanners s) s"

definition stage_scanners :: "scan_stage \<Rightarrow> scanner_registry \<Rightarrow> string list" where
  "stage_scanners st s =
     map fst (filter (\<lambda>(sid, t, r). List.member (rs_stages r) st) (sr_scanners s))"

text \<open>\<open>collate\<close> is the locale's "not after" (\<open>localeCompare\<close>), which the host decides.\<close>

definition list_scanners ::
  "(string \<Rightarrow> string \<Rightarrow> bool) \<Rightarrow> scan_stage option \<Rightarrow> scanner_registry \<Rightarrow> string list" where
  "list_scanners collate stage s =
     sort_by collate
       (case stage of None \<Rightarrow> map fst (sr_scanners s) | Some st \<Rightarrow> stage_scanners st s)"

text \<open>
  \<open>behave sid text truncated\<close> is what the scanner does with the bounded text;
  \<open>aborted_before\<close> and \<open>aborted_after\<close> say whether the request's signal was aborted at the
  two places \<open>scan\<close> looks at it.
\<close>

definition scan_outcomes ::
  "(string \<Rightarrow> string \<Rightarrow> bool \<Rightarrow> scan_result) \<Rightarrow> string \<Rightarrow> scan_stage \<Rightarrow> scanner_registry
    \<Rightarrow> scanner_outcome list" where
  "scan_outcomes behave text stage s =
     map (\<lambda>sid. run_scanner (sr_timeout s) sid
            (behave sid (take MAX_SCAN_TEXT_LENGTH text) (MAX_SCAN_TEXT_LENGTH < length text)))
       (stage_scanners stage s)"

definition coverage_of :: "scanner_outcome list \<Rightarrow> bool \<Rightarrow> scan_coverage" where
  "coverage_of outcomes truncated =
     (let failures = List.map_filter o_failure outcomes;
          healthy = length (filter (\<lambda>oc. o_failure oc = None) outcomes);
          scanned = (if healthy = 0 then NoCoverage else if failures \<noteq> [] then Partial else Complete)
      in if truncated \<and> scanned = Complete then Partial else scanned)"

definition scan ::
  "(string \<Rightarrow> string \<Rightarrow> bool \<Rightarrow> scan_result) \<Rightarrow> string \<Rightarrow> string \<Rightarrow> bool \<Rightarrow> bool \<Rightarrow> scanner_registry
    \<Rightarrow> scanner_error + scan_report" where
  "scan behave stage_name text aborted_before aborted_after s =
     (case parse_stage stage_name of
        None \<Rightarrow> Inl ScanStageRejected
      | Some stage \<Rightarrow>
          if aborted_before then Inl ScanAborted
          else
            let truncated = MAX_SCAN_TEXT_LENGTH < length text in
            if stage_scanners stage s = [] then
              Inr \<lparr>r_stage = stage, r_findings = [], r_failures = [], r_coverage = NoCoverage,
                   r_truncated = truncated, r_unavailable = UNAVAILABLE_SCAN_ACTION\<rparr>
            else if aborted_after then Inl ScanAborted
            else
              let outcomes = scan_outcomes behave text stage s in
              Inr \<lparr>r_stage = stage,
                   r_findings = most_severe (concat (map o_findings outcomes)),
                   r_failures = List.map_filter o_failure outcomes,
                   r_coverage = coverage_of outcomes truncated,
                   r_truncated = truncated, r_unavailable = UNAVAILABLE_SCAN_ACTION\<rparr>)"

section \<open>Lemmas on severity\<close>

lemma set_map_filter: "x \<in> set (List.map_filter f ys) \<longleftrightarrow> (\<exists>y \<in> set ys. f y = Some x)"
  by (force simp: List.map_filter_def)

lemma map_filter_Nil: "List.map_filter f ys = [] \<longleftrightarrow> (\<forall>y \<in> set ys. f y = None)"
  by (auto simp: List.map_filter_def filter_empty_conv)

lemma most_severe_subset: "set (most_severe fs) \<subseteq> set fs"
  using set_take_subset [of MAX_SCAN_FINDINGS "sort_key (\<lambda>f. ACTION_SEVERITY (f_action f)) fs"]
  by (simp add: most_severe_def)

lemma most_severe_head:
  assumes "f \<in> set fs"
  shows "\<exists>g \<in> set (most_severe fs). ACTION_SEVERITY (f_action g) \<le> ACTION_SEVERITY (f_action f)"
proof -
  let ?k = "\<lambda>f. ACTION_SEVERITY (f_action f)"
  from assms obtain g gs where s: "sort_key ?k fs = g # gs"
    by (metis list.exhaust set_empty set_sort empty_iff)
  have "sorted (map ?k (g # gs))" by (metis s sorted_sort_key)
  moreover have "f \<in> set (g # gs)" using assms by (metis s set_sort)
  ultimately have "?k g \<le> ?k f" by auto
  moreover have "g \<in> set (most_severe fs)"
    by (simp add: most_severe_def s MAX_SCAN_FINDINGS_def)
  ultimately show ?thesis by blast
qed

lemma most_severe_block:
  "(\<exists>f \<in> set (most_severe fs). f_action f = BlockA) \<longleftrightarrow> (\<exists>f \<in> set fs. f_action f = BlockA)"
proof
  assume "\<exists>f \<in> set fs. f_action f = BlockA"
  then obtain f where f: "f \<in> set fs" "f_action f = BlockA" by blast
  then obtain g where "g \<in> set (most_severe fs)" "ACTION_SEVERITY (f_action g) \<le> 0"
    using most_severe_head by (metis ACTION_SEVERITY_simps(1))
  then show "\<exists>f \<in> set (most_severe fs). f_action f = BlockA" by auto
qed (use most_severe_subset in blast)

lemma severity_allow: "f_action f \<noteq> AllowA \<longleftrightarrow> ACTION_SEVERITY (f_action f) \<le> 1"
  by (cases "f_action f") (simp_all add: ACTION_SEVERITY_def)

lemma most_severe_allow:
  "(\<forall>f \<in> set (most_severe fs). f_action f = AllowA) \<longleftrightarrow> (\<forall>f \<in> set fs. f_action f = AllowA)"
proof
  assume a: "\<forall>f \<in> set (most_severe fs). f_action f = AllowA"
  show "\<forall>f \<in> set fs. f_action f = AllowA"
  proof (rule ballI, rule ccontr)
    fix f assume "f \<in> set fs" and "f_action f \<noteq> AllowA"
    then obtain g where "g \<in> set (most_severe fs)" "ACTION_SEVERITY (f_action g) \<le> 1"
      using most_severe_head severity_allow by (meson order_trans)
    with a show False by (auto simp: ACTION_SEVERITY_def)
  qed
qed (use most_severe_subset in blast)

lemma run_scanner_healthy:
  assumes "o_failure (run_scanner t sid res) = None"
  shows "\<exists>xs. res = Returned (VArr xs) \<and> length xs \<le> MAX_SCAN_FINDINGS \<and>
     (\<forall>x \<in> set xs. parse_finding sid x \<noteq> None) \<and>
     o_findings (run_scanner t sid res) = most_severe (List.map_filter (parse_finding sid) xs)"
proof -
  obtain v where res: "res = Returned v"
    using assms by (cases res) (simp_all add: run_scanner_def)
  with assms obtain xs where v: "v = VArr xs"
    by (cases v) (simp_all add: run_scanner_def parse_findings_def invalid_outcome_def)
  have ok: "\<forall>x \<in> set (take MAX_SCANNER_CANDIDATES xs). parse_finding sid x \<noteq> None"
    and len: "length xs \<le> MAX_SCAN_FINDINGS"
    using assms res v
    by (auto simp: run_scanner_def parse_findings_def invalid_outcome_def Let_def filter_empty_conv
        split: if_splits)
  have whole: "take MAX_SCANNER_CANDIDATES xs = xs"
    using len by (simp add: MAX_SCANNER_CANDIDATES_def)
  have "\<forall>x \<in> set xs. parse_finding sid x \<noteq> None"
    using ok whole by simp
  moreover have "List.map_filter id (map (parse_finding sid) xs) = List.map_filter (parse_finding sid) xs"
    by (simp add: List.map_filter_def filter_map comp_def)
  ultimately show ?thesis
    using res v len whole assms
    by (auto simp: run_scanner_def parse_findings_def Let_def invalid_outcome_def split: if_splits)
qed

lemma parsed_window_block:
  assumes "i < length xs" and "i < MAX_SCANNER_CANDIDATES"
    and "parse_finding sid (xs ! i) = Some f" and "f_action f = BlockA"
  shows "\<exists>g \<in> set (o_findings (parse_findings sid (VArr xs))). f_action g = BlockA"
proof -
  have "xs ! i \<in> set (take MAX_SCANNER_CANDIDATES xs)"
    using assms(1,2) by (metis in_set_conv_nth length_take min_less_iff_conj nth_take)
  then have "Some f \<in> set (map (parse_finding sid) (take MAX_SCANNER_CANDIDATES xs))"
    using assms(3) by force
  then have "f \<in> set (List.map_filter id (map (parse_finding sid) (take MAX_SCANNER_CANDIDATES xs)))"
    by (simp add: set_map_filter)
  with assms(4) have "\<exists>g \<in> set (most_severe (List.map_filter id
      (map (parse_finding sid) (take MAX_SCANNER_CANDIDATES xs)))). f_action g = BlockA"
    by (auto simp: most_severe_block)
  then show ?thesis by (simp add: parse_findings_def Let_def invalid_outcome_def)
qed

lemma coverage_complete:
  "coverage_of outcomes truncated = Complete \<longleftrightarrow>
     outcomes \<noteq> [] \<and> (\<forall>oc \<in> set outcomes. o_failure oc = None) \<and> \<not> truncated"
  by (cases outcomes) (auto simp: coverage_of_def Let_def map_filter_Nil filter_empty_conv)

section \<open>The registry's invariant and its contract\<close>

definition scanner_inv :: "scanner_registry \<Rightarrow> bool" where
  "scanner_inv s \<longleftrightarrow> jkeys_distinct (sr_scanners s) \<and>
     (\<forall>sid t r. jget (sr_scanners s) sid = Some (t, r) \<longrightarrow>
        t < sr_next s \<and> t \<notin> sr_aborted s \<and> rs_stages r \<noteq> [] \<and> distinct (rs_stages r) \<and>
        (sid = rs_plugin r \<or> js_starts_with (rs_plugin r @ ''.'') sid)) \<and>
     (\<forall>sid sid' t r r'. jget (sr_scanners s) sid = Some (t, r) \<longrightarrow>
        jget (sr_scanners s) sid' = Some (t, r') \<longrightarrow> sid = sid') \<and>
     sr_aborted s \<subseteq> {..<sr_next s}"

lemma collect_stages_ok:
  "collect_stages sid cs acc = Inr sts \<Longrightarrow> distinct acc \<Longrightarrow>
     distinct sts \<and> length sts = length acc + length cs"
  by (induction sid cs acc rule: collect_stages.induct)
    (auto simp: List.member_iff split: option.splits if_splits)

lemma register_scanner_cases:
  assumes "register_scanner plugin sc s = Inr (t, s')"
  obtains stages where "jget (sr_scanners s) (sc_id sc) = None" and "t = sr_next s"
    and "stages \<noteq> []" and "distinct stages"
    and "sc_id sc = plugin \<or> js_starts_with (plugin @ ''.'') (sc_id sc)"
    and "s' = s\<lparr>sr_scanners := jset (sc_id sc) (t, \<lparr>rs_plugin = plugin, rs_stages = stages\<rparr>) (sr_scanners s),
                sr_next := Suc t\<rparr>"
proof -
  obtain stages where c: "collect_stages (sc_id sc) (sc_stages sc) [] = Inr stages"
    and "sc_stages sc \<noteq> []"
    using assms by (auto simp: register_scanner_def split: if_splits sum.splits)
  with collect_stages_ok [OF c] have "stages \<noteq> []" "distinct stages" by auto
  with c assms that show thesis
    by (auto simp: register_scanner_def simp del: not_None_eq split: if_splits)
qed

lemma scanner_inv_register:
  assumes "scanner_inv s" and "register_scanner plugin sc s = Inr (t, s')"
  shows "scanner_inv s'"
  using assms(2)
proof (cases rule: register_scanner_cases)
  case (1 stages)
  have fresh: "jget (sr_scanners s) sid = Some (sr_next s, r) \<Longrightarrow> False" for sid r
    using assms(1) unfolding scanner_inv_def by (metis less_irrefl)
  have "sr_next s \<notin> sr_aborted s" using assms(1) by (auto simp: scanner_inv_def)
  with 1 fresh assms(1) show ?thesis
    unfolding scanner_inv_def
    by (auto simp: less_Suc_eq dest: fresh split: if_splits)
qed

lemma scanner_inv_remove:
  assumes "scanner_inv s" and "jget (sr_scanners s) sid = Some (t, r)"
  shows "scanner_inv (remove_scanner sid t s)"
  using assms unfolding scanner_inv_def remove_scanner_def
  by (auto split: if_splits)

lemma scanner_inv_dispose: "scanner_inv s \<Longrightarrow> scanner_inv (dispose_scanner sid t s)"
  by (auto simp: dispose_scanner_def intro: scanner_inv_remove split: option.splits)

definition scanner_owner :: "scanner_registry \<Rightarrow> string \<Rightarrow> nat option" where
  "scanner_owner s sid = map_option fst (jget (sr_scanners s) sid)"

interpretation scanners: token_registry scanner_owner "\<lambda>s. {..<sr_next s}"
  "\<lambda>sid a s. register_scanner (fst a) ((snd a)\<lparr>sc_id := sid\<rparr>) s" dispose_scanner scanner_inv
proof (unfold_locales, goal_cases)
  case (1 s k a t s') then show ?case by (auto elim: register_scanner_cases simp: scanner_owner_def)
next
  case (2 s k a t s') then show ?case
    by (auto elim!: register_scanner_cases simp: scanner_owner_def fun_eq_iff)
next
  case (3 s k a t s') then show ?case by (auto elim: register_scanner_cases)
next
  case (4 s k a t s') then show ?case by (auto elim!: register_scanner_cases)
next
  case (5 s k a t s') then show ?case by (rule scanner_inv_register)
next
  case (6 s k t) then show ?case
    by (auto simp: scanner_owner_def dispose_scanner_def remove_scanner_def fun_eq_iff split: option.splits)
next
  case (7 s k t) then show ?case
    by (auto simp: dispose_scanner_def remove_scanner_def split: option.splits)
next
  case (8 s k t) then show ?case by (rule scanner_inv_dispose)
qed

section \<open>Properties\<close>

text \<open>What a scanner has to return for a text it was given whole, and what it has to return to allow it.\<close>

definition answers_well :: "(string \<Rightarrow> string \<Rightarrow> bool \<Rightarrow> scan_result) \<Rightarrow> string \<Rightarrow> string \<Rightarrow> bool" where
  "answers_well behave text sid =
     (case behave sid text False of
        Returned (VArr xs) \<Rightarrow> length xs \<le> 64 \<and> list_all (\<lambda>x. parse_finding sid x \<noteq> None) xs
      | _ \<Rightarrow> False)"

definition answers_allow :: "(string \<Rightarrow> string \<Rightarrow> bool \<Rightarrow> scan_result) \<Rightarrow> string \<Rightarrow> string \<Rightarrow> bool" where
  "answers_allow behave text sid =
     (case behave sid text False of
        Returned (VArr xs) \<Rightarrow>
          length xs \<le> 64 \<and> list_all (\<lambda>x. \<exists>f. parse_finding sid x = Some f \<and> f_action f = AllowA) xs
      | _ \<Rightarrow> False)"

lemma answers_well_iff: "answers_well behave text sid \<longleftrightarrow> o_failure (run_scanner t sid (behave sid text False)) = None"
proof
  assume "answers_well behave text sid"
  then obtain xs where xs: "behave sid text False = Returned (VArr xs)" "length xs \<le> 64"
      "\<forall>x \<in> set xs. parse_finding sid x \<noteq> None"
    by (auto simp: answers_well_def list_all_iff split: scan_result.splits jsval.splits)
  moreover have "take MAX_SCANNER_CANDIDATES xs = xs"
    using xs(2) by (simp add: MAX_SCANNER_CANDIDATES_def MAX_SCAN_FINDINGS_def)
  moreover from xs(3) have "filter (\<lambda>p. p = None) (map (parse_finding sid) xs) = []"
    by (simp add: filter_empty_conv)
  ultimately show "o_failure (run_scanner t sid (behave sid text False)) = None"
    by (simp add: run_scanner_def parse_findings_def Let_def MAX_SCAN_FINDINGS_def)
next
  assume "o_failure (run_scanner t sid (behave sid text False)) = None"
  from run_scanner_healthy [OF this] show "answers_well behave text sid"
    by (auto simp: answers_well_def list_all_iff MAX_SCAN_FINDINGS_def)
qed

lemma answers_allow_iff:
  assumes "answers_well behave text sid"
  shows "answers_allow behave text sid \<longleftrightarrow>
    (\<forall>f \<in> set (o_findings (run_scanner t sid (behave sid text False))). f_action f = AllowA)"
proof -
  obtain xs where xs: "behave sid text False = Returned (VArr xs)" "length xs \<le> MAX_SCAN_FINDINGS"
    "\<forall>x \<in> set xs. parse_finding sid x \<noteq> None"
    "o_findings (run_scanner t sid (behave sid text False)) = most_severe (List.map_filter (parse_finding sid) xs)"
    using run_scanner_healthy [OF assms [unfolded answers_well_iff [where t = t]]] by blast
  show ?thesis
    using xs(1-3) unfolding xs(4) most_severe_allow
    by (fastforce simp: answers_allow_def list_all_iff set_map_filter MAX_SCAN_FINDINGS_def)
qed

text \<open>
  C8: the scan fails closed. A report claims complete coverage exactly when at least one scanner
  covers the stage, the text was not truncated, and every covering scanner returned, in time, an array
  of at most 64 well-formed findings; and its action is "allow" exactly when, besides, all these
  findings say "allow".
\<close>

theorem scan_fails_closed:
  assumes "scan behave (show_stage st) text False False s = Inr rep"
  shows "(r_coverage rep = Complete \<longleftrightarrow>
      stage_scanners st s \<noteq> [] \<and> length text \<le> 65536 \<and> list_all (answers_well behave text) (stage_scanners st s)) \<and>
    (scan_report_action rep = AllowA \<longleftrightarrow>
      stage_scanners st s \<noteq> [] \<and> length text \<le> 65536 \<and> list_all (answers_allow behave text) (stage_scanners st s))"
proof (cases "stage_scanners st s = []")
  case True
  then show ?thesis
    using assms by (auto simp: scan_def scan_report_action_def UNAVAILABLE_SCAN_ACTION_def)
next
  case ne: False
  let ?ocs = "scan_outcomes behave text st s"
  let ?fs = "most_severe (concat (map o_findings ?ocs))"
  have rep: "r_findings rep = ?fs" "r_coverage rep = coverage_of ?ocs (MAX_SCAN_TEXT_LENGTH < length text)"
      "r_unavailable rep = ReviewA"
    using assms ne by (auto simp: scan_def Let_def UNAVAILABLE_SCAN_ACTION_def)
  have ocs: "?ocs \<noteq> []" using ne by (simp add: scan_outcomes_def)
  have cov: "r_coverage rep = Complete \<longleftrightarrow> length text \<le> 65536 \<and> (\<forall>oc \<in> set ?ocs. o_failure oc = None)"
    unfolding rep coverage_complete using ocs by (auto simp: MAX_SCAN_TEXT_LENGTH_def)
  have whole: "?ocs = map (\<lambda>sid. run_scanner (sr_timeout s) sid (behave sid text False)) (stage_scanners st s)"
    if "length text \<le> 65536"
    using that by (simp add: scan_outcomes_def MAX_SCAN_TEXT_LENGTH_def)
  have complete: "r_coverage rep = Complete \<longleftrightarrow>
      length text \<le> 65536 \<and> list_all (answers_well behave text) (stage_scanners st s)"
    using whole by (auto simp: cov list_all_iff answers_well_iff [where t = "sr_timeout s"])
  have "scan_report_action rep = AllowA \<longleftrightarrow> r_coverage rep = Complete \<and> (\<forall>f \<in> set ?fs. f_action f = AllowA)"
  proof -
    have not_allow: "f_action f \<noteq> AllowA \<longleftrightarrow> f_action f = BlockA \<or> f_action f = ReviewA" for f
      by (cases "f_action f") simp_all
    have "scan_report_action rep = AllowA \<longleftrightarrow>
        r_coverage rep = Complete \<and> \<not> (\<exists>f \<in> set ?fs. f_action f = BlockA \<or> f_action f = ReviewA)"
      unfolding scan_report_action_def rep(1,3) by (auto simp: list_ex_iff)
    then show ?thesis unfolding not_allow [symmetric] by simp
  qed
  also have "\<dots> \<longleftrightarrow> r_coverage rep = Complete \<and> (\<forall>oc \<in> set ?ocs. \<forall>f \<in> set (o_findings oc). f_action f = AllowA)"
    by (simp add: most_severe_allow)
  also have "\<dots> \<longleftrightarrow> length text \<le> 65536 \<and> list_all (answers_allow behave text) (stage_scanners st s)"
  proof -
    have "answers_allow behave text sid \<Longrightarrow> answers_well behave text sid" for sid
      by (auto simp: answers_allow_def answers_well_def list_all_iff split: scan_result.splits jsval.splits)
    then have "answers_allow behave text sid \<longleftrightarrow> answers_well behave text sid \<and>
        (\<forall>f \<in> set (o_findings (run_scanner (sr_timeout s) sid (behave sid text False))). f_action f = AllowA)" for sid
      using answers_allow_iff by blast
    then show ?thesis
      using whole unfolding complete by (auto simp: list_all_iff)
  qed
  finally show ?thesis using complete ne by simp
qed

definition demo_registry :: scanner_registry where
  "demo_registry = \<lparr>sr_scanners = [(''s.x'', 0, \<lparr>rs_plugin = ''s'', rs_stages = [ToolResult]\<rparr>)],
     sr_next = 1, sr_aborted = {}, sr_timeout = 2000\<rparr>"

theorem scan_fails_closed_witness:
  "(\<exists>rep. scan (\<lambda>_ _ _. Returned (VArr [])) (show_stage ToolResult) ''hello'' False False demo_registry
      = Inr rep \<and> r_coverage rep = Complete \<and> scan_report_action rep = AllowA) \<and>
   (\<exists>rep. scan (\<lambda>_ _ _. Threw) (show_stage ToolResult) ''hello'' False False demo_registry
      = Inr rep \<and> r_coverage rep \<noteq> Complete \<and> scan_report_action rep \<noteq> AllowA)"
proof -
  have n: "stage_scanners ToolResult demo_registry = [''s.x'']" by code_simp
  have a: "\<exists>rep. scan b (show_stage ToolResult) ''hello'' False False demo_registry = Inr rep" for b
    by (simp add: scan_def Let_def n)
  obtain rep where r: "scan (\<lambda>_ _ _. Returned (VArr [])) (show_stage ToolResult) ''hello'' False False demo_registry = Inr rep"
    using a by blast
  obtain rep' where r': "scan (\<lambda>_ _ _. Threw) (show_stage ToolResult) ''hello'' False False demo_registry = Inr rep'"
    using a by blast
  show ?thesis
    using scan_fails_closed [OF r] scan_fails_closed [OF r'] r r'
    by (simp add: n answers_well_def answers_allow_def)
qed

text \<open>
  A block cannot be hidden by other findings. If any scanner of the stage returns a
  well-formed "block" among its first 512 candidates, the report's action is "block", however
  many findings that scanner and the others return.
\<close>

theorem block_wins:
  assumes "scan behave (show_stage st) text False False s = Inr rep"
    and "List.member (stage_scanners st s) sid"
    and "behave sid (take 65536 text) (65536 < length text) = Returned (VArr xs)"
    and "i < length xs" and "i < 512"
    and "parse_finding sid (xs ! i) = Some f" and "f_action f = BlockA"
  shows "scan_report_action rep = BlockA"
proof -
  let ?ocs = "scan_outcomes behave text st s"
  have sid: "sid \<in> set (stage_scanners st s)" using assms(2) by (simp add: List.member_iff)
  then have rep: "r_findings rep = most_severe (concat (map o_findings ?ocs))"
    using assms(1) by (auto simp: scan_def Let_def split: if_splits)
  have "run_scanner (sr_timeout s) sid (Returned (VArr xs)) \<in> set ?ocs"
    using sid assms(3) by (force simp: scan_outcomes_def MAX_SCAN_TEXT_LENGTH_def)
  moreover have "\<exists>g \<in> set (o_findings (run_scanner (sr_timeout s) sid (Returned (VArr xs)))). f_action g = BlockA"
    unfolding run_scanner_def scan_result.case using assms(4-7)
    by (intro parsed_window_block) (auto simp: MAX_SCANNER_CANDIDATES_def MAX_SCAN_FINDINGS_def)
  ultimately have "\<exists>g \<in> set (concat (map o_findings ?ocs)). f_action g = BlockA" by auto
  then have "\<exists>g \<in> set (r_findings rep). f_action g = BlockA"
    by (simp only: rep most_severe_block)
  then show ?thesis by (auto simp: scan_report_action_def list_ex_iff)
qed

definition demo_block :: jsval where
  "demo_block = VObj [(''code'', VStr ''x''), (''action'', VStr ''block''), (''reason'', VStr ''bad'')]"

definition demo_allow :: jsval where
  "demo_allow = VObj [(''code'', VStr ''x''), (''action'', VStr ''allow''), (''reason'', VStr ''fine'')]"

theorem block_wins_witness:
  "\<exists>rep. scan (\<lambda>_ _ _. Returned (VArr [demo_block])) (show_stage ToolResult) ''t'' False False demo_registry
     = Inr rep \<and> scan_report_action rep = BlockA"
proof -
  let ?b = "\<lambda>_ _ _. Returned (VArr [demo_block])"
  have n: "stage_scanners ToolResult demo_registry = [''s.x'']" by code_simp
  have "\<exists>rep. scan ?b (show_stage ToolResult) ''t'' False False demo_registry = Inr rep"
    by (simp add: scan_def Let_def n)
  then obtain rep where a: "scan ?b (show_stage ToolResult) ''t'' False False demo_registry = Inr rep" ..
  have m: "List.member (stage_scanners ToolResult demo_registry) ''s.x''"
    by (simp add: n List.member_iff)
  have p: "parse_finding ''s.x'' ([demo_block] ! 0) = Some \<lparr>f_scanner = ''s.x'', f_code = ''x'',
      f_action = BlockA, f_reason = ''bad'', f_evidence = None\<rparr>"
    by code_simp
  show ?thesis using a block_wins [OF a m refl _ _ p] by simp
qed

text \<open>
  Beyond the window the comment's promise does not hold: when a scanner's first 512 candidates
  are all well-formed "allow" findings, whatever follows them (a "block" included) is not read,
  and the report asks for a review instead of blocking.
\<close>

theorem block_after_window_is_review:
  assumes "stage_scanners st s = [sid]"
    and "behave sid (take 65536 text) (65536 < length text) = Returned (VArr (xs @ ys))"
    and "length xs = 512"
    and "list_all (\<lambda>x. \<exists>f. parse_finding sid x = Some f \<and> f_action f = AllowA) xs"
  shows "\<exists>rep. scan behave (show_stage st) text False False s = Inr rep \<and>
     scan_report_action rep = ReviewA"
proof -
  let ?ocs = "scan_outcomes behave text st s"
  let ?fs = "List.map_filter id (map (parse_finding sid) xs)"
  have w: "take MAX_SCANNER_CANDIDATES (xs @ ys) = xs"
    using assms(3) by (simp add: MAX_SCANNER_CANDIDATES_def MAX_SCAN_FINDINGS_def)
  have ocs: "?ocs = [parse_findings sid (VArr (xs @ ys))]"
    using assms(1,2) by (simp add: scan_outcomes_def run_scanner_def MAX_SCAN_TEXT_LENGTH_def)
  have fs: "o_findings (parse_findings sid (VArr (xs @ ys))) = most_severe ?fs"
    by (simp add: parse_findings_def Let_def w invalid_outcome_def del: take_append)
  have "\<forall>f \<in> set ?fs. f_action f = AllowA"
    using assms(4) by (auto simp: set_map_filter list_all_iff) (metis option.inject)
  then have allow: "\<forall>f \<in> set (most_severe (most_severe ?fs)). f_action f = AllowA"
    by (simp add: most_severe_allow)
  have "o_failure (parse_findings sid (VArr (xs @ ys))) \<noteq> None"
    using assms(3)
    by (simp add: parse_findings_def Let_def w invalid_outcome_def MAX_SCAN_FINDINGS_def)
  then have nc: "coverage_of ?ocs (MAX_SCAN_TEXT_LENGTH < length text) \<noteq> Complete"
    unfolding ocs by (simp add: coverage_complete)
  show ?thesis
    using assms(1) allow nc
    by (simp add: scan_def Let_def ocs fs scan_report_action_def UNAVAILABLE_SCAN_ACTION_def list_ex_iff)
qed

theorem block_after_window_is_review_witness:
  "\<exists>rep. scan (\<lambda>_ _ _. Returned (VArr (replicate 512 demo_allow @ [demo_block])))
     (show_stage ToolResult) ''t'' False False demo_registry = Inr rep \<and> scan_report_action rep = ReviewA"
proof -
  have p: "parse_finding ''s.x'' demo_allow = Some \<lparr>f_scanner = ''s.x'', f_code = ''x'',
      f_action = AllowA, f_reason = ''fine'', f_evidence = None\<rparr>"
    by code_simp
  have m: "stage_scanners ToolResult demo_registry = [''s.x'']" by code_simp
  show ?thesis
    by (rule block_after_window_is_review [OF m refl]) (simp_all add: list_all_iff p)
qed

lemma stale_scanner_handle:
  assumes "scanner_inv s" and "t < sr_next s" and "register_scanner p (sc\<lparr>sc_id := sid\<rparr>) s = Inr (t', s')"
  shows "scanner_owner (dispose_scanner sid t s') sid = Some t'"
  using assms scanners.stale_dispose_harmless [where s = s and t = t and k = sid and a = "(p, sc)"] by simp

end
