(* ===== verification/Interaction.thy ===== *)
theory Interaction
  imports Json
begin

text \<open>
  \<open>InteractionService\<close> (\<open>packages/kernel/src/interaction-service.ts\<close>) with the response
  schemas of \<open>packages/contracts/src/index.ts\<close>: questions put to the user, and the ways a
  question ends (an answer, a timeout, an aborted signal, a shutdown). A waiter's promise is the
  list \<open>iv_settled\<close> of what was resolved or rejected, in order. Ids (\<open>randomUUID\<close>) and the clock
  are arguments; a timestamp is its milliseconds, which its ISO form orders the same way.
\<close>

section \<open>Interactions and responses\<close>

datatype interaction_kind = ToolApproval | ClassificationReview | HumanInput

datatype interaction_form = FApproval | FText | FConfirm | FChoice

datatype duration = DOnce | DSession | DAlways

datatype interaction_response =
    RApproval bool "duration option"
  | RText string
  | RConfirm bool
  | RChoice string "string option"

record interaction_source =
  src_plugin :: string
  src_feature :: string
  src_session :: "string option"
  src_run :: "string option"
  src_tool_call :: "string option"

record interaction_request =
  q_kind :: interaction_kind
  q_title :: string
  q_prompt :: string
  q_form :: interaction_form
  q_choices :: "(string \<times> string) list option"
  q_source :: interaction_source
  q_timeout :: "jsnum option"

record pending_interaction =
  p_id :: string
  p_kind :: interaction_kind
  p_title :: string
  p_prompt :: string
  p_form :: interaction_form
  p_choices :: "(string \<times> string) list option"
  p_source :: interaction_source
  p_created :: int
  p_expires :: "int option"

text \<open>\<open>interactionResponseSchema\<close>: the variants are told apart by \<open>kind\<close>; other keys are dropped.\<close>

definition parse_duration :: "jsval \<Rightarrow> duration option option" where
  "parse_duration v =
     (if v = VUndef then Some None
      else if v = VStr ''once'' then Some (Some DOnce)
      else if v = VStr ''session'' then Some (Some DSession)
      else if v = VStr ''always'' then Some (Some DAlways) else None)"

definition parse_response :: "jsval \<Rightarrow> interaction_response option" where
  "parse_response v =
     (if \<not> is_plain_object v then None
      else if getp v ''kind'' = VStr ''approval'' then
        (case parse_duration (getp v ''duration'') of
           None \<Rightarrow> None
         | Some d \<Rightarrow>
             if getp v ''decision'' = VStr ''allow'' then Some (RApproval True d)
             else if getp v ''decision'' = VStr ''deny'' then Some (RApproval False d) else None)
      else if getp v ''kind'' = VStr ''text'' then map_option RText (str_of (getp v ''text''))
      else if getp v ''kind'' = VStr ''confirm'' then
        (case getp v ''confirmed'' of VBool b \<Rightarrow> Some (RConfirm b) | _ \<Rightarrow> None)
      else if getp v ''kind'' = VStr ''choice'' then
        (case (getp v ''choiceId'', getp v ''text'') of
           (VStr c, VUndef) \<Rightarrow> if c = [] then None else Some (RChoice c None)
         | (VStr c, VStr t) \<Rightarrow> if c = [] then None else Some (RChoice c (Some t))
         | _ \<Rightarrow> None)
      else None)"

text \<open>\<open>feedbackAnswerSchema\<close> accepts the three answers a human input may give.\<close>

definition feedback_answer :: "interaction_response \<Rightarrow> interaction_response option" where
  "feedback_answer r = (case r of RApproval _ _ \<Rightarrow> None | _ \<Rightarrow> Some r)"

section \<open>The service\<close>

datatype interaction_outcome = Answered interaction_response | Cancelled string | TimedOutI

datatype interaction_error =
    InteractionCancelled
  | TimeoutOutOfRange
  | ChoicesMismatch
  | KindFormMismatch
  | InteractionSchemaRejected
  | ResponseRejected
  | ResponseFormMismatch interaction_form

record interaction_service =
  iv_pending :: "(string, pending_interaction) jmap"
  iv_settled :: "(pending_interaction \<times> interaction_outcome) list"
  iv_published :: nat

definition new_interaction_service :: interaction_service where
  "new_interaction_service = \<lparr>iv_pending = [], iv_settled = [], iv_published = 0\<rparr>"

definition list_pending :: "interaction_service \<Rightarrow> pending_interaction list" where
  "list_pending s = sort_key p_created (map snd (iv_pending s))"

text \<open>\<open>#publish\<close> sends \<open>list_pending\<close> to every subscriber; the count of snapshots is kept.\<close>

definition publish :: "interaction_service \<Rightarrow> interaction_service" where
  "publish s = s\<lparr>iv_published := Suc (iv_published s)\<rparr>"

definition finish :: "pending_interaction \<Rightarrow> interaction_service \<Rightarrow> interaction_service" where
  "finish i s = publish (s\<lparr>iv_pending := jdel (p_id i) (iv_pending s)\<rparr>)"

definition settle :: "pending_interaction \<Rightarrow> interaction_outcome \<Rightarrow> interaction_service \<Rightarrow> interaction_service" where
  "settle i oc s = s\<lparr>iv_settled := iv_settled s @ [(i, oc)]\<rparr>"

definition timeout_ok :: "jsnum option \<Rightarrow> bool" where
  "timeout_ok t = (case t of None \<Rightarrow> True
     | Some n \<Rightarrow> (case num_int n of None \<Rightarrow> False | Some i \<Rightarrow> 0 < i \<and> i \<le> 86400000))"

definition choices_match :: "interaction_form \<Rightarrow> (string \<times> string) list option \<Rightarrow> bool" where
  "choices_match form choices =
     (case choices of
        None \<Rightarrow> form \<noteq> FChoice
      | Some cs \<Rightarrow> form = FChoice \<and> cs \<noteq> [] \<and> card (set (map fst cs)) = length cs)"

definition kind_matches_form :: "interaction_kind \<Rightarrow> interaction_form \<Rightarrow> bool" where
  "kind_matches_form k f = ((k = HumanInput) \<noteq> (f = FApproval))"

definition opt_nonempty :: "string option \<Rightarrow> bool" where
  "opt_nonempty x = (x \<noteq> Some [])"

text \<open>\<open>pendingInteractionSchema\<close> and \<open>interactionSourceSchema\<close> on typed fields: the strings are non-empty.\<close>

definition source_ok :: "interaction_source \<Rightarrow> bool" where
  "source_ok s = (src_plugin s \<noteq> [] \<and> src_feature s \<noteq> [] \<and> opt_nonempty (src_session s)
     \<and> opt_nonempty (src_run s) \<and> opt_nonempty (src_tool_call s))"

definition interaction_schema_ok :: "interaction_request \<Rightarrow> bool" where
  "interaction_schema_ok q =
     (q_title q \<noteq> [] \<and> q_prompt q \<noteq> [] \<and> source_ok (q_source q) \<and>
      (case q_choices q of None \<Rightarrow> True
       | Some cs \<Rightarrow> list_all (\<lambda>(i, l). i \<noteq> [] \<and> l \<noteq> []) cs))"

definition create_interaction ::
  "string \<Rightarrow> int \<Rightarrow> bool \<Rightarrow> interaction_request \<Rightarrow> interaction_service
    \<Rightarrow> interaction_error + pending_interaction \<times> interaction_service" where
  "create_interaction uuid now aborted q s =
     (if aborted then Inl InteractionCancelled
      else if \<not> timeout_ok (q_timeout q) then Inl TimeoutOutOfRange
      else if \<not> choices_match (q_form q) (q_choices q) then Inl ChoicesMismatch
      else if \<not> kind_matches_form (q_kind q) (q_form q) then Inl KindFormMismatch
      else if \<not> interaction_schema_ok q then Inl InteractionSchemaRejected
      else
        let i = \<lparr>p_id = uuid, p_kind = q_kind q, p_title = q_title q, p_prompt = q_prompt q,
                 p_form = q_form q, p_choices = q_choices q, p_source = q_source q, p_created = now,
                 p_expires = (case q_timeout q of None \<Rightarrow> None
                   | Some n \<Rightarrow> map_option ((+) now) (num_int n))\<rparr>
        in Inr (i, publish (s\<lparr>iv_pending := jset uuid i (iv_pending s)\<rparr>)))"

definition request_safety ::
  "string \<Rightarrow> int \<Rightarrow> bool \<Rightarrow> interaction_kind \<Rightarrow> string \<Rightarrow> string \<Rightarrow> interaction_source \<Rightarrow> jsnum option
    \<Rightarrow> interaction_service \<Rightarrow> interaction_error + pending_interaction \<times> interaction_service" where
  "request_safety uuid now aborted kind title prompt src timeout s =
     create_interaction uuid now aborted
       \<lparr>q_kind = kind, q_title = title, q_prompt = prompt, q_form = FApproval, q_choices = None,
        q_source = src, q_timeout = timeout\<rparr> s"

definition request_human_input ::
  "string \<Rightarrow> int \<Rightarrow> bool \<Rightarrow> string option \<Rightarrow> string \<Rightarrow> interaction_form
    \<Rightarrow> (string \<times> string) list option \<Rightarrow> interaction_source \<Rightarrow> jsnum option
    \<Rightarrow> interaction_service \<Rightarrow> interaction_error + pending_interaction \<times> interaction_service" where
  "request_human_input uuid now aborted title prompt form choices src timeout s =
     create_interaction uuid now aborted
       \<lparr>q_kind = HumanInput,
        q_title = (case title of None \<Rightarrow> ''Input requested'' | Some t \<Rightarrow> t),
        q_prompt = prompt, q_form = form, q_choices = choices, q_source = src, q_timeout = timeout\<rparr> s"

definition validate_response :: "pending_interaction \<Rightarrow> interaction_response \<Rightarrow> bool" where
  "validate_response i r =
     (case p_form i of
        FApproval \<Rightarrow> (case r of RApproval _ _ \<Rightarrow> True | _ \<Rightarrow> False)
      | FText \<Rightarrow> (case r of RText _ \<Rightarrow> True | _ \<Rightarrow> False)
      | FConfirm \<Rightarrow> (case r of RConfirm _ \<Rightarrow> True | _ \<Rightarrow> False)
      | FChoice \<Rightarrow>
          (case r of
             RChoice c _ \<Rightarrow>
               (case p_choices i of None \<Rightarrow> False | Some cs \<Rightarrow> list_ex (\<lambda>p. fst p = c) cs)
           | _ \<Rightarrow> False))"

definition respond ::
  "string \<Rightarrow> jsval \<Rightarrow> interaction_service \<Rightarrow> interaction_error + bool \<times> interaction_service" where
  "respond iid candidate s =
     (case jget (iv_pending s) iid of
        None \<Rightarrow> Inr (False, s)
      | Some i \<Rightarrow>
          (case parse_response candidate of
             None \<Rightarrow> Inl ResponseRejected
           | Some r \<Rightarrow>
               if \<not> validate_response i r then Inl (ResponseFormMismatch (p_form i))
               else Inr (True, settle i (Answered r) (finish i s))))"

text \<open>The timer of a waiter, and the abort listener on its signal: both look at the map first.\<close>

definition timeout_fires :: "string \<Rightarrow> interaction_service \<Rightarrow> interaction_service" where
  "timeout_fires iid s =
     (case jget (iv_pending s) iid of
        None \<Rightarrow> s | Some i \<Rightarrow> settle i TimedOutI (finish i s))"

definition abort_fires :: "string \<Rightarrow> interaction_service \<Rightarrow> interaction_service" where
  "abort_fires iid s =
     (case jget (iv_pending s) iid of
        None \<Rightarrow> s | Some i \<Rightarrow> settle i (Cancelled ''Interaction was cancelled'') (finish i s))"

fun cancel_each :: "string \<Rightarrow> pending_interaction list \<Rightarrow> interaction_service \<Rightarrow> interaction_service" where
  "cancel_each reason [] s = s"
| "cancel_each reason (i # is) s = cancel_each reason is (settle i (Cancelled reason) (finish i s))"

definition cancel_all :: "string \<Rightarrow> interaction_service \<Rightarrow> interaction_service" where
  "cancel_all reason s = cancel_each reason (map snd (iv_pending s)) s"

section \<open>Steps and the invariant\<close>

text \<open>One step of the service in its environment. A new interaction's id was never used before.\<close>

definition used_ids :: "interaction_service \<Rightarrow> string set" where
  "used_ids s = fst ` set (iv_pending s) \<union> p_id ` fst ` set (iv_settled s)"

inductive istep :: "interaction_service \<Rightarrow> interaction_service \<Rightarrow> bool" where
  is_create: "uuid \<notin> used_ids s \<Longrightarrow> create_interaction uuid now ab q s = Inr (i, s') \<Longrightarrow> istep s s'"
| is_respond: "respond iid c s = Inr (b, s') \<Longrightarrow> istep s s'"
| is_timeout: "istep s (timeout_fires iid s)"
| is_abort: "istep s (abort_fires iid s)"
| is_cancel_all: "istep s (cancel_all reason s)"

inductive ireachable :: "interaction_service \<Rightarrow> bool" where
  ir_start: "ireachable new_interaction_service"
| ir_step: "ireachable s \<Longrightarrow> istep s s' \<Longrightarrow> ireachable s'"

definition interaction_ok :: "pending_interaction \<Rightarrow> bool" where
  "interaction_ok i \<longleftrightarrow> kind_matches_form (p_kind i) (p_form i) \<and>
     choices_match (p_form i) (p_choices i) \<and> p_title i \<noteq> [] \<and> p_prompt i \<noteq> []"

definition outcome_ok :: "pending_interaction \<times> interaction_outcome \<Rightarrow> bool" where
  "outcome_ok p \<longleftrightarrow> interaction_ok (fst p) \<and>
     (case snd p of Answered r \<Rightarrow> validate_response (fst p) r | _ \<Rightarrow> True)"

definition iinv :: "interaction_service \<Rightarrow> bool" where
  "iinv s \<longleftrightarrow> jkeys_distinct (iv_pending s) \<and>
     (\<forall>k i. jget (iv_pending s) k = Some i \<longrightarrow> p_id i = k \<and> interaction_ok i) \<and>
     distinct (map (p_id \<circ> fst) (iv_settled s)) \<and>
     (\<forall>p \<in> set (iv_settled s). outcome_ok p \<and> jget (iv_pending s) (p_id (fst p)) = None)"

lemma iinv_new: "iinv new_interaction_service"
  by (simp add: iinv_def new_interaction_service_def)

lemma iinv_settle_finish:
  assumes "iinv s" and "jget (iv_pending s) iid = Some i" and "outcome_ok (i, oc)"
  shows "iinv (settle i oc (finish i s))"
proof -
  have id: "p_id i = iid" using assms(1,2) by (simp add: iinv_def)
  have "\<forall>p \<in> set (iv_settled s). p_id (fst p) \<noteq> iid"
    using assms(1,2) by (auto simp: iinv_def)
  with id assms show ?thesis
    by (auto simp: iinv_def settle_def finish_def publish_def)
qed

lemma outcome_ok_cancelled: "interaction_ok i \<Longrightarrow> outcome_ok (i, Cancelled r)"
  by (simp add: outcome_ok_def)

lemma iinv_pending_ok: "iinv s \<Longrightarrow> jget (iv_pending s) iid = Some i \<Longrightarrow> interaction_ok i \<and> p_id i = iid"
  by (simp add: iinv_def)

lemma iinv_cancel_each:
  assumes "iinv s" and "distinct (map p_id is)"
    and "\<forall>i \<in> set is. jget (iv_pending s) (p_id i) = Some i"
  shows "iinv (cancel_each reason is s)"
  using assms
proof (induction "is" arbitrary: s)
  case (Cons i "is")
  have p: "jget (iv_pending s) (p_id i) = Some i" using Cons.prems(3) by simp
  have "iinv (settle i (Cancelled reason) (finish i s))"
    using Cons.prems(1) p iinv_pending_ok [OF Cons.prems(1) p]
    by (intro iinv_settle_finish) (auto intro: outcome_ok_cancelled)
  moreover have "\<forall>j \<in> set is. jget (iv_pending (settle i (Cancelled reason) (finish i s))) (p_id j) = Some j"
  proof
    fix j assume j: "j \<in> set is"
    then have "p_id j \<noteq> p_id i" using Cons.prems(2) by (metis distinct.simps(2) image_eqI list.set_map list.simps(9))
    moreover have "jget (iv_pending s) (p_id j) = Some j" using Cons.prems(3) j by simp
    ultimately show "jget (iv_pending (settle i (Cancelled reason) (finish i s))) (p_id j) = Some j"
      by (simp add: settle_def finish_def publish_def)
  qed
  ultimately show ?case using Cons by simp
qed simp

lemma iinv_cancel_all:
  assumes "iinv s"
  shows "iinv (cancel_all reason s)"
proof -
  have d: "jkeys_distinct (iv_pending s)" using assms by (simp add: iinv_def)
  have id: "p_id i = k \<and> jget (iv_pending s) k = Some i" if "(k, i) \<in> set (iv_pending s)" for k i
  proof -
    have "jget (iv_pending s) k = Some i" using d that by (rule map_of_is_SomeI)
    with iinv_pending_ok [OF assms this] show ?thesis by blast
  qed
  have "map (p_id \<circ> snd) (iv_pending s) = map fst (iv_pending s)"
  proof (rule map_cong [OF refl])
    fix p assume "p \<in> set (iv_pending s)"
    then show "(p_id \<circ> snd) p = fst p" using id [of "fst p" "snd p"] by simp
  qed
  then have k: "map p_id (map snd (iv_pending s)) = map fst (iv_pending s)" by simp
  have "\<forall>i \<in> set (map snd (iv_pending s)). jget (iv_pending s) (p_id i) = Some i"
    using id by (metis (no_types, lifting) imageE list.set_map prod.collapse)
  then show ?thesis unfolding cancel_all_def
    using assms d by (intro iinv_cancel_each) (simp_all only: k)
qed

lemma iinv_create:
  assumes "iinv s" and "uuid \<notin> used_ids s" and "create_interaction uuid now ab q s = Inr (i, s')"
  shows "iinv s'"
proof -
  have fresh: "jget (iv_pending s) uuid = None" and "\<forall>p \<in> set (iv_settled s). p_id (fst p) \<noteq> uuid"
    using assms(2) by (force simp: used_ids_def map_of_eq_None_iff)+
  moreover have "interaction_ok i \<and> p_id i = uuid \<and> s' = publish (s\<lparr>iv_pending := jset uuid i (iv_pending s)\<rparr>)"
    using assms(3)
    by (auto simp: create_interaction_def Let_def interaction_ok_def interaction_schema_ok_def
        split: if_splits)
  ultimately show ?thesis using assms(1)
    by (auto simp: iinv_def publish_def)
qed

lemma iinv_step: "istep s s' \<Longrightarrow> iinv s \<Longrightarrow> iinv s'"
proof (induction rule: istep.induct)
  case (is_create uuid s now ab q i s')
  then show ?case by (blast intro: iinv_create)
next
  case (is_respond iid c s b s')
  then show ?case
    using iinv_pending_ok [of s iid]
    by (auto simp: respond_def outcome_ok_def intro!: iinv_settle_finish split: option.splits if_splits)
next
  case (is_timeout s iid)
  then show ?case
    using iinv_pending_ok [of s iid]
    by (auto simp: timeout_fires_def outcome_ok_def intro!: iinv_settle_finish split: option.splits)
next
  case (is_abort s iid)
  then show ?case
    using iinv_pending_ok [of s iid]
    by (auto simp: abort_fires_def outcome_ok_def intro!: iinv_settle_finish split: option.splits)
next
  case (is_cancel_all s reason)
  then show ?case by (rule iinv_cancel_all)
qed

lemma ireachable_iinv: "ireachable s \<Longrightarrow> iinv s"
  by (induction rule: ireachable.induct) (auto intro: iinv_new iinv_step)

section \<open>Properties\<close>

text \<open>
  C9: in every reachable state a question is settled at most once, and never while it is still
  pending: the ids of the settled list are distinct and none of them is pending.
\<close>

theorem settled_at_most_once:
  assumes "ireachable s"
  shows "distinct (map (p_id \<circ> fst) (iv_settled s)) \<and>
     list_all (\<lambda>p. jget (iv_pending s) (p_id (fst p)) = None) (iv_settled s)"
  using ireachable_iinv [OF assms] by (simp add: iinv_def list_all_iff)

definition demo_source :: interaction_source where
  "demo_source = \<lparr>src_plugin = ''p'', src_feature = ''tool'', src_session = None, src_run = None, src_tool_call = None\<rparr>"

definition demo_asked :: interaction_service where
  "demo_asked = snd (projr (request_safety ''u1'' 5 False ToolApproval ''t'' ''q'' demo_source None
     new_interaction_service))"

definition demo_answered :: interaction_service where
  "demo_answered = snd (projr (respond ''u1''
     (VObj [(''kind'', VStr ''approval''), (''decision'', VStr ''allow'')]) demo_asked))"

lemma demo_answered_reachable: "ireachable demo_answered"
proof -
  let ?q = "\<lparr>q_kind = ToolApproval, q_title = ''t'', q_prompt = ''q'', q_form = FApproval,
       q_choices = None, q_source = demo_source, q_timeout = None\<rparr>"
  let ?r = "VObj [(''kind'', VStr ''approval''), (''decision'', VStr ''allow'')]"
  have "istep new_interaction_service demo_asked"
    by (rule is_create [of "''u1''" _ 5 False ?q "fst (projr (request_safety ''u1'' 5 False
        ToolApproval ''t'' ''q'' demo_source None new_interaction_service))"])
      (simp add: used_ids_def new_interaction_service_def, code_simp)
  moreover have "istep demo_asked demo_answered"
    by (rule is_respond [of "''u1''" ?r _ True]) code_simp
  ultimately show ?thesis by (blast intro: ir_start ir_step)
qed

theorem settled_at_most_once_witness:
  "distinct (map (p_id \<circ> fst) (iv_settled demo_answered)) \<and> length (iv_settled demo_answered) = 1"
proof -
  have "length (iv_settled demo_answered) = 1" by code_simp
  with settled_at_most_once [OF demo_answered_reachable] show ?thesis by simp
qed

text \<open>
  Whatever is given as an answer, a question only resolves with an answer of its own form:
  approvals with an approval, choices with a declared choice; and the answer to a human input
  always passes \<open>feedbackAnswerSchema\<close>.
\<close>

theorem answers_match_form:
  assumes "ireachable s" and "List.member (iv_settled s) (i, Answered r)"
  shows "validate_response i r \<and> (p_kind i = HumanInput \<longleftrightarrow> feedback_answer r = Some r)"
proof -
  have "outcome_ok (i, Answered r)"
    using ireachable_iinv [OF assms(1)] assms(2) by (auto simp: iinv_def List.member_iff)
  then have v: "validate_response i r" and k: "kind_matches_form (p_kind i) (p_form i)"
    by (auto simp: outcome_ok_def interaction_ok_def)
  then show ?thesis
    by (cases "p_form i"; cases r)
      (auto simp: validate_response_def kind_matches_form_def feedback_answer_def)
qed

theorem answers_match_form_witness:
  "\<exists>i. List.member (iv_settled demo_answered) (i, Answered (RApproval True None)) \<and>
     validate_response i (RApproval True None)"
proof -
  let ?i = "fst (hd (iv_settled demo_answered))"
  have m: "List.member (iv_settled demo_answered) (?i, Answered (RApproval True None))" by code_simp
  with answers_match_form [OF demo_answered_reachable m] show ?thesis by blast
qed

lemma respond_refused_keeps_pending:
  "respond iid c s = Inl e \<Longrightarrow> jget (iv_pending s) iid \<noteq> None"
  by (auto simp: respond_def split: option.splits)

lemma cancel_each_pending:
  "iv_pending (cancel_each reason is s) = fold (\<lambda>i m. jdel (p_id i) m) is (iv_pending s)"
  by (induction "is" arbitrary: s) (simp_all add: settle_def finish_def publish_def)

lemma fold_jdel_get:
  "jget (fold (\<lambda>i m. jdel (p_id i) m) is m) k = (if k \<in> p_id ` set is then None else jget m k)"
  by (induction "is" arbitrary: m) auto

lemma cancel_all_clears:
  assumes "iinv s"
  shows "iv_pending (cancel_all reason s) = []"
proof -
  have "k \<in> p_id ` set (map snd (iv_pending s))" if "jget (iv_pending s) k = Some i" for k i
  proof -
    have "p_id i = k" using assms that by (simp add: iinv_def)
    moreover have "(k, i) \<in> set (iv_pending s)" using that by (rule map_of_SomeD)
    ultimately show ?thesis by force
  qed
  then have "jget (iv_pending (cancel_all reason s)) k = None" for k
    by (cases "jget (iv_pending s) k") (auto simp: cancel_all_def cancel_each_pending fold_jdel_get)
  then have "map_of (iv_pending (cancel_all reason s)) = Map.empty" by (rule ext)
  then show ?thesis by (simp add: map_of_eq_empty_iff)
qed

end
