(* ===== verification/Trust.thy ===== *)
theory Trust
  imports Classification Approval_Grants Scanner Interaction
begin

text \<open>
  \<open>TrustAuthorizer\<close> (\<open>packages/kernel/src/trust-authorizer.ts\<close>): approval policy, data
  classification and scan verdicts combined into one decision that costs at most one prompt.
  \<open>authorize\<close> awaits twice (the grant lookup, then the answer to a prompt), so it is three
  definitions: \<open>authorize_start\<close>, \<open>authorize_decided\<close> after the lookup, and
  \<open>prompt_finish\<close> after the answer.
\<close>

section \<open>Requests and results\<close>

datatype tool_approval = ApAuto | ApAsk | ApDeny

record authorization_request =
  a_plugin :: string
  a_feature :: string
  a_title :: string
  a_approval :: tool_approval
  a_run :: "string option"
  a_session :: "string option"
  a_tool_call :: "string option"
  a_grant :: "string option"
  a_payload :: "data_classification option"
  a_capacity :: "channel_capacity option"
  a_report :: "scan_report option"
  a_used :: bool

record commitment =
  c_run :: "string option"
  c_level :: data_classification
  c_version :: nat

record authorization_result =
  z_allowed :: bool
  z_used :: bool
  z_reasons :: "string list"
  z_commitment :: "commitment option"

definition MODEL_FEATURES :: "string list" where
  "MODEL_FEATURES = [''model_input'', ''model_output'']"

definition MAX_PROMPT_REASONS :: nat where
  "MAX_PROMPT_REASONS = 20"

definition SECOND_PROMPT_REASON :: string where
  "SECOND_PROMPT_REASON = ''One request may only ask you once, so this step was denied instead.''"

definition USER_DENIED_REASON :: string where
  "USER_DENIED_REASON = ''You denied this request.''"

definition grant_key :: "authorization_request \<Rightarrow> approval_grant_key option" where
  "grant_key q =
     (case a_grant q of
        None \<Rightarrow> None
      | Some g \<Rightarrow>
          if g = [] then None
          else Some \<lparr>g_plugin = a_plugin q, g_feature = a_feature q, g_grant = g, g_session = a_session q\<rparr>)"

definition show_action :: "scan_action \<Rightarrow> string" where
  "show_action a = (case a of AllowA \<Rightarrow> ''allow'' | ReviewA \<Rightarrow> ''review'' | BlockA \<Rightarrow> ''block'')"

definition show_coverage :: "scan_coverage \<Rightarrow> string" where
  "show_coverage c = (case c of Complete \<Rightarrow> ''complete'' | Partial \<Rightarrow> ''partial'' | NoCoverage \<Rightarrow> ''none'')"

definition finding_reason :: "scan_report \<Rightarrow> scan_finding \<Rightarrow> string" where
  "finding_reason r f =
     ''Prompt scan '' @ (if f_action f = BlockA then ''blocked'' else ''flagged'') @ '' '' @
     show_stage (r_stage r) @ '' content: '' @ f_reason f @ '' ('' @ f_scanner f @ ''/'' @ f_code f @ '').''"

definition failure_reason :: "scan_report \<Rightarrow> scan_failure \<Rightarrow> string" where
  "failure_reason r x =
     ''Prompt scanner '' @ x_scanner x @ '' '' @ (if x_kind x = FTimeout then ''timed out'' else ''failed'') @
     '', so '' @ show_stage (r_stage r) @ '' coverage is '' @ show_coverage (r_coverage r) @ '': '' @ x_message x"

definition describe_scan :: "scan_report option \<Rightarrow> string list" where
  "describe_scan report =
     (case report of
        None \<Rightarrow> []
      | Some r \<Rightarrow>
          map (finding_reason r) (filter (\<lambda>f. f_action f \<noteq> AllowA) (r_findings r)) @
          map (failure_reason r) (r_failures r) @
          (if r_coverage r = NoCoverage \<and> r_failures r = []
           then [''No prompt scanner covers '' @ show_stage (r_stage r) @ '', so it needs '' @
                 show_action (r_unavailable r) @ ''.'']
           else []))"

definition create_commitment :: "string option \<Rightarrow> classification_snapshot \<Rightarrow> commitment" where
  "create_commitment run snap = \<lparr>c_run = run, c_level = snap_level snap, c_version = snap_version snap\<rparr>"

text \<open>\<open>recheck\<close>: \<open>svc\<close> is the classification service, \<open>None\<close> when there is none.\<close>

definition recheck :: "classification_service option \<Rightarrow> commitment \<Rightarrow> bool" where
  "recheck svc c =
     (case (svc, c_run c) of
        (Some s, Some r) \<Rightarrow>
          snap_version (snapshot (Some r) s) = c_version c \<and> snap_level (snapshot (Some r) s) = c_level c
      | _ \<Rightarrow> True)"

definition build_prompt :: "authorization_request \<Rightarrow> string list \<Rightarrow> string" where
  "build_prompt q reasons =
     (let listed = take MAX_PROMPT_REASONS reasons;
          hidden = length reasons - length listed;
          lines = map (\<lambda>r. ''- '' @ r) listed @
            (if hidden > 0 then [''- and '' @ show_nat hidden @ '' more reason(s).''] else []);
          head = ''Allow this '' @ a_feature q @ '' request to continue?''
      in if lines = [] then head else head @ [CHR 0x0A] @ js_join [CHR 0x0A] lines)"

section \<open>The decision\<close>

datatype decision =
    Final authorization_result
  | NeedPrompt interaction_kind "string list" commitment

definition effective_level :: "authorization_request \<Rightarrow> classification_snapshot \<Rightarrow> data_classification" where
  "effective_level q snap =
     max_classification [case a_payload q of None \<Rightarrow> Public | Some l \<Rightarrow> l, snap_level snap]"

definition policy_reasons :: "authorization_request \<Rightarrow> bool \<Rightarrow> string list" where
  "policy_reasons q granted =
     (if a_approval q = ApDeny then [''Policy denies this '' @ a_feature q @ '' request.'']
      else if a_approval q = ApAsk \<and> \<not> granted
        then [''This '' @ a_feature q @ '' request needs your approval.'']
      else [])"

definition classification_reasons :: "authorization_request \<Rightarrow> data_classification \<Rightarrow> string list" where
  "classification_reasons q effective =
     (case a_capacity q of
        None \<Rightarrow> []
      | Some c \<Rightarrow>
          if exceeds_capacity effective c
          then [show_classification effective @ '' data exceeds the '' @ show_capacity c @
                '' channel ceiling of '' @ show_classification (capacity_ceiling c) @ ''.'']
          else [])"

definition scan_action_of :: "authorization_request \<Rightarrow> scan_action" where
  "scan_action_of q = (case a_report q of None \<Rightarrow> AllowA | Some r \<Rightarrow> scan_report_action r)"

definition is_model_stage :: "authorization_request \<Rightarrow> bool" where
  "is_model_stage q = List.member MODEL_FEATURES (a_feature q)"

definition scan_review :: "authorization_request \<Rightarrow> bool" where
  "scan_review q =
     (scan_action_of q = ReviewA \<and>
      (\<not> is_model_stage q \<or>
       (a_feature q = ''model_input'' \<and>
        (case a_report q of None \<Rightarrow> False
         | Some r \<Rightarrow> list_ex (\<lambda>f. f_action f = ReviewA) (r_findings r)))))"

definition decide :: "authorization_request \<Rightarrow> classification_snapshot \<Rightarrow> bool \<Rightarrow> decision" where
  "decide q snap granted =
     (let effective = effective_level q snap;
          class_reasons = classification_reasons q effective;
          scan_reasons = describe_scan (a_report q);
          reasons = policy_reasons q granted @ class_reasons @ scan_reasons
      in if a_approval q = ApDeny \<or> scan_action_of q = BlockA
         then Final \<lparr>z_allowed = False, z_used = a_used q, z_reasons = reasons, z_commitment = None\<rparr>
         else
           let cm = create_commitment (a_run q) snap;
               policy_ask = (a_approval q = ApAsk \<and> \<not> granted);
               classification_review = (class_reasons \<noteq> [] \<and> \<not> is_model_stage q);
               needs_review = (policy_ask \<or> classification_review \<or> scan_review q)
           in if \<not> needs_review
              then Final \<lparr>z_allowed = True, z_used = a_used q, z_reasons = reasons, z_commitment = Some cm\<rparr>
              else if a_used q
              then Final \<lparr>z_allowed = False, z_used = True,
                          z_reasons = reasons @ [SECOND_PROMPT_REASON], z_commitment = None\<rparr>
              else NeedPrompt
                     (if class_reasons \<noteq> [] \<or> scan_reasons \<noteq> [] then ClassificationReview else ToolApproval)
                     reasons cm)"

section \<open>The authorizer\<close>

text \<open>
  The key under which concurrent identical prompts share one question. \<open>JSON.stringify\<close> of the
  array is injective, so the model keeps the tuple itself.
\<close>

type_synonym flight =
  "interaction_kind \<times> string \<times> string \<times> string option \<times> string option \<times> string option \<times> string list"

definition flight_key :: "interaction_kind \<Rightarrow> authorization_request \<Rightarrow> string list \<Rightarrow> flight" where
  "flight_key kind q reasons =
     (kind, a_plugin q, a_feature q, a_run q, a_session q, a_tool_call q, reasons)"

record trust_authorizer =
  ta_interactions :: interaction_service
  ta_grants :: grant_store
  ta_in_flight :: "(flight, string) jmap"

datatype trust_error = SignalAborted | PromptFailed interaction_error

text \<open>Up to the first await: the abort check and the snapshot of the run.\<close>

definition authorize_start ::
  "authorization_request \<Rightarrow> bool \<Rightarrow> classification_service option \<Rightarrow> trust_error + classification_snapshot" where
  "authorize_start q aborted svc =
     (if aborted then Inl SignalAborted
      else Inr (case svc of None \<Rightarrow> UNCLASSIFIED_SNAPSHOT | Some s \<Rightarrow> snapshot (a_run q) s))"

datatype authorize_outcome =
    Done authorization_result
  | AwaitOwn flight string "string list" commitment
  | AwaitShared string

definition prompt_source :: "authorization_request \<Rightarrow> interaction_source" where
  "prompt_source q =
     \<lparr>src_plugin = a_plugin q, src_feature = a_feature q, src_session = a_session q,
      src_run = a_run q, src_tool_call = a_tool_call q\<rparr>"

text \<open>After the grant lookup: decide, then join a prompt in flight or open one.\<close>

definition authorize_decided ::
  "authorization_request \<Rightarrow> classification_snapshot \<Rightarrow> bool \<Rightarrow> string \<Rightarrow> int \<Rightarrow> bool \<Rightarrow> trust_authorizer
    \<Rightarrow> trust_error + authorize_outcome \<times> trust_authorizer" where
  "authorize_decided q snap granted uuid now aborted s =
     (case decide q snap granted of
        Final r \<Rightarrow> Inr (Done r, s)
      | NeedPrompt kind reasons cm \<Rightarrow>
          let key = flight_key kind q reasons in
          (case jget (ta_in_flight s) key of
             Some iid \<Rightarrow> Inr (AwaitShared iid, s)
           | None \<Rightarrow>
               (case request_safety uuid now aborted kind (a_title q) (build_prompt q reasons)
                       (prompt_source q) None (ta_interactions s) of
                  Inl e \<Rightarrow> Inl (PromptFailed e)
                | Inr (i, iv) \<Rightarrow>
                    Inr (AwaitOwn key (p_id i) reasons cm,
                         s\<lparr>ta_interactions := iv, ta_in_flight := jset key (p_id i) (ta_in_flight s)\<rparr>))))"

definition approval_duration_of :: "duration option \<Rightarrow> approval_duration" where
  "approval_duration_of d =
     (case d of None \<Rightarrow> Once | Some DOnce \<Rightarrow> Once | Some DSession \<Rightarrow> Session | Some DAlways \<Rightarrow> Always)"

definition response_allows :: "interaction_response \<Rightarrow> bool" where
  "response_allows r = (case r of RApproval allow _ \<Rightarrow> allow | _ \<Rightarrow> False)"

definition response_duration :: "interaction_response \<Rightarrow> approval_duration" where
  "response_duration r = (case r of RApproval _ d \<Rightarrow> approval_duration_of d | _ \<Rightarrow> Once)"

text \<open>What an answer makes the grant store remember.\<close>

definition remember_answer ::
  "authorization_request \<Rightarrow> interaction_response \<Rightarrow> grant_store \<Rightarrow> grant_store" where
  "remember_answer q r g =
     (if \<not> response_allows r then g
      else (case grant_key q of
              None \<Rightarrow> g
            | Some k \<Rightarrow> if response_duration r = Once then g else snd (remember k (response_duration r) g)))"

text \<open>After the answer: the result, the remembered grant, and the end of the shared prompt.\<close>

definition prompt_finish ::
  "authorization_request \<Rightarrow> flight \<Rightarrow> string \<Rightarrow> string list \<Rightarrow> commitment \<Rightarrow> interaction_response
    \<Rightarrow> trust_authorizer \<Rightarrow> authorization_result \<times> trust_authorizer" where
  "prompt_finish q key iid reasons cm r s =
     (let s' = s\<lparr>ta_grants := remember_answer q r (ta_grants s),
                 ta_in_flight := (if jget (ta_in_flight s) key = Some iid
                                  then jdel key (ta_in_flight s) else ta_in_flight s)\<rparr>
      in (if response_allows r
          then \<lparr>z_allowed = True, z_used = True, z_reasons = reasons, z_commitment = Some cm\<rparr>
          else \<lparr>z_allowed = False, z_used = True,
                z_reasons = reasons @ [USER_DENIED_REASON], z_commitment = None\<rparr>, s'))"

section \<open>Lemmas\<close>

lemma describe_scan_review:
  "scan_action_of q = ReviewA \<Longrightarrow> a_report q = Some r \<Longrightarrow>
     list_ex (\<lambda>f. f_action f = ReviewA) (r_findings r) \<or> r_coverage r \<noteq> Complete"
  by (auto simp: scan_action_of_def scan_report_action_def split: if_splits)

lemma classification_reasons_empty:
  "classification_reasons q l = [] \<longleftrightarrow> (\<forall>c. a_capacity q = Some c \<longrightarrow> l \<le> capacity_ceiling c)"
  by (auto simp: classification_reasons_def exceeds_capacity_iff not_less split: option.splits)

lemma effective_level_max:
  "effective_level q snap = max (case a_payload q of None \<Rightarrow> Public | Some l \<Rightarrow> l) (snap_level snap)"
  by (simp add: effective_level_def max_classification_two)

section \<open>What the decision should be\<close>

text \<open>Data of a level may go over a channel of a capacity.\<close>

definition fits :: "data_classification \<Rightarrow> channel_capacity \<Rightarrow> bool" where
  "fits l c =
     (case c of
        CapPublic \<Rightarrow> l = Public
      | CapInternal \<Rightarrow> l = Public \<or> l = Internal
      | CapPrivate \<Rightarrow> l \<noteq> Restricted
      | CapLocalOnly \<Rightarrow> True)"

definition has_finding :: "scan_action \<Rightarrow> scan_report \<Rightarrow> bool" where
  "has_finding a r = list_ex (\<lambda>f. f_action f = a) (r_findings r)"

text \<open>A request that is refused whoever asks and whatever was granted.\<close>

definition refused_outright :: "authorization_request \<Rightarrow> bool" where
  "refused_outright q \<longleftrightarrow>
     a_approval q = ApDeny \<or>
     (case a_report q of
        None \<Rightarrow> False
      | Some r \<Rightarrow>
          has_finding BlockA r \<or>
          (\<not> has_finding ReviewA r \<and> r_coverage r \<noteq> Complete \<and> r_unavailable r = BlockA))"

text \<open>
  A report that needs no review: what a model says is only ever blocked, what it is told is reviewed
  for its findings alone, and anything else also when the scan did not cover it.
\<close>

definition report_passes :: "string \<Rightarrow> scan_report \<Rightarrow> bool" where
  "report_passes feature r \<longleftrightarrow>
     feature = ''model_output'' \<or>
     (\<not> has_finding ReviewA r \<and>
      (feature = ''model_input'' \<or> r_coverage r = Complete \<or> r_unavailable r \<noteq> ReviewA))"

text \<open>A request that passes without asking.\<close>

definition passes_silently :: "authorization_request \<Rightarrow> classification_snapshot \<Rightarrow> bool \<Rightarrow> bool" where
  "passes_silently q snap granted \<longleftrightarrow>
     \<not> refused_outright q \<and> (a_approval q = ApAuto \<or> granted) \<and>
     (case a_report q of None \<Rightarrow> True | Some r \<Rightarrow> report_passes (a_feature q) r) \<and>
     (a_feature q = ''model_input'' \<or> a_feature q = ''model_output'' \<or>
      (case a_capacity q of
         None \<Rightarrow> True
       | Some c \<Rightarrow> fits (snap_level snap) c \<and> (case a_payload q of None \<Rightarrow> True | Some l \<Rightarrow> fits l c)))"

lemma fits_iff: "fits l c \<longleftrightarrow> l \<le> capacity_ceiling c"
  by (cases c; cases l)
    (simp_all add: fits_def capacity_ceiling_def CAPACITY_CEILINGS_def classification_order_defs)

lemma refused_iff: "refused_outright q \<longleftrightarrow> a_approval q = ApDeny \<or> scan_action_of q = BlockA"
  by (auto simp: refused_outright_def has_finding_def scan_action_of_def scan_report_action_def split: option.split)

lemma report_passes_iff:
  "a_report q = Some r \<Longrightarrow> scan_action_of q \<noteq> BlockA \<Longrightarrow> report_passes (a_feature q) r \<longleftrightarrow> \<not> scan_review q"
  by (auto simp: report_passes_def has_finding_def scan_review_def is_model_stage_def MODEL_FEATURES_def
      scan_action_of_def scan_report_action_def split: if_splits)

lemma class_passes_iff:
  "(case a_capacity q of
      None \<Rightarrow> True
    | Some c \<Rightarrow> fits (snap_level snap) c \<and> (case a_payload q of None \<Rightarrow> True | Some l \<Rightarrow> fits l c)) \<longleftrightarrow>
   classification_reasons q (effective_level q snap) = []"
  by (auto simp: classification_reasons_empty effective_level_max fits_iff split: option.split)

lemma model_stage_iff: "is_model_stage q \<longleftrightarrow> a_feature q = ''model_input'' \<or> a_feature q = ''model_output''"
  by (simp add: is_model_stage_def MODEL_FEATURES_def)

lemma passes_iff:
  "passes_silently q snap granted \<longleftrightarrow>
     a_approval q \<noteq> ApDeny \<and> scan_action_of q \<noteq> BlockA \<and> (a_approval q = ApAsk \<longrightarrow> granted) \<and> \<not> scan_review q \<and>
     (is_model_stage q \<or> classification_reasons q (effective_level q snap) = [])"
proof (cases "scan_action_of q = BlockA \<or> a_approval q = ApDeny")
  case False
  have "a_approval q = ApAuto \<or> granted \<longleftrightarrow> (a_approval q = ApAsk \<longrightarrow> granted)"
    using False by (cases "a_approval q") simp_all
  moreover have "(case a_report q of None \<Rightarrow> True | Some r \<Rightarrow> report_passes (a_feature q) r) \<longleftrightarrow> \<not> scan_review q"
    using False report_passes_iff by (cases "a_report q") (simp_all add: scan_review_def scan_action_of_def)
  ultimately show ?thesis
    using False by (simp add: passes_silently_def refused_iff class_passes_iff model_stage_iff disj_assoc)
qed (auto simp: passes_silently_def refused_iff)

lemma decide_silent: "(\<exists>r. decide q snap granted = Final r \<and> z_allowed r) = passes_silently q snap granted"
  unfolding decide_def passes_iff Let_def by auto

lemma decide_asks:
  "(\<exists>kind reasons cm. decide q snap granted = NeedPrompt kind reasons cm) =
     (\<not> refused_outright q \<and> \<not> passes_silently q snap granted \<and> \<not> a_used q)"
  unfolding decide_def passes_iff refused_iff Let_def by auto

lemma remember_answer_fold:
  "remember_answer q r g =
     (case grant_key q of None \<Rightarrow> g
      | Some k \<Rightarrow> if response_allows r \<and> response_duration r \<noteq> Once
                 then fold (\<lambda>(g, d) s. snd (remember g d s)) [(k, response_duration r)] g else g)"
  by (simp add: remember_answer_def split: option.split)

section \<open>Properties\<close>

text \<open>
  C10: the decision in full. A request is allowed without a prompt exactly when policy does not deny
  it, an "ask" is already granted, the scan neither blocks nor calls for a review at its stage, and
  outside the model stages the run's level and the level of the payload both fit the channel; the
  user is asked exactly when it is neither that nor refused outright (by policy or a blocking scan), and
  has not been asked before. All else is refused.
\<close>

theorem decision_exact:
  "(\<exists>r. decide q snap granted = Final r \<and> z_allowed r) = passes_silently q snap granted \<and>
   (\<exists>kind reasons cm. decide q snap granted = NeedPrompt kind reasons cm) =
     (\<not> refused_outright q \<and> \<not> passes_silently q snap granted \<and> \<not> a_used q)"
  using decide_silent decide_asks by blast

text \<open>
  A request that policy denies or a scan blocks is refused without asking the user, whatever
  was granted before.
\<close>

theorem deny_never_prompts:
  assumes "a_approval q = ApDeny \<or> scan_action_of q = BlockA"
  shows "\<exists>r. authorize_decided q snap granted uuid now ab s = Inr (Done r, s) \<and> \<not> z_allowed r"
  using assms by (auto simp: authorize_decided_def decide_def Let_def)

definition demo_request :: authorization_request where
  "demo_request = \<lparr>a_plugin = ''borg.chat'', a_feature = ''tool'', a_title = ''Approve fs.read'',
     a_approval = ApDeny, a_run = Some ''r'', a_session = Some ''s1'', a_tool_call = Some ''c1'',
     a_grant = Some ''fs.read'', a_payload = Some Confidential, a_capacity = Some CapInternal,
     a_report = None, a_used = False\<rparr>"

definition demo_authorizer :: trust_authorizer where
  "demo_authorizer = \<lparr>ta_interactions = new_interaction_service,
     ta_grants = new_grant_store None, ta_in_flight = []\<rparr>"

theorem deny_never_prompts_witness:
  "\<exists>r. authorize_decided demo_request UNCLASSIFIED_SNAPSHOT True ''u'' 0 False demo_authorizer
     = Inr (Done r, demo_authorizer) \<and> \<not> z_allowed r"
  by (rule deny_never_prompts) (simp add: demo_request_def)

text \<open>
  One request costs at most one prompt. When the request already used its interaction, the
  authorizer opens no prompt and joins none: the decision is final, and it is an allow only when
  nothing had to be asked.
\<close>

theorem at_most_one_prompt:
  assumes "a_used q"
  shows "\<exists>r. authorize_decided q snap granted uuid now ab s = Inr (Done r, s) \<and> z_used r \<and>
     (z_allowed r \<longleftrightarrow> passes_silently q snap granted)"
proof -
  have "\<exists>r. decide q snap granted = Final r \<and> z_used r"
    using assms by (simp add: decide_def Let_def)
  then obtain r where r: "decide q snap granted = Final r" and u: "z_used r" by blast
  then have "z_allowed r = passes_silently q snap granted"
    using decide_silent [of q snap granted] by auto
  with r u show ?thesis by (simp add: authorize_decided_def)
qed

theorem at_most_one_prompt_witness:
  "\<exists>r. authorize_decided (demo_request\<lparr>a_approval := ApAsk, a_used := True\<rparr>) UNCLASSIFIED_SNAPSHOT
     False ''u'' 0 False demo_authorizer = Inr (Done r, demo_authorizer) \<and> z_used r \<and>
     (z_allowed r \<longleftrightarrow> passes_silently (demo_request\<lparr>a_approval := ApAsk, a_used := True\<rparr>)
        UNCLASSIFIED_SNAPSHOT False)"
  by (rule at_most_one_prompt) simp

text \<open>
  C11: nothing is granted that the user did not grant. After any sequence of answers, a grant the
  store gives was given before, or some answer allowed a request of the same scope for longer than
  once.
\<close>

theorem grants_only_from_answers:
  assumes "gs_loaded g"
    and "has_now h (fold (\<lambda>(q, r). remember_answer q r) answers g)"
  shows "has_now h g \<or> list_ex (\<lambda>(q, r). response_allows r \<and> response_duration r \<noteq> Once \<and>
     (\<exists>k. grant_key q = Some k \<and> grant_scope k h)) answers"
  using assms
proof (induction answers arbitrary: g)
  case (Cons p answers)
  obtain q r where p: "p = (q, r)" by (cases p)
  have ready: "gs_loaded (remember_answer q r g)"
    using Cons.prems(1) grants.fold_ready [of g "[(the (grant_key q), response_duration r)]"]
    by (cases "grant_key q") (simp_all add: remember_answer_fold)
  have step: "has_now h (remember_answer q r g) \<Longrightarrow> has_now h g \<or>
      (response_allows r \<and> response_duration r \<noteq> Once \<and> (\<exists>k. grant_key q = Some k \<and> grant_scope k h))"
    using grants.fold_grants_sound [OF Cons.prems(1), of h "[(the (grant_key q), response_duration r)]"]
    by (cases "grant_key q") (auto simp: remember_answer_fold split: if_splits)
  from Cons.IH [OF ready] Cons.prems(2) step show ?case by (auto simp: p)
qed simp

theorem grants_only_from_answers_witness:
  "list_ex (\<lambda>(q, r). response_allows r \<and> response_duration r \<noteq> Once \<and>
     (\<exists>k. grant_key q = Some k \<and> grant_scope k (the (grant_key demo_request))))
     [(demo_request, RApproval True (Some DSession))]"
proof -
  let ?g = "(new_grant_store None)\<lparr>gs_loaded := True\<rparr>"
  have a: "gs_loaded ?g" by simp
  have b: "has_now (the (grant_key demo_request))
      (fold (\<lambda>(q, r). remember_answer q r) [(demo_request, RApproval True (Some DSession))] ?g)"
    by (simp add: remember_answer_def response_allows_def response_duration_def approval_duration_of_def
        grant_key_def demo_request_def remember_def remember_now_def has_now_def session_key_def
        ensure_loaded_def ensure_loaded_start_def new_grant_store_def)
  have c: "\<not> has_now (the (grant_key demo_request)) ?g"
    by (simp add: has_now_def new_grant_store_def split: option.split)
  show ?thesis using grants_only_from_answers [OF a b] c by blast
qed

text \<open>two requests that agree on plugin, feature, run, session, tool call and reasons wait for one
  answer even if they name different grants: while the first one's prompt is open, the second joins
  it, and the question asked names only the first.
\<close>

theorem shared_prompt_ignores_grant:
  assumes "decide q snap granted = NeedPrompt kind reasons cm"
    and "authorize_decided q snap granted uuid now False s = Inr (AwaitOwn key iid reasons cm, s1)"
    and "a_used q' = a_used q \<and> a_plugin q' = a_plugin q \<and> a_feature q' = a_feature q \<and> a_run q' = a_run q \<and>
      a_session q' = a_session q \<and> a_tool_call q' = a_tool_call q"
    and "decide q' snap granted' = NeedPrompt kind reasons cm'"
  shows "authorize_decided q' snap granted' uuid' now' ab' s1 = Inr (AwaitShared iid, s1)"
  using assms
  by (auto simp: authorize_decided_def Let_def flight_key_def split: option.splits sum.splits)

definition ask_request :: "string \<Rightarrow> authorization_request" where
  "ask_request g = \<lparr>a_plugin = ''borg.chat'', a_feature = ''tool'', a_title = ''Approve fs.read'',
     a_approval = ApAsk, a_run = None, a_session = None, a_tool_call = None,
     a_grant = Some g, a_payload = None, a_capacity = None, a_report = None, a_used = False\<rparr>"

lemma decide_ask:
  "a_approval q = ApAsk \<Longrightarrow> a_capacity q = None \<Longrightarrow> a_report q = None \<Longrightarrow> \<not> a_used q \<Longrightarrow>
   decide q snap False =
     NeedPrompt ToolApproval (policy_reasons q False) (create_commitment (a_run q) snap)"
  by (simp add: decide_def Let_def classification_reasons_def describe_scan_def scan_action_of_def)

lemma request_safety_opens:
  "title \<noteq> [] \<Longrightarrow> prompt \<noteq> [] \<Longrightarrow> source_ok src \<Longrightarrow> kind \<noteq> HumanInput \<Longrightarrow>
   \<exists>i iv'. request_safety uuid now False kind title prompt src None iv = Inr (i, iv') \<and> p_id i = uuid"
  by (simp add: request_safety_def create_interaction_def timeout_ok_def choices_match_def
      kind_matches_form_def interaction_schema_ok_def Let_def)

lemma build_prompt_nonempty: "build_prompt q reasons \<noteq> []"
  by (simp add: build_prompt_def Let_def)

theorem shared_prompt_ignores_grant_witness:
  "\<exists>s1. authorize_decided (ask_request ''fs.write'') UNCLASSIFIED_SNAPSHOT False ''u2'' 1 False s1
     = Inr (AwaitShared ''u1'', s1)"
proof -
  let ?snap = "UNCLASSIFIED_SNAPSHOT"
  let ?q = "ask_request ''fs.read''" and ?q' = "ask_request ''fs.write''"
  have d: "decide (ask_request g) ?snap False =
      NeedPrompt ToolApproval (policy_reasons ?q False) (create_commitment None ?snap)" for g
    by (subst decide_ask) (simp_all add: ask_request_def policy_reasons_def)
  have "source_ok (prompt_source ?q)" and "a_title ?q \<noteq> []"
    by (simp_all add: prompt_source_def ask_request_def source_ok_def opt_nonempty_def)
  then obtain i iv' where r: "request_safety ''u1'' 0 False ToolApproval (a_title ?q)
      (build_prompt ?q (policy_reasons ?q False)) (prompt_source ?q) None new_interaction_service
      = Inr (i, iv')" and i: "p_id i = ''u1''"
    using request_safety_opens build_prompt_nonempty by (metis interaction_kind.distinct)
  have o: "authorize_decided ?q ?snap False ''u1'' 0 False demo_authorizer =
      Inr (AwaitOwn (flight_key ToolApproval ?q (policy_reasons ?q False)) ''u1''
        (policy_reasons ?q False) (create_commitment None ?snap),
        demo_authorizer\<lparr>ta_interactions := iv', ta_in_flight :=
          jset (flight_key ToolApproval ?q (policy_reasons ?q False)) ''u1'' []\<rparr>)"
    unfolding authorize_decided_def d
    by (simp add: demo_authorizer_def r i Let_def del: AList.update.simps)
  have same: "a_used ?q' = a_used ?q \<and> a_plugin ?q' = a_plugin ?q \<and> a_feature ?q' = a_feature ?q \<and>
      a_run ?q' = a_run ?q \<and> a_session ?q' = a_session ?q \<and> a_tool_call ?q' = a_tool_call ?q"
    by (simp add: ask_request_def)
  show ?thesis using shared_prompt_ignores_grant [OF d o same d] by blast
qed

lemma recheck_detects_raise:
  assumes "recheck (Some s) c" and "c_run c = Some r" and "snapshot (Some r) s' \<noteq> snapshot (Some r) s"
  shows "\<not> recheck (Some s') c"
  using assms by (auto simp: recheck_def)

end
