(* ===== verification/Execution_Security.thy ===== *)
theory Execution_Security
  imports Classification Approval_Grants Regex
begin

text \<open>
  \<open>ExecutionSecurityService\<close> (\<open>packages/kernel/src/execution-security.ts\<close>): the durable
  security context of every execution, its classification, bounded provenance, lifecycle, and how
  a child's result flows back to its parent. \<open>#mutate\<close> runs the mutating operations one
  after the other, so each is one atomic step of the model.

  Outside of the model: SHA-256 is the argument \<open>sha\<close>; fresh UUIDs and the current time are
  arguments; the format checks of UUIDs and timestamps are not repeated. The namespace
  \<open>kernel.execution-security\<close> is kept as two maps, one per key prefix.
\<close>

section \<open>Data\<close>

record execution_subject =
  sj_kind :: string
  sj_id :: string

datatype result_flow = MergeToParent | Detached

datatype seed_relation = RelParent | RelChildResult | RelRetryOf

datatype provenance_seed =
    SeedUser string
  | SeedChannel string string
  | SeedPlugin string
  | SeedLegacy string
  | SeedExecution string seed_relation

record security_observation =
  ob_id :: string
  ob_class :: data_classification
  ob_source :: provenance_seed
  ob_reason :: string
  ob_at :: string

datatype prov_overflow = CompleteP | Truncated nat string

record bounded_provenance =
  bp_recent :: "security_observation list"
  bp_overflow :: prov_overflow

datatype close_outcome = Completed | Failed | CancelledO | Interrupted | Deleted

datatype lifecycle = OpenL | ClosedL close_outcome string string

datatype binding_fingerprint =
    RootBinding data_classification provenance_seed
  | ChildBinding string string

record execution_context =
  x_id :: string
  x_root :: string
  x_binding :: binding_fingerprint
  x_owner :: string
  x_subject :: execution_subject
  x_parent :: "string option"
  x_class :: data_classification
  x_revision :: nat
  x_lifecycle :: lifecycle
  x_flow :: result_flow
  x_prov :: bounded_provenance
  x_imported :: "string list"
  x_created :: string
  x_updated :: string

record execution_summary =
  es_id :: string
  es_root :: string
  es_owner :: string
  es_subject :: execution_subject
  es_parent :: "string option"
  es_class :: data_classification
  es_revision :: nat
  es_lifecycle :: lifecycle

record parent_grant =
  pg_parent :: string
  pg_grantee :: string
  pg_used :: bool

text \<open>
  The service: contexts by id, the subject index by its key, and the grants handed out by the
  identity of the grant object (a \<open>WeakMap\<close>).
\<close>

record execution_service =
  xs_contexts :: "(string, execution_context) jmap"
  xs_subjects :: "(string, string) jmap"
  xs_grants :: "(nat, parent_grant) jmap"
  xs_next :: nat

datatype execution_error =
    InvalidInput
  | NoBindIntent
  | NoSuchExecution
  | NotOwner
  | AlreadyClosed
  | ClosedWith close_outcome
  | GrantInvalid
  | WrongGrantee
  | BoundDifferently
  | IndexInconsistent
  | NotDetachedChild

definition new_execution_service :: execution_service where
  "new_execution_service = \<lparr>xs_contexts = [], xs_subjects = [], xs_grants = [], xs_next = 0\<rparr>"

section \<open>Input schemas\<close>

definition owner_ok :: "string \<Rightarrow> bool" where
  "owner_ok p = (1 \<le> length p \<and> length p \<le> 200)"

definition id240_ok :: "string \<Rightarrow> bool" where
  "id240_ok i = (1 \<le> length i \<and> length i \<le> 240)"

definition subject_kind_rx :: rx where
  "subject_kind_rx = RSeq (RCls is_lower_c) (RStar (RCls lower_digit_dash))"

definition subject_ok :: "execution_subject \<Rightarrow> bool" where
  "subject_ok s = (length (sj_kind s) \<le> 80 \<and> rx_match subject_kind_rx (sj_kind s) \<and> id240_ok (sj_id s))"

definition seed_ok :: "provenance_seed \<Rightarrow> bool" where
  "seed_ok d =
     (case d of
        SeedUser i \<Rightarrow> id240_ok i
      | SeedChannel i m \<Rightarrow> id240_ok i \<and> id240_ok m
      | SeedPlugin i \<Rightarrow> id240_ok i
      | SeedLegacy i \<Rightarrow> id240_ok i
      | SeedExecution _ _ \<Rightarrow> True)"

definition exec_reason_ok :: "string \<Rightarrow> bool" where
  "exec_reason_ok r = (1 \<le> length r \<and> length r \<le> 512)"

section \<open>Provenance\<close>

definition MAX_PROVENANCE_OBSERVATIONS :: nat where
  "MAX_PROVENANCE_OBSERVATIONS = 64"

type_synonym digest = "security_observation \<times> string option \<Rightarrow> string"

definition append_observation :: "digest \<Rightarrow> bounded_provenance \<Rightarrow> security_observation \<Rightarrow> bounded_provenance" where
  "append_observation sha p ob =
     (let recent = bp_recent p @ [ob] in
      if length recent \<le> MAX_PROVENANCE_OBSERVATIONS
      then \<lparr>bp_recent = recent, bp_overflow = bp_overflow p\<rparr>
      else let removed = hd recent in
        \<lparr>bp_recent = tl recent,
         bp_overflow =
           (case bp_overflow p of
              Truncated n d \<Rightarrow> Truncated (n + 1) (sha (removed, Some d))
            | CompleteP \<Rightarrow> Truncated 1 (sha (removed, None)))\<rparr>)"

definition summary_of :: "execution_context \<Rightarrow> execution_summary" where
  "summary_of c =
     \<lparr>es_id = x_id c, es_root = x_root c, es_owner = x_owner c, es_subject = x_subject c,
      es_parent = x_parent c, es_class = x_class c, es_revision = x_revision c,
      es_lifecycle = x_lifecycle c\<rparr>"

definition is_closed :: "execution_context \<Rightarrow> bool" where
  "is_closed c = (case x_lifecycle c of OpenL \<Rightarrow> False | ClosedL _ _ _ \<Rightarrow> True)"

definition observe_context ::
  "digest \<Rightarrow> execution_context \<Rightarrow> data_classification \<Rightarrow> provenance_seed \<Rightarrow> string \<Rightarrow> string \<Rightarrow> string
    \<Rightarrow> execution_error + execution_context" where
  "observe_context sha c cl src reason oid now =
     (if is_closed c then Inl AlreadyClosed
      else
        let ob = \<lparr>ob_id = oid, ob_class = cl, ob_source = src, ob_reason = reason, ob_at = now\<rparr>;
            raises = x_class c < cl in
        Inr (c\<lparr>x_class := (if raises then cl else x_class c),
               x_revision := (if raises then x_revision c + 1 else x_revision c),
               x_prov := append_observation sha (x_prov c) ob,
               x_updated := now\<rparr>))"

section \<open>Keys and lookups\<close>

definition subject_key :: "string \<Rightarrow> execution_subject \<Rightarrow> string" where
  "subject_key owner s =
     js_join ''/'' [''subjects'', encode_uri_component owner, encode_uri_component (sj_kind s),
                    encode_uri_component (sj_id s)]"

definition load_context :: "string \<Rightarrow> execution_service \<Rightarrow> execution_error + execution_context" where
  "load_context i s = (case jget (xs_contexts s) i of None \<Rightarrow> Inl NoSuchExecution | Some c \<Rightarrow> Inr c)"

definition snapshot_exec :: "string \<Rightarrow> string \<Rightarrow> execution_service \<Rightarrow> execution_error + execution_context" where
  "snapshot_exec owner i s =
     (if \<not> owner_ok owner then Inl InvalidInput
      else rbind (load_context i s) (\<lambda>c. if x_owner c \<noteq> owner then Inl NotOwner else Inr c))"

definition summary_exec :: "string \<Rightarrow> string \<Rightarrow> execution_service \<Rightarrow> execution_error + execution_summary" where
  "summary_exec owner i s = rbind (snapshot_exec owner i s) (\<lambda>c. Inr (summary_of c))"

definition find_by_subject ::
  "string \<Rightarrow> execution_subject \<Rightarrow> execution_service \<Rightarrow> execution_error + execution_context option" where
  "find_by_subject owner sj s =
     (case jget (xs_subjects s) (subject_key owner sj) of
        None \<Rightarrow> Inr None
      | Some i \<Rightarrow>
          rbind (load_context i s) (\<lambda>c.
            if x_owner c \<noteq> owner \<or> sj_kind (x_subject c) \<noteq> sj_kind sj \<or> sj_id (x_subject c) \<noteq> sj_id sj
            then Inl IndexInconsistent else Inr (Some c)))"

definition put_context :: "execution_context \<Rightarrow> execution_service \<Rightarrow> execution_service" where
  "put_context c s = s\<lparr>xs_contexts := jset (x_id c) c (xs_contexts s)\<rparr>"

section \<open>Binding\<close>

datatype bind_intent =
    RootIntent execution_subject data_classification provenance_seed
  | ResumeIntent string
  | ChildIntent execution_subject "nat option"

definition fresh_context ::
  "string \<Rightarrow> string \<Rightarrow> binding_fingerprint \<Rightarrow> string \<Rightarrow> execution_subject \<Rightarrow> string option
    \<Rightarrow> data_classification \<Rightarrow> result_flow \<Rightarrow> security_observation \<Rightarrow> string \<Rightarrow> execution_context" where
  "fresh_context i rt b owner sj parent cl flow ob now =
     \<lparr>x_id = i, x_root = rt, x_binding = b, x_owner = owner, x_subject = sj, x_parent = parent,
      x_class = cl, x_revision = 1, x_lifecycle = OpenL, x_flow = flow,
      x_prov = \<lparr>bp_recent = [ob], bp_overflow = CompleteP\<rparr>, x_imported = [],
      x_created = now, x_updated = now\<rparr>"

text \<open>\<open>#bindNew\<close>. A rebinding of the same subject must state the same root security.\<close>

definition bind_new ::
  "string \<Rightarrow> execution_subject \<Rightarrow> data_classification \<Rightarrow> provenance_seed \<Rightarrow> result_flow
    \<Rightarrow> string \<Rightarrow> string \<Rightarrow> string \<Rightarrow> execution_service \<Rightarrow> execution_error + string \<times> execution_service" where
  "bind_new owner sj cl seed flow uuid oid now s =
     rbind (find_by_subject owner sj s) (\<lambda>existing.
       case existing of
         Some c \<Rightarrow>
           (if x_binding c = RootBinding cl seed \<and> x_flow c = flow
            then Inr (x_id c, s) else Inl BoundDifferently)
       | None \<Rightarrow>
           let ob = \<lparr>ob_id = oid, ob_class = cl, ob_source = seed,
                     ob_reason = ''Execution root classification'', ob_at = now\<rparr>;
               c = fresh_context uuid uuid (RootBinding cl seed) owner sj None cl flow ob now
           in Inr (uuid, put_context c (s\<lparr>xs_subjects := jset (subject_key owner sj) uuid (xs_subjects s)\<rparr>)))"

definition use_grant :: "nat \<Rightarrow> execution_service \<Rightarrow> execution_service" where
  "use_grant t s =
     (case jget (xs_grants s) t of
        None \<Rightarrow> s
      | Some g \<Rightarrow> s\<lparr>xs_grants := jset t (g\<lparr>pg_used := True\<rparr>) (xs_grants s)\<rparr>)"

text \<open>\<open>#bindChild\<close>: \<open>None\<close> stands for a \<open>parent\<close> that is no object.\<close>

definition bind_child ::
  "string \<Rightarrow> execution_subject \<Rightarrow> nat option \<Rightarrow> result_flow \<Rightarrow> string \<Rightarrow> string \<Rightarrow> string
    \<Rightarrow> execution_service \<Rightarrow> execution_error + string \<times> execution_service" where
  "bind_child owner sj grant flow uuid oid now s =
     (case grant of
        None \<Rightarrow> Inl GrantInvalid
      | Some t \<Rightarrow>
        (case jget (xs_grants s) t of
           None \<Rightarrow> Inl GrantInvalid
         | Some g \<Rightarrow>
             if pg_used g then Inl GrantInvalid
             else if pg_grantee g \<noteq> owner then Inl WrongGrantee
             else
               rbind (load_context (pg_parent g) s) (\<lambda>parent.
               rbind (find_by_subject owner sj s) (\<lambda>existing.
                 case existing of
                   Some c \<Rightarrow>
                     (if x_binding c = ChildBinding (x_id parent) (x_root parent) \<and> x_flow c = flow
                      then Inr (x_id c, use_grant t s) else Inl BoundDifferently)
                 | None \<Rightarrow>
                     let ob = \<lparr>ob_id = oid, ob_class = x_class parent,
                               ob_source = SeedExecution (x_id parent) RelParent,
                               ob_reason = ''Forked from parent execution '' @ x_id parent, ob_at = now\<rparr>;
                         c = fresh_context uuid (x_root parent)
                               (ChildBinding (x_id parent) (x_root parent)) owner sj
                               (Some (x_id parent)) (x_class parent) flow ob now
                     in Inr (uuid, use_grant t (put_context c
                          (s\<lparr>xs_subjects := jset (subject_key owner sj) uuid (xs_subjects s)\<rparr>)))))))"

definition resume_exec :: "string \<Rightarrow> string \<Rightarrow> execution_service \<Rightarrow> execution_error + string \<times> execution_service" where
  "resume_exec owner i s = rbind (snapshot_exec owner i s) (\<lambda>c. Inr (x_id c, s))"

text \<open>\<open>bind\<close>: the first schema that accepts the candidate decides.\<close>

definition bind_exec ::
  "string \<Rightarrow> bind_intent \<Rightarrow> result_flow \<Rightarrow> string \<Rightarrow> string \<Rightarrow> string \<Rightarrow> execution_service
    \<Rightarrow> execution_error + string \<times> execution_service" where
  "bind_exec owner intent flow uuid oid now s =
     (if \<not> owner_ok owner then Inl InvalidInput
      else
        case intent of
          RootIntent sj cl seed \<Rightarrow>
            if subject_ok sj \<and> seed_ok seed then bind_new owner sj cl seed flow uuid oid now s
            else Inl NoBindIntent
        | ResumeIntent i \<Rightarrow> resume_exec owner i s
        | ChildIntent sj grant \<Rightarrow>
            if subject_ok sj then bind_child owner sj grant flow uuid oid now s else Inl NoBindIntent)"

definition create_parent_grant ::
  "string \<Rightarrow> string \<Rightarrow> execution_service \<Rightarrow> execution_error + nat \<times> execution_service" where
  "create_parent_grant parent grantee s =
     (if \<not> owner_ok grantee then Inl InvalidInput
      else rbind (load_context parent s) (\<lambda>_.
        let t = xs_next s in
        Inr (t, s\<lparr>xs_grants := jset t \<lparr>pg_parent = parent, pg_grantee = grantee, pg_used = False\<rparr> (xs_grants s),
                  xs_next := Suc t\<rparr>)))"

section \<open>Operations on a bound execution\<close>

definition observe_exec ::
  "digest \<Rightarrow> string \<Rightarrow> string \<Rightarrow> data_classification \<Rightarrow> provenance_seed \<Rightarrow> string \<Rightarrow> string \<Rightarrow> string
    \<Rightarrow> execution_service \<Rightarrow> execution_error + execution_summary \<times> execution_service" where
  "observe_exec sha owner i cl seed reason oid now s =
     (if \<not> (seed_ok seed \<and> exec_reason_ok reason) then Inl InvalidInput
      else
        rbind (snapshot_exec owner i s) (\<lambda>c.
        rbind (observe_context sha c cl seed reason oid now) (\<lambda>c'.
        Inr (summary_of c', put_context c' s))))"

text \<open>
  \<open>commitIfCurrent\<close>: \<open>Some\<close> with the value of the operation when the revision is still the
  expected one. The operation runs while no other mutation can.
\<close>

definition commit_if_current ::
  "string \<Rightarrow> string \<Rightarrow> int \<Rightarrow> (execution_summary \<Rightarrow> 'r) \<Rightarrow> execution_service \<Rightarrow> execution_error + 'r option" where
  "commit_if_current owner i expected run s =
     (if expected \<le> 0 then Inl InvalidInput
      else
        rbind (snapshot_exec owner i s) (\<lambda>c.
          if is_closed c then Inl AlreadyClosed
          else if int (x_revision c) \<noteq> expected then Inr None
          else Inr (Some (run (summary_of c)))))"

definition close_exec ::
  "digest \<Rightarrow> string \<Rightarrow> string \<Rightarrow> close_outcome \<Rightarrow> string \<Rightarrow> string \<Rightarrow> string \<Rightarrow> execution_service
    \<Rightarrow> execution_error + execution_summary \<times> execution_service" where
  "close_exec sha owner i outcome reason oid now s =
     (if \<not> exec_reason_ok reason then Inl InvalidInput
      else
        rbind (snapshot_exec owner i s) (\<lambda>c.
          case x_lifecycle c of
            ClosedL o1 _ _ \<Rightarrow> if o1 \<noteq> outcome then Inl (ClosedWith o1) else Inr (summary_of c, s)
          | OpenL \<Rightarrow>
              let closed = c\<lparr>x_lifecycle := ClosedL outcome reason now, x_updated := now\<rparr> in
              (case x_parent closed of
                 None \<Rightarrow> Inr (summary_of closed, put_context closed s)
               | Some p \<Rightarrow>
                   if x_flow closed = Detached then Inr (summary_of closed, put_context closed s)
                   else
                     rbind (load_context p s) (\<lambda>parent.
                     rbind (observe_context sha parent (x_class closed)
                              (SeedExecution (x_id closed) RelChildResult)
                              (''Merged completed child execution '' @ x_id closed) oid now) (\<lambda>merged.
                     Inr (summary_of closed, put_context merged (put_context closed s)))))))"

definition import_detached ::
  "digest \<Rightarrow> string \<Rightarrow> string \<Rightarrow> string \<Rightarrow> string \<Rightarrow> string \<Rightarrow> execution_service
    \<Rightarrow> execution_error + execution_summary \<times> execution_service" where
  "import_detached sha owner pid cid oid now s =
     rbind (snapshot_exec owner pid s) (\<lambda>parent.
       if is_closed parent then Inl AlreadyClosed
       else if List.member (x_imported parent) cid then Inr (summary_of parent, s)
       else
         rbind (load_context cid s) (\<lambda>child.
           if x_parent child \<noteq> Some (x_id parent) \<or> x_flow child \<noteq> Detached \<or> \<not> is_closed child
           then Inl NotDetachedChild
           else
             rbind (observe_context sha parent (x_class child)
                      (SeedExecution (x_id child) RelChildResult)
                      (''Imported detached child execution '' @ x_id child) oid now) (\<lambda>ob.
             let updated = ob\<lparr>x_imported := x_imported ob @ [x_id child]\<rparr> in
             Inr (summary_of updated, put_context updated s))))"

section \<open>The abstract specification\<close>

text \<open>
  What the operations do to the contexts, as a transition relation on a finite map: a context is
  created open, observes, closes, closes and merges into its open parent, or takes the result of a
  closed detached child. The invariants are proved for this relation and every operation of the
  service is shown to refine it.
\<close>

type_synonym contexts = "string \<rightharpoonup> execution_context"

definition close_context :: "execution_context \<Rightarrow> close_outcome \<Rightarrow> string \<Rightarrow> string \<Rightarrow> execution_context" where
  "close_context c outcome reason now =
     c\<lparr>x_lifecycle := ClosedL outcome reason now, x_updated := now\<rparr>"

definition born_ok :: "contexts \<Rightarrow> execution_context \<Rightarrow> bool" where
  "born_ok m c \<longleftrightarrow> \<not> is_closed c \<and> x_revision c = 1 \<and> x_imported c = [] \<and>
     length (bp_recent (x_prov c)) = 1 \<and> bp_overflow (x_prov c) = CompleteP \<and>
     (case x_parent c of
        None \<Rightarrow> x_root c = x_id c
      | Some p \<Rightarrow> (\<exists>pc. m p = Some pc \<and> x_class c = x_class pc \<and> x_root c = x_root pc))"

inductive evolves :: "digest \<Rightarrow> contexts \<Rightarrow> contexts \<Rightarrow> bool" for sha where
  ev_new: "m (x_id c) = None \<Longrightarrow> born_ok m c \<Longrightarrow> evolves sha m (m(x_id c \<mapsto> c))"
| ev_observe: "m i = Some c \<Longrightarrow> observe_context sha c cl seed r oid now = Inr c' \<Longrightarrow>
     evolves sha m (m(i \<mapsto> c'))"
| ev_close: "m i = Some c \<Longrightarrow> \<not> is_closed c \<Longrightarrow> x_parent c = None \<or> x_flow c = Detached \<Longrightarrow>
     evolves sha m (m(i \<mapsto> close_context c ou r now))"
| ev_merge: "m i = Some c \<Longrightarrow> \<not> is_closed c \<Longrightarrow> x_parent c = Some p \<Longrightarrow> m p = Some pc \<Longrightarrow>
     observe_context sha pc (x_class c) seed r' oid now = Inr pc' \<Longrightarrow>
     evolves sha m (m(i \<mapsto> close_context c ou r now, p \<mapsto> pc'))"
| ev_import: "m p = Some pc \<Longrightarrow> m i = Some c \<Longrightarrow> x_parent c = Some p \<Longrightarrow> is_closed c \<Longrightarrow>
     observe_context sha pc (x_class c) seed r oid now = Inr pc' \<Longrightarrow>
     evolves sha m (m(p \<mapsto> pc'\<lparr>x_imported := x_imported pc' @ [i]\<rparr>))"

definition prov_ok :: "bounded_provenance \<Rightarrow> bool" where
  "prov_ok p \<longleftrightarrow> length (bp_recent p) \<le> 64 \<and>
     (case bp_overflow p of CompleteP \<Rightarrow> True | Truncated n _ \<Rightarrow> 0 < n \<and> length (bp_recent p) = 64)"

text \<open>All observations an execution ever made: those it keeps and those it only counts.\<close>

definition prov_total :: "bounded_provenance \<Rightarrow> nat" where
  "prov_total p = length (bp_recent p) +
     (case bp_overflow p of CompleteP \<Rightarrow> 0 | Truncated n _ \<Rightarrow> n)"

definition context_ok :: "contexts \<Rightarrow> string \<Rightarrow> execution_context \<Rightarrow> bool" where
  "context_ok m k c \<longleftrightarrow>
     x_id c = k \<and> prov_ok (x_prov c) \<and> 1 \<le> x_revision c \<and>
     (case x_parent c of
        None \<Rightarrow> True
      | Some p \<Rightarrow> p \<noteq> k \<and> (\<exists>pc. m p = Some pc \<and>
          (x_flow c = MergeToParent \<and> is_closed c \<longrightarrow> x_class c \<le> x_class pc))) \<and>
     (\<forall>i \<in> set (x_imported c). \<exists>ic. m i = Some ic \<and> is_closed ic \<and> x_class ic \<le> x_class c)"

definition contexts_inv :: "contexts \<Rightarrow> bool" where
  "contexts_inv m \<longleftrightarrow> (\<forall>k c. m k = Some c \<longrightarrow> context_ok m k c)"

text \<open>How one context may change: its identity is fixed, its classification only rises, each
  rise and nothing else moves the revision, and a closed context never changes.\<close>

definition context_le :: "execution_context \<Rightarrow> execution_context \<Rightarrow> bool" where
  "context_le c c' \<longleftrightarrow>
     x_id c' = x_id c \<and> x_root c' = x_root c \<and> x_owner c' = x_owner c \<and> x_subject c' = x_subject c \<and>
     x_parent c' = x_parent c \<and> x_flow c' = x_flow c \<and> x_binding c' = x_binding c \<and>
     x_class c \<le> x_class c' \<and> x_revision c \<le> x_revision c' \<and>
     (x_revision c' = x_revision c \<longleftrightarrow> x_class c' = x_class c) \<and>
     (is_closed c \<longrightarrow> c' = c)"

lemma context_le_refl [simp]: "context_le c c"
  by (simp add: context_le_def)

lemma context_le_trans: "context_le a b \<Longrightarrow> context_le b c \<Longrightarrow> context_le a c"
  by (auto simp: context_le_def)

lemma append_observation_ok: "prov_ok p \<Longrightarrow> prov_ok (append_observation sha p ob)"
  by (auto simp: prov_ok_def append_observation_def Let_def MAX_PROVENANCE_OBSERVATIONS_def
      split: prov_overflow.splits)

lemma append_observation_total:
  "prov_ok p \<Longrightarrow> prov_total (append_observation sha p ob) = Suc (prov_total p)"
  by (auto simp: prov_ok_def prov_total_def append_observation_def Let_def
      MAX_PROVENANCE_OBSERVATIONS_def split: prov_overflow.splits)

lemma observe_contextE:
  assumes "observe_context sha c cl seed r oid now = Inr c'"
  obtains "\<not> is_closed c" "context_le c c'" "x_class c' = max (x_class c) cl"
    "\<not> is_closed c'" "x_imported c' = x_imported c" "x_id c' = x_id c" "x_parent c' = x_parent c"
    "prov_ok (x_prov c) \<Longrightarrow> prov_ok (x_prov c')" "x_revision c \<le> x_revision c'" "x_flow c' = x_flow c"
proof (rule that)
  show "\<not> is_closed c" "context_le c c'" "x_class c' = max (x_class c) cl" "\<not> is_closed c'"
    "x_imported c' = x_imported c" "x_id c' = x_id c" "x_parent c' = x_parent c"
    "x_revision c \<le> x_revision c'" "x_flow c' = x_flow c"
    using assms
    by (auto simp: observe_context_def Let_def context_le_def is_closed_def max_def split: if_splits)
  show "prov_ok (x_prov c')" if "prov_ok (x_prov c)"
    using assms that by (auto simp: observe_context_def Let_def append_observation_ok split: if_splits)
qed

definition grows :: "contexts \<Rightarrow> contexts \<Rightarrow> bool" where
  "grows m m' \<longleftrightarrow> (\<forall>k c. m k = Some c \<longrightarrow> (\<exists>c'. m' k = Some c' \<and> context_le c c'))"

lemma growsD: "grows m m' \<Longrightarrow> m k = Some c \<Longrightarrow> \<exists>c'. m' k = Some c' \<and> context_le c c'"
  by (simp add: grows_def)

lemma grows_refl [simp]: "grows m m"
  by (auto simp: grows_def)

lemma grows_trans: "grows a b \<Longrightarrow> grows b c \<Longrightarrow> grows a c"
  unfolding grows_def by (meson context_le_trans)

lemma grows_new: "m k = None \<Longrightarrow> grows m (m(k \<mapsto> c))"
  by (auto simp: grows_def)

lemma grows_upd: "m k = Some c \<Longrightarrow> context_le c c' \<Longrightarrow> grows m (m(k \<mapsto> c'))"
  by (auto simp: grows_def)

lemma close_context_le: "\<not> is_closed c \<Longrightarrow> context_le c (close_context c ou r now)"
  by (simp add: context_le_def close_context_def)

lemma close_context_simps [simp]:
  "is_closed (close_context c ou r now)" "x_id (close_context c ou r now) = x_id c"
  "x_class (close_context c ou r now) = x_class c" "x_parent (close_context c ou r now) = x_parent c"
  "x_flow (close_context c ou r now) = x_flow c" "x_prov (close_context c ou r now) = x_prov c"
  "x_imported (close_context c ou r now) = x_imported c"
  "x_revision (close_context c ou r now) = x_revision c"
  by (simp_all add: close_context_def is_closed_def)

lemma context_ok_grows:
  assumes "context_ok m k c" and "grows m m'"
  shows "context_ok m' k c"
proof -
  have par: "\<exists>pc'. m' p = Some pc' \<and> x_class pc \<le> x_class pc'" if "m p = Some pc" for p pc
    using growsD [OF assms(2) that] by (auto simp: context_le_def)
  have imp: "\<exists>ic'. m' i = Some ic' \<and> is_closed ic' \<and> x_class ic' = x_class ic"
    if "m i = Some ic" "is_closed ic" for i ic
    using growsD [OF assms(2) that(1)] that(2) by (auto simp: context_le_def)
  have "x_parent c = Some p \<Longrightarrow> \<exists>pc. m' p = Some pc \<and>
      (x_flow c = MergeToParent \<and> is_closed c \<longrightarrow> x_class c \<le> x_class pc)" for p
    using assms(1) by (auto simp: context_ok_def dest!: par intro: order_trans)
  moreover have "i \<in> set (x_imported c) \<Longrightarrow>
      \<exists>ic. m' i = Some ic \<and> is_closed ic \<and> x_class ic \<le> x_class c" for i
    using assms(1) imp by (fastforce simp: context_ok_def)
  ultimately show ?thesis
    using assms(1) by (cases "x_parent c") (simp_all add: context_ok_def)
qed

lemma context_ok_observe:
  assumes "context_ok m k c" and "observe_context sha c cl seed r oid now = Inr c'"
  shows "context_ok m k c'"
proof -
  from assms(2) show ?thesis
  proof (rule observe_contextE)
    assume o: "\<not> is_closed c'" "x_imported c' = x_imported c" "x_id c' = x_id c"
      "x_parent c' = x_parent c" "prov_ok (x_prov c) \<Longrightarrow> prov_ok (x_prov c')"
      "x_revision c \<le> x_revision c'" "x_class c' = max (x_class c) cl"
    with assms(1) show ?thesis
      by (fastforce simp: context_ok_def le_max_iff_disj split: option.split_asm option.split)
  qed
qed

lemma context_ok_close:
  "context_ok m k c \<Longrightarrow>
   (\<And>p. x_parent c = Some p \<Longrightarrow> x_flow c = MergeToParent \<Longrightarrow>
     \<exists>pc. m p = Some pc \<and> x_class c \<le> x_class pc) \<Longrightarrow>
   context_ok m k (close_context c ou r now)"
  by (auto simp: context_ok_def split: option.split_asm option.split)

lemma contexts_inv_upd:
  assumes "contexts_inv m" and "grows m m'"
    and "\<And>k c. m' k = Some c \<Longrightarrow> m k = Some c \<or> context_ok m' k c"
  shows "contexts_inv m'"
  using assms context_ok_grows unfolding contexts_inv_def by blast

lemma parent_other: "contexts_inv m \<Longrightarrow> m k = Some c \<Longrightarrow> x_parent c = Some p \<Longrightarrow> p \<noteq> k"
  unfolding contexts_inv_def context_ok_def by force

lemma evolves_grows: "evolves sha m m' \<Longrightarrow> contexts_inv m \<Longrightarrow> grows m m'"
proof (induction rule: evolves.induct)
  case (ev_new m c)
  from ev_new(1) show ?case by (rule grows_new)
next
  case (ev_observe m i c cl seed r oid now c')
  have "context_le c c'" using ev_observe(2) by (rule observe_contextE)
  with ev_observe(1) show ?case by (rule grows_upd)
next
  case (ev_close m i c ou r now)
  from ev_close(1) close_context_le [OF ev_close(2)] show ?case by (rule grows_upd)
next
  case (ev_merge m i c p pc seed r' oid now pc' ou r)
  then have "p \<noteq> i" by (metis parent_other)
  moreover have "grows m (m(i \<mapsto> close_context c ou r now))"
    using ev_merge(1) close_context_le [OF ev_merge(2)] by (rule grows_upd)
  moreover have "context_le pc pc'" using ev_merge(5) by (rule observe_contextE)
  ultimately show ?case
    using ev_merge(4) grows_upd [of "m(i \<mapsto> close_context c ou r now)" p pc pc'] grows_trans by fastforce
next
  case (ev_import m p pc i c seed r oid now pc')
  then have "context_le pc pc'" "\<not> is_closed pc" by (auto elim: observe_contextE)
  then have "context_le pc (pc'\<lparr>x_imported := x_imported pc' @ [i]\<rparr>)" by (simp add: context_le_def)
  with ev_import(1) show ?case by (rule grows_upd)
qed

lemma contexts_inv_put:
  assumes "contexts_inv m" and "grows m (m(k \<mapsto> c))" and "context_ok (m(k \<mapsto> c)) k c"
  shows "contexts_inv (m(k \<mapsto> c))"
  using assms(1,2)
proof (rule contexts_inv_upd)
  fix k' c' assume "(m(k \<mapsto> c)) k' = Some c'"
  with assms(3) show "m k' = Some c' \<or> context_ok (m(k \<mapsto> c)) k' c'" by (cases "k' = k") auto
qed

lemma context_ok_new: "born_ok m c \<Longrightarrow> m (x_id c) = None \<Longrightarrow> context_ok (m(x_id c \<mapsto> c)) (x_id c) c"
  by (cases "x_parent c") (auto simp: context_ok_def born_ok_def prov_ok_def)

lemma context_ok_parent:
  assumes "contexts_inv m" and "grows m m'" and "m k = Some c"
  shows "context_ok m' k c"
  using assms by (auto simp: contexts_inv_def intro: context_ok_grows)

lemma evolves_inv:
  assumes "evolves sha m m'" and "contexts_inv m"
  shows "contexts_inv m'"
  using assms(1)
proof cases
  case (ev_new c)
  then show ?thesis
    using assms(2) by (auto intro!: contexts_inv_put grows_new context_ok_new simp del: fun_upd_apply)
next
  case (ev_observe i c cl seed r oid now c')
  have "grows m m'" using evolves_grows [OF assms] .
  moreover have "context_ok m' i c'"
    using context_ok_parent [OF assms(2) calculation ev_observe(2)] ev_observe(3) by (rule context_ok_observe)
  ultimately show ?thesis using assms(2) unfolding ev_observe(1) by (intro contexts_inv_put)
next
  case (ev_close i c ou r now)
  have "grows m m'" using evolves_grows [OF assms] .
  moreover have "context_ok m' i (close_context c ou r now)"
    using context_ok_parent [OF assms(2) calculation ev_close(2)]
    by (rule context_ok_close) (use ev_close(4) in auto)
  ultimately show ?thesis using assms(2) unfolding ev_close(1) by (intro contexts_inv_put)
next
  case (ev_merge i c p pc seed r' oid now pc' ou r)
  have g: "grows m m'" using evolves_grows [OF assms] .
  have pc: "context_ok m' p pc'"
    using context_ok_parent [OF assms(2) g ev_merge(5)] ev_merge(6) by (rule context_ok_observe)
  have le: "x_class c \<le> x_class pc'" using ev_merge(6) by (auto elim!: observe_contextE)
  have "context_ok m' i (close_context c ou r now)"
    using context_ok_parent [OF assms(2) g ev_merge(2)]
    by (rule context_ok_close) (use le in \<open>auto simp: ev_merge(1,4)\<close>)
  with pc have "m' k = Some d \<Longrightarrow> m k = Some d \<or> context_ok m' k d" for k d
    by (auto simp: ev_merge(1) split: if_splits)
  with assms(2) g show ?thesis by (rule contexts_inv_upd)
next
  case (ev_import p pc i c seed r oid now pc')
  let ?pc = "pc'\<lparr>x_imported := x_imported pc' @ [i]\<rparr>"
  have g: "grows m m'" using evolves_grows [OF assms] .
  have ne: "p \<noteq> i" using assms(2) ev_import(3,4) by (rule parent_other)
  have "context_ok m' p pc'"
    using context_ok_parent [OF assms(2) g ev_import(2)] ev_import(6) by (rule context_ok_observe)
  moreover have "x_class c \<le> x_class pc'" using ev_import(6) by (auto elim!: observe_contextE)
  moreover have "m' i = Some c" using ne ev_import(1,3) by simp
  moreover have "is_closed ?pc = is_closed pc'" by (simp add: is_closed_def)
  ultimately have "context_ok m' p ?pc"
    using ev_import(5) by (cases "x_parent pc'") (auto simp: context_ok_def)
  with assms(2) g show ?thesis unfolding ev_import(1) by (intro contexts_inv_put)
qed

section \<open>The operations refine the specification\<close>

text \<open>
  One call of the service that returned. A new context takes a UUID no context has: the one
  assumption about \<open>randomUUID\<close>.
\<close>

inductive exec_step :: "digest \<Rightarrow> execution_service \<Rightarrow> execution_service \<Rightarrow> bool" for sha where
  xs_bind: "jget (xs_contexts s) uuid = None \<Longrightarrow>
     bind_exec owner intent flow uuid oid now s = Inr (i, s') \<Longrightarrow> exec_step sha s s'"
| xs_grant: "create_parent_grant parent grantee s = Inr (t, s') \<Longrightarrow> exec_step sha s s'"
| xs_observe: "observe_exec sha owner i cl seed r oid now s = Inr (z, s') \<Longrightarrow> exec_step sha s s'"
| xs_close: "close_exec sha owner i ou r oid now s = Inr (z, s') \<Longrightarrow> exec_step sha s s'"
| xs_import: "import_detached sha owner p i oid now s = Inr (z, s') \<Longrightarrow> exec_step sha s s'"

inductive exec_steps :: "digest \<Rightarrow> execution_service \<Rightarrow> execution_service \<Rightarrow> bool" for sha where
  xss_refl: "exec_steps sha s s"
| xss_step: "exec_steps sha s s' \<Longrightarrow> exec_step sha s' s'' \<Longrightarrow> exec_steps sha s s''"

abbreviation ctxs :: "execution_service \<Rightarrow> contexts" where
  "ctxs s \<equiv> jget (xs_contexts s)"

lemma load_context_Inr [simp]: "load_context i s = Inr c \<longleftrightarrow> ctxs s i = Some c"
  by (simp add: load_context_def split: option.split)

lemma snapshot_exec_Inr: "snapshot_exec owner i s = Inr c \<longleftrightarrow>
    owner_ok owner \<and> ctxs s i = Some c \<and> x_owner c = owner"
  by (auto simp: snapshot_exec_def rbind_Inr)

lemma ctxs_put [simp]: "ctxs (put_context c s) = (ctxs s)(x_id c \<mapsto> c)"
  by (simp add: put_context_def)

lemma ctxs_use_grant [simp]: "ctxs (use_grant t s) = ctxs s"
  by (simp add: use_grant_def split: option.split)

lemma contexts_inv_id: "contexts_inv m \<Longrightarrow> m k = Some c \<Longrightarrow> x_id c = k"
  by (simp add: contexts_inv_def context_ok_def)

lemma bind_new_refines:
  assumes "bind_new owner sj cl seed flow uuid oid now s = Inr (i, s')" and "ctxs s uuid = None"
  shows "ctxs s' = ctxs s \<or> evolves sha (ctxs s) (ctxs s')"
proof (cases "find_by_subject owner sj s = Inr None")
  case True
  obtain ob where s': "ctxs s' = (ctxs s)(uuid \<mapsto>
      fresh_context uuid uuid (RootBinding cl seed) owner sj None cl flow ob now)"
    using assms(1) True by (auto simp: bind_new_def Let_def fresh_context_def)
  let ?c = "fresh_context uuid uuid (RootBinding cl seed) owner sj None cl flow ob now"
  have "born_ok (ctxs s) ?c" and "x_id ?c = uuid"
    by (simp_all add: born_ok_def fresh_context_def is_closed_def)
  then show ?thesis using s' assms(2) ev_new [of "ctxs s" ?c sha] by simp
next
  case False
  then obtain c where "find_by_subject owner sj s = Inr (Some c)"
    using assms(1) by (auto simp: bind_new_def rbind_Inr)
  then show ?thesis using assms(1) by (simp add: bind_new_def split: if_splits)
qed

lemma bind_child_refines:
  assumes "bind_child owner sj grant flow uuid oid now s = Inr (i, s')" and "ctxs s uuid = None"
    and "contexts_inv (ctxs s)"
  shows "ctxs s' = ctxs s \<or> evolves sha (ctxs s) (ctxs s')"
proof -
  obtain t g parent where g: "grant = Some t" "jget (xs_grants s) t = Some g" "\<not> pg_used g"
      "pg_grantee g = owner" "ctxs s (pg_parent g) = Some parent"
    using assms(1) by (auto simp: bind_child_def rbind_Inr split: option.splits if_splits)
  then have pid: "x_id parent = pg_parent g" using assms(3) by (simp add: contexts_inv_id)
  show ?thesis
  proof (cases "find_by_subject owner sj s = Inr None")
    case True
    let ?c = "\<lambda>ob. fresh_context uuid (x_root parent) (ChildBinding (x_id parent) (x_root parent)) owner sj
        (Some (x_id parent)) (x_class parent) flow ob now"
    obtain ob where s': "ctxs s' = (ctxs s)(uuid \<mapsto> ?c ob)"
      using assms(1) g True by (auto simp: bind_child_def Let_def fresh_context_def load_context_def)
    have "born_ok (ctxs s) (?c ob)" and "x_id (?c ob) = uuid"
      using g(5) pid by (simp_all add: born_ok_def fresh_context_def is_closed_def)
    then show ?thesis using s' assms(2) ev_new [of "ctxs s" "?c ob" sha] by simp
  next
    case False
    then obtain c where "find_by_subject owner sj s = Inr (Some c)"
      using assms(1) g by (auto simp: bind_child_def rbind_Inr)
    then have "s' = use_grant t s"
      using assms(1) g by (simp add: bind_child_def load_context_def split: if_splits)
    then show ?thesis by simp
  qed
qed

lemma observe_exec_refines:
  assumes "observe_exec sha owner i cl seed r oid now s = Inr (z, s')" and "contexts_inv (ctxs s)"
  shows "evolves sha (ctxs s) (ctxs s')"
proof -
  obtain c c' where c: "ctxs s i = Some c" "observe_context sha c cl seed r oid now = Inr c'"
      "ctxs s' = (ctxs s)(x_id c' \<mapsto> c')"
    using assms(1) by (auto simp: observe_exec_def rbind_Inr snapshot_exec_Inr split: if_splits)
  moreover have "x_id c' = i"
    using c(2) contexts_inv_id [OF assms(2) c(1)] by (auto elim!: observe_contextE)
  ultimately show ?thesis by (auto intro: ev_observe simp del: fun_upd_apply)
qed

lemma close_exec_refines:
  assumes "close_exec sha owner i ou r oid now s = Inr (z, s')" and "contexts_inv (ctxs s)"
  shows "ctxs s' = ctxs s \<or> evolves sha (ctxs s) (ctxs s')"
proof -
  obtain c where c: "ctxs s i = Some c" "snapshot_exec owner i s = Inr c"
    using assms(1) by (auto simp: close_exec_def rbind_Inr snapshot_exec_Inr split: if_splits)
  let ?d = "close_context c ou r now"
  have ci: "x_id c = i" using assms(2) c(1) by (rule contexts_inv_id)
  show ?thesis
  proof (cases "is_closed c")
    case True
    then have "s' = s"
      using assms(1) c(2) by (auto simp: close_exec_def is_closed_def split: if_splits lifecycle.splits)
    then show ?thesis by simp
  next
    case False
    then have o: "x_lifecycle c = OpenL" by (simp add: is_closed_def split: lifecycle.splits)
    show ?thesis
    proof (cases "x_parent c = None \<or> x_flow c = Detached")
      case True
      then have "s' = put_context ?d s"
        using assms(1) c(2) o
        by (auto simp: close_exec_def close_context_def Let_def split: if_splits option.splits)
      then show ?thesis using ev_close [of "ctxs s" i c, OF c(1) False True, of sha ou r now] ci by simp
    next
      case False2: False
      then obtain p pc pc' where p: "x_parent c = Some p" "ctxs s p = Some pc"
          "observe_context sha pc (x_class c) (SeedExecution i RelChildResult)
             (''Merged completed child execution '' @ i) oid now = Inr pc'"
          "s' = put_context pc' (put_context ?d s)"
        using assms(1) c(2) o ci
        by (auto simp: close_exec_def close_context_def Let_def rbind_Inr split: if_splits)
      have "x_id pc' = p"
        using p(3) contexts_inv_id [OF assms(2) p(2)] by (auto elim!: observe_contextE)
      then show ?thesis
        using ev_merge [of "ctxs s" i c, OF c(1) False p(1-3), of ou r] p(4) ci by simp
    qed
  qed
qed

lemma import_detached_refines:
  assumes "import_detached sha owner p i oid now s = Inr (z, s')" and "contexts_inv (ctxs s)"
  shows "ctxs s' = ctxs s \<or> evolves sha (ctxs s) (ctxs s')"
proof -
  obtain pc where pc: "ctxs s p = Some pc" "snapshot_exec owner p s = Inr pc"
    using assms(1) by (auto simp: import_detached_def rbind_Inr snapshot_exec_Inr)
  have pid: "x_id pc = p" using assms(2) pc(1) by (rule contexts_inv_id)
  show ?thesis
  proof (cases "List.member (x_imported pc) i")
    case True
    then show ?thesis using assms(1) pc(2) by (simp add: import_detached_def split: if_splits)
  next
    case False
    then obtain c pc' where c: "ctxs s i = Some c" "x_parent c = Some p" "is_closed c"
        "observe_context sha pc (x_class c) (SeedExecution (x_id c) RelChildResult)
           (''Imported detached child execution '' @ x_id c) oid now = Inr pc'"
        "s' = put_context (pc'\<lparr>x_imported := x_imported pc' @ [x_id c]\<rparr>) s"
      using assms(1) pc(2) pid
      by (auto simp: import_detached_def Let_def rbind_Inr split: if_splits)
    have "x_id c = i" using assms(2) c(1) by (rule contexts_inv_id)
    moreover have "x_id pc' = p" using c(4) pid by (auto elim!: observe_contextE)
    ultimately show ?thesis using ev_import [of "ctxs s" p pc, OF pc(1) c(1-4)] c(5) by simp
  qed
qed

lemma exec_step_refines:
  assumes "exec_step sha s s'" and "contexts_inv (ctxs s)"
  shows "ctxs s' = ctxs s \<or> evolves sha (ctxs s) (ctxs s')"
  using assms(1)
proof cases
  case (xs_bind uuid owner intent flow oid now i)
  then show ?thesis
    using assms(2) bind_new_refines bind_child_refines
    by (auto simp: bind_exec_def resume_exec_def rbind_Inr split: bind_intent.splits if_splits)
next
  case (xs_grant parent grantee t)
  then show ?thesis
    by (auto simp: create_parent_grant_def Let_def rbind_Inr split: if_splits)
next
  case (xs_observe owner i cl seed r oid now z)
  then show ?thesis using assms(2) observe_exec_refines by blast
next
  case (xs_close owner i ou r oid now z)
  then show ?thesis using assms(2) by (rule close_exec_refines)
next
  case (xs_import owner p i oid now z)
  then show ?thesis using assms(2) by (rule import_detached_refines)
qed

lemma exec_step_inv: "exec_step sha s s' \<Longrightarrow> contexts_inv (ctxs s) \<Longrightarrow> contexts_inv (ctxs s')"
  using exec_step_refines evolves_inv by fastforce

lemma exec_step_grows: "exec_step sha s s' \<Longrightarrow> contexts_inv (ctxs s) \<Longrightarrow> grows (ctxs s) (ctxs s')"
  using exec_step_refines evolves_grows by fastforce

lemma exec_steps_inv:
  "exec_steps sha s s' \<Longrightarrow> contexts_inv (ctxs s) \<Longrightarrow> contexts_inv (ctxs s') \<and> grows (ctxs s) (ctxs s')"
proof (induction rule: exec_steps.induct)
  case (xss_step s s' s'')
  then show ?case by (meson exec_step_inv exec_step_grows grows_trans)
qed simp

lemma contexts_inv_start: "contexts_inv (ctxs new_execution_service)"
  by (simp add: contexts_inv_def new_execution_service_def)

section \<open>The raises of a context\<close>

lemma observe_revision:
  assumes "observe_context sha c cl seed r oid now = Inr c'"
  shows "x_revision c' = x_revision c + (if x_class c < x_class c' then 1 else 0)"
  using assms by (auto simp: observe_context_def Let_def split: if_splits)

lemma evolves_revision:
  assumes "evolves sha m m'" and "contexts_inv m" and "m k = Some c" and "m' k = Some c'"
  shows "x_revision c' = x_revision c + (if x_class c < x_class c' then 1 else 0)"
  using assms(1)
proof cases
  case (ev_new c0)
  with assms(3,4) show ?thesis by (auto split: if_splits)
next
  case (ev_observe i c0 cl seed r oid now c1)
  with assms(3,4) observe_revision [OF ev_observe(3)] show ?thesis by (simp split: if_splits)
next
  case (ev_close i c0 ou r now)
  with assms(3,4) show ?thesis by (auto split: if_splits)
next
  case (ev_merge i c0 p pc seed r' oid now pc' ou r)
  with assms(3,4) observe_revision [OF ev_merge(6)] show ?thesis by (auto split: if_splits)
next
  case (ev_import p pc i c0 seed r oid now pc')
  with assms(3,4) observe_revision [OF ev_import(6)] show ?thesis by (auto split: if_splits)
qed

definition identity ::
  "execution_context \<Rightarrow> string \<times> string \<times> string \<times> execution_subject \<times> string option \<times> binding_fingerprint \<times> result_flow" where
  "identity c = (x_id c, x_root c, x_owner c, x_subject c, x_parent c, x_binding c, x_flow c)"

fun exec_path :: "digest \<Rightarrow> execution_service list \<Rightarrow> bool" where
  "exec_path sha (s # s' # ss) = (exec_step sha s s' \<and> exec_path sha (s' # ss))"
| "exec_path sha ss = True"

definition class_in :: "string \<Rightarrow> execution_service \<Rightarrow> data_classification" where
  "class_in k s = (case jget (xs_contexts s) k of None \<Rightarrow> Public | Some c \<Rightarrow> x_class c)"

text \<open>How often a sequence of levels goes up.\<close>

fun rises :: "data_classification list \<Rightarrow> nat" where
  "rises (a # b # ls) = (if a < b then 1 else 0) + rises (b # ls)"
| "rises ls = 0"

lemma exec_path_context:
  assumes "exec_path sha (s # ss)" and "contexts_inv (ctxs s)" and "ctxs s k = Some c"
  shows "\<exists>c'. ctxs (last (s # ss)) k = Some c' \<and> context_le c c' \<and>
     x_revision c' = x_revision c + rises (map (class_in k) (s # ss))"
  using assms
proof (induction ss arbitrary: s c)
  case (Cons s' ss)
  then have step: "exec_step sha s s'" and path: "exec_path sha (s' # ss)" by simp_all
  obtain c1 where c1: "ctxs s' k = Some c1" "context_le c c1"
    using growsD [OF exec_step_grows [OF step Cons.prems(2)] Cons.prems(3)] by blast
  have "x_revision c1 = x_revision c + (if x_class c < x_class c1 then 1 else 0)"
    using exec_step_refines [OF step Cons.prems(2)]
  proof
    assume "ctxs s' = ctxs s"
    with c1 Cons.prems(3) show ?thesis by simp
  next
    assume "evolves sha (ctxs s) (ctxs s')"
    then show ?thesis
      using evolves_revision [where m = "ctxs s" and m' = "ctxs s'" and k = k] Cons.prems(2,3) c1(1) by blast
  qed
  moreover obtain c' where "ctxs (last (s' # ss)) k = Some c'" "context_le c1 c'"
    and "x_revision c' = x_revision c1 + rises (map (class_in k) (s' # ss))"
    using Cons.IH [OF path exec_step_inv [OF step Cons.prems(2)] c1(1)] by blast
  moreover have "rises (map (class_in k) (s # s' # ss)) =
      (if x_class c < x_class c1 then 1 else 0) + rises (map (class_in k) (s' # ss))"
    using c1(1) Cons.prems(3) by (simp add: class_in_def)
  ultimately show ?case
    using context_le_trans [OF c1(2)] by (intro exI [of _ c']) simp
qed simp

section \<open>Grants and the subject index\<close>

definition grants_inv :: "execution_service \<Rightarrow> bool" where
  "grants_inv s \<longleftrightarrow> (\<forall>t g. jget (xs_grants s) t = Some g \<longrightarrow> t < xs_next s)"

text \<open>What every call keeps of the tables: used grants stay used, index entries stay.\<close>

definition tables_kept :: "execution_service \<Rightarrow> execution_service \<Rightarrow> bool" where
  "tables_kept s s' \<longleftrightarrow>
     (\<forall>k i. jget (xs_subjects s) k = Some i \<longrightarrow> jget (xs_subjects s') k = Some i) \<and>
     (grants_inv s \<longrightarrow> grants_inv s' \<and>
        (\<forall>t g. jget (xs_grants s) t = Some g \<and> pg_used g \<longrightarrow>
          (\<exists>g'. jget (xs_grants s') t = Some g' \<and> pg_used g')))"

lemma tables_kept_refl [simp]: "tables_kept s s"
  by (simp add: tables_kept_def)

lemma tables_kept_trans: "tables_kept a b \<Longrightarrow> tables_kept b c \<Longrightarrow> tables_kept a c"
  unfolding tables_kept_def by blast

lemma tables_kept_put: "tables_kept s (put_context c s)"
  by (simp add: tables_kept_def put_context_def grants_inv_def)

lemma tables_kept_use: "tables_kept s (use_grant t s)"
  by (auto simp: tables_kept_def use_grant_def grants_inv_def split: option.split)

lemma tables_kept_index:
  "jget (xs_subjects s) k = None \<Longrightarrow> tables_kept s (s\<lparr>xs_subjects := jset k i (xs_subjects s)\<rparr>)"
  by (auto simp: tables_kept_def grants_inv_def)

lemma find_by_subject_None: "find_by_subject owner sj s = Inr None \<Longrightarrow>
    jget (xs_subjects s) (subject_key owner sj) = None"
  by (auto simp: find_by_subject_def rbind_Inr split: option.splits if_splits)

lemma tables_kept_new:
  "find_by_subject owner sj s = Inr None \<Longrightarrow>
   tables_kept s (put_context c (s\<lparr>xs_subjects := jset (subject_key owner sj) i (xs_subjects s)\<rparr>))"
  by (rule tables_kept_trans [OF tables_kept_index [OF find_by_subject_None] tables_kept_put])

lemma bind_new_cases:
  assumes "bind_new owner sj cl seed flow uuid oid now s = Inr (i, s')"
  shows "(\<exists>c. find_by_subject owner sj s = Inr (Some c) \<and> i = x_id c \<and> s' = s \<and>
            x_binding c = RootBinding cl seed \<and> x_flow c = flow) \<or>
         (find_by_subject owner sj s = Inr None \<and> i = uuid \<and>
            (\<exists>ob. s' = put_context (fresh_context uuid uuid (RootBinding cl seed) owner sj None cl flow ob now)
               (s\<lparr>xs_subjects := jset (subject_key owner sj) uuid (xs_subjects s)\<rparr>)))"
proof -
  obtain ex where ex: "find_by_subject owner sj s = Inr ex"
    using assms by (auto simp: bind_new_def rbind_Inr)
  then show ?thesis using assms
    by (cases ex) (auto simp: bind_new_def Let_def split: if_splits)
qed

lemma bind_child_cases:
  assumes "bind_child owner sj grant flow uuid oid now s = Inr (i, s')"
  shows "\<exists>t. grant = Some t \<and> (s' = use_grant t s \<or> find_by_subject owner sj s = Inr None \<and>
     (\<exists>c. s' = use_grant t (put_context c
        (s\<lparr>xs_subjects := jset (subject_key owner sj) uuid (xs_subjects s)\<rparr>))))"
proof -
  obtain t g parent ex where g: "grant = Some t" "jget (xs_grants s) t = Some g" "\<not> pg_used g"
      "pg_grantee g = owner" "ctxs s (pg_parent g) = Some parent" "find_by_subject owner sj s = Inr ex"
    using assms by (auto simp: bind_child_def rbind_Inr split: option.splits if_splits)
  then show ?thesis using assms
    by (cases ex) (auto simp: bind_child_def load_context_def Let_def split: if_splits)
qed

lemma bind_new_kept:
  "bind_new owner sj cl seed flow uuid oid now s = Inr (i, s') \<Longrightarrow> tables_kept s s'"
  by (drule bind_new_cases) (auto intro: tables_kept_new)

lemma bind_child_kept:
  "bind_child owner sj grant flow uuid oid now s = Inr (i, s') \<Longrightarrow> tables_kept s s'"
  by (drule bind_child_cases) (auto intro: tables_kept_use tables_kept_trans [OF tables_kept_new tables_kept_use])

lemma close_exec_kept:
  assumes "close_exec sha owner i ou r oid now s = Inr (z, s')"
  shows "tables_kept s s'"
proof -
  obtain c where c: "snapshot_exec owner i s = Inr c"
    using assms by (auto simp: close_exec_def rbind_Inr split: if_splits)
  show ?thesis
  proof (cases "x_lifecycle c")
    case OpenL
    then show ?thesis
      using assms c tables_kept_put tables_kept_trans [OF tables_kept_put tables_kept_put]
      by (auto simp: close_exec_def rbind_Inr Let_def split: if_splits option.splits)
  next
    case (ClosedL o1 r1 t1)
    then show ?thesis using assms c by (auto simp: close_exec_def split: if_splits)
  qed
qed

lemma exec_step_kept:
  assumes "exec_step sha s s'"
  shows "tables_kept s s'"
  using assms
proof cases
  case (xs_bind uuid owner intent flow oid now i)
  then show ?thesis
    using bind_new_kept bind_child_kept
    by (auto simp: bind_exec_def resume_exec_def rbind_Inr split: bind_intent.splits if_splits)
next
  case (xs_grant parent grantee t)
  then show ?thesis
    by (auto simp: create_parent_grant_def Let_def rbind_Inr tables_kept_def grants_inv_def less_Suc_eq
        split: if_splits)
next
  case (xs_observe owner i cl seed r oid now z)
  then show ?thesis
    using tables_kept_put by (auto simp: observe_exec_def rbind_Inr split: if_splits)
next
  case (xs_close owner i ou r oid now z)
  then show ?thesis by (auto intro: close_exec_kept)
next
  case (xs_import owner p i oid now z)
  then show ?thesis
    using tables_kept_put by (auto simp: import_detached_def rbind_Inr Let_def split: if_splits)
qed

lemma exec_steps_kept: "exec_steps sha s s' \<Longrightarrow> tables_kept s s'"
  by (induction rule: exec_steps.induct) (auto intro: tables_kept_trans exec_step_kept)

lemma bind_child_uses:
  assumes "bind_child owner sj (Some t) flow uuid oid now s = Inr (i, s')"
  shows "\<exists>g. jget (xs_grants s') t = Some g \<and> pg_used g"
proof -
  obtain g where "jget (xs_grants s) t = Some g"
    using assms by (auto simp: bind_child_def split: option.splits)
  then show ?thesis
    using bind_child_cases [OF assms] by (auto simp: use_grant_def put_context_def)
qed

text \<open>An open child that merges into a closed parent stays open.\<close>

lemma evolves_stuck:
  assumes "evolves sha m m'" and "m k = Some c" and "\<not> is_closed c" and "x_parent c = Some p"
    and "x_flow c = MergeToParent" and "m p = Some pc" and "is_closed pc"
  shows "\<exists>c'. m' k = Some c' \<and> \<not> is_closed c'"
  using assms(1)
proof cases
  case (ev_new c0)
  with assms(2,3) show ?thesis by (cases "x_id c0 = k") auto
next
  case (ev_observe i c0 cl seed r oid now c')
  then have "\<not> is_closed c'" by (auto elim: observe_contextE)
  with ev_observe(1) assms(2,3) show ?thesis by (cases "i = k") auto
next
  case (ev_close i c0 ou r now)
  with assms(2-5) have "i \<noteq> k" by auto
  with ev_close(1) assms(2,3) show ?thesis by simp
next
  case (ev_merge i c0 p0 pc0 seed r' oid now pc' ou r)
  then have o: "\<not> is_closed pc0" "\<not> is_closed pc'" by (auto elim: observe_contextE)
  then have "i \<noteq> k" using ev_merge assms by auto
  with ev_merge(1) o assms(2,3) show ?thesis by (cases "p0 = k") auto
next
  case (ev_import p0 pc0 i c0 seed r oid now pc')
  then have "\<not> is_closed pc'" by (auto elim: observe_contextE)
  then have "\<not> is_closed (pc'\<lparr>x_imported := x_imported pc' @ [i]\<rparr>)" by (simp add: is_closed_def)
  with ev_import(1) assms(2,3) show ?thesis by (cases "p0 = k") auto
qed

lemma exec_steps_stuck:
  assumes "exec_steps sha s s'" and "contexts_inv (ctxs s)" and "ctxs s k = Some c"
    and "\<not> is_closed c" and "x_parent c = Some p" and "x_flow c = MergeToParent"
    and "ctxs s p = Some pc" and "is_closed pc"
  shows "\<exists>c'. ctxs s' k = Some c' \<and> \<not> is_closed c'"
  using assms
proof (induction rule: exec_steps.induct)
  case (xss_step s s' s'')
  from xss_step obtain c' where c': "ctxs s' k = Some c'" "\<not> is_closed c'" by blast
  have inv: "contexts_inv (ctxs s')" and g: "grows (ctxs s) (ctxs s')"
    using exec_steps_inv xss_step by blast+
  have le: "context_le c c'" using growsD [OF g xss_step(5)] c'(1) by simp
  have pc': "ctxs s' p = Some pc" using growsD [OF g xss_step(9)] xss_step(10) by (auto simp: context_le_def)
  from exec_step_refines [OF xss_step(2) inv] show ?case
  proof
    assume "ctxs s'' = ctxs s'"
    with c' show ?thesis by simp
  next
    assume "evolves sha (ctxs s') (ctxs s'')"
    from evolves_stuck [OF this c' _ _ pc' xss_step(10)] le xss_step(7,8) show ?thesis
      by (simp add: context_le_def)
  qed
qed blast

section \<open>Properties\<close>

text \<open>A run of the service used to instantiate the properties: a root, its child, a raise, a close.\<close>

definition demo_sha :: digest where
  "demo_sha x = ''d''"

definition demo_root :: execution_service where
  "demo_root = snd (projr (bind_exec ''borg.bots'' (RootIntent \<lparr>sj_kind = ''run'', sj_id = ''1''\<rparr> Internal
     (SeedUser ''u'')) MergeToParent ''x1'' ''o1'' ''t1'' new_execution_service))"

definition demo_grant_given :: execution_service where
  "demo_grant_given = snd (projr (create_parent_grant ''x1'' ''borg.chat'' demo_root))"

definition demo_child :: execution_service where
  "demo_child = snd (projr (bind_exec ''borg.chat'' (ChildIntent \<lparr>sj_kind = ''turn'', sj_id = ''1''\<rparr> (Some 0))
     MergeToParent ''x2'' ''o2'' ''t2'' demo_grant_given))"

definition demo_raised :: execution_service where
  "demo_raised = snd (projr (observe_exec demo_sha ''borg.chat'' ''x2'' Confidential (SeedPlugin ''mail'')
     ''read mail'' ''o3'' ''t3'' demo_child))"

definition demo_merged :: execution_service where
  "demo_merged = snd (projr (close_exec demo_sha ''borg.chat'' ''x2'' Completed ''done'' ''o4'' ''t4'' demo_raised))"

definition demo_parent_first :: execution_service where
  "demo_parent_first = snd (projr (close_exec demo_sha ''borg.bots'' ''x1'' Completed ''done'' ''o5'' ''t5'' demo_raised))"

lemma step_root: "exec_step demo_sha new_execution_service demo_root"
  by (rule xs_bind [of _ "''x1''" "''borg.bots''" "RootIntent \<lparr>sj_kind = ''run'', sj_id = ''1''\<rparr> Internal
     (SeedUser ''u'')" MergeToParent "''o1''" "''t1''" "''x1''"]) code_simp+

lemma step_grant: "exec_step demo_sha demo_root demo_grant_given"
  by (rule xs_grant [of "''x1''" "''borg.chat''" _ 0]) code_simp

lemma step_child: "exec_step demo_sha demo_grant_given demo_child"
  by (rule xs_bind [of _ "''x2''" "''borg.chat''" "ChildIntent \<lparr>sj_kind = ''turn'', sj_id = ''1''\<rparr> (Some 0)"
      MergeToParent "''o2''" "''t2''" "''x2''"]) code_simp+

lemma step_raised: "exec_step demo_sha demo_child demo_raised"
  by (rule xs_observe [of _ "''borg.chat''" "''x2''" Confidential "SeedPlugin ''mail''" "''read mail''" "''o3''"
      "''t3''" _ "fst (projr (observe_exec demo_sha ''borg.chat'' ''x2'' Confidential (SeedPlugin ''mail'')
        ''read mail'' ''o3'' ''t3'' demo_child))"]) code_simp

lemma step_merged: "exec_step demo_sha demo_raised demo_merged"
  by (rule xs_close [of _ "''borg.chat''" "''x2''" Completed "''done''" "''o4''" "''t4''" _
      "fst (projr (close_exec demo_sha ''borg.chat'' ''x2'' Completed ''done'' ''o4'' ''t4'' demo_raised))"])
    code_simp

lemma step_parent_first: "exec_step demo_sha demo_raised demo_parent_first"
  by (rule xs_close [of _ "''borg.bots''" "''x1''" Completed "''done''" "''o5''" "''t5''" _
      "fst (projr (close_exec demo_sha ''borg.bots'' ''x1'' Completed ''done'' ''o5'' ''t5'' demo_raised))"])
    code_simp

lemma demo_raised_reached: "exec_steps demo_sha new_execution_service demo_raised"
  by (rule xss_step [OF xss_step [OF xss_step [OF xss_step [OF xss_refl step_root] step_grant] step_child] step_raised])

text \<open>
  C1: results are never declassified. In every state the service reaches, the classification of a
  parent is at least that of each child whose result it took, whether the child merged into it on
  closing or was imported later.
\<close>

theorem results_never_declassified:
  assumes "exec_steps sha new_execution_service s"
    and "jget (xs_contexts s) k = Some c" and "jget (xs_contexts s) p = Some pc"
    and "x_parent c = Some p \<and> x_flow c = MergeToParent \<and> is_closed c \<or> List.member (x_imported pc) k"
  shows "x_class c \<le> x_class pc"
proof -
  have "contexts_inv (ctxs s)" using exec_steps_inv [OF assms(1) contexts_inv_start] by simp
  then have "context_ok (ctxs s) k c" and "context_ok (ctxs s) p pc"
    using assms(2,3) by (auto simp: contexts_inv_def)
  with assms(2-4) show ?thesis by (auto simp: context_ok_def)
qed

theorem results_never_declassified_witness:
  "\<exists>c pc. jget (xs_contexts demo_merged) ''x2'' = Some c \<and> jget (xs_contexts demo_merged) ''x1'' = Some pc \<and>
     x_class c = Confidential \<and> Confidential \<le> x_class pc"
proof -
  let ?c = "the (jget (xs_contexts demo_merged) ''x2'')" and ?p = "the (jget (xs_contexts demo_merged) ''x1'')"
  have a: "jget (xs_contexts demo_merged) ''x2'' = Some ?c" by code_simp
  have b: "jget (xs_contexts demo_merged) ''x1'' = Some ?p" by code_simp
  have h: "x_parent ?c = Some ''x1'' \<and> x_flow ?c = MergeToParent \<and> is_closed ?c \<or> List.member (x_imported ?p) ''x2''"
    by code_simp
  have cl: "x_class ?c = Confidential" by code_simp
  show ?thesis
    using results_never_declassified [OF xss_step [OF demo_raised_reached step_merged] a b h] a b cl by auto
qed

text \<open>
  C2: the life of a context. Along any sequence of states, each reached from the one before by a call
  of the service, a context is never lost and its identity (id, owner, subject, parent, root, binding and
  flow) never changes; its classification never drops; its revision grows by exactly one for each
  call that raised the classification; and once closed it never changes at all.
\<close>

theorem context_monotone:
  assumes "exec_steps sha new_execution_service s" and "exec_path sha (s # ss)"
    and "jget (xs_contexts s) k = Some c"
  shows "\<exists>c'. jget (xs_contexts (last (s # ss))) k = Some c' \<and> identity c' = identity c \<and>
     x_class c \<le> x_class c' \<and> x_revision c' = x_revision c + rises (map (class_in k) (s # ss)) \<and>
     (is_closed c \<longrightarrow> c' = c)"
proof -
  have "contexts_inv (ctxs s)" using exec_steps_inv [OF assms(1) contexts_inv_start] by simp
  from exec_path_context [OF assms(2) this assms(3)] obtain c' where c': "ctxs (last (s # ss)) k = Some c'" "context_le c c'"
      "x_revision c' = x_revision c + rises (map (class_in k) (s # ss))" by blast
  have "identity c' = identity c" using c'(2) by (simp add: context_le_def identity_def)
  moreover have "x_class c \<le> x_class c'" "is_closed c \<longrightarrow> c' = c" using c'(2) by (simp_all add: context_le_def)
  ultimately show ?thesis using c'(1,3) by blast
qed

theorem context_monotone_witness:
  "\<exists>c'. jget (xs_contexts demo_merged) ''x1'' = Some c' \<and> x_owner c' = ''borg.bots'' \<and>
     x_subject c' = \<lparr>sj_kind = ''run'', sj_id = ''1''\<rparr> \<and> Internal \<le> x_class c' \<and> x_revision c' = 2"
proof -
  let ?c = "the (jget (xs_contexts demo_raised) ''x1'')"
  have a: "jget (xs_contexts demo_raised) ''x1'' = Some ?c" by code_simp
  have b: "x_owner ?c = ''borg.bots''" "x_class ?c = Internal" "x_revision ?c = 1"
      "x_subject ?c = \<lparr>sj_kind = ''run'', sj_id = ''1''\<rparr>" by code_simp+
  have r: "rises (map (class_in ''x1'') [demo_raised, demo_merged]) = 1" by code_simp
  have p: "exec_path demo_sha [demo_raised, demo_merged]" using step_merged by simp
  from context_monotone [OF demo_raised_reached p a] b r
  show ?thesis by (auto simp: identity_def)
qed

text \<open>
  A dispatch commits only at the classification it was prepared for. If the caller read a
  summary, and later \<open>commitIfCurrent\<close> with that summary's revision runs the operation, the
  operation is given a summary of an open execution with the same classification, whatever calls
  ran in between.
\<close>

theorem commit_at_checked_level:
  assumes "exec_steps sha new_execution_service s" and "summary_exec owner i s = Inr z"
    and "exec_steps sha s s'"
    and "commit_if_current owner i (int (es_revision z)) run s' = Inr (Some v)"
  shows "\<exists>z'. v = run z' \<and> es_class z' = es_class z \<and> es_lifecycle z' = OpenL"
proof -
  obtain c where c: "ctxs s i = Some c" "z = summary_of c"
    using assms(2) by (auto simp: summary_exec_def rbind_Inr snapshot_exec_Inr)
  obtain c' where c': "ctxs s' i = Some c'" "v = run (summary_of c')" "\<not> is_closed c'"
      "x_revision c' = es_revision z"
    using assms(4) by (auto simp: commit_if_current_def rbind_Inr snapshot_exec_Inr split: if_splits)
  have "contexts_inv (ctxs s)" using exec_steps_inv [OF assms(1) contexts_inv_start] by simp
  with assms(3) have "grows (ctxs s) (ctxs s')" by (simp add: exec_steps_inv)
  then have "context_le c c'" using growsD c(1) c'(1) by fastforce
  then have "x_class c' = x_class c" using c(2) c'(4) by (simp add: context_le_def summary_of_def)
  moreover have "x_lifecycle c' = OpenL" using c'(3) by (simp add: is_closed_def split: lifecycle.splits)
  ultimately show ?thesis using c(2) c'(2) by (auto simp: summary_of_def)
qed

theorem commit_at_checked_level_witness:
  "\<exists>z' :: execution_summary. commit_if_current ''borg.chat'' ''x2'' 2 es_class demo_raised = Inr (Some (es_class z')) \<and>
     es_class z' = Confidential"
proof -
  let ?z = "projr (summary_exec ''borg.chat'' ''x2'' demo_raised)"
  have a: "summary_exec ''borg.chat'' ''x2'' demo_raised = Inr ?z" by code_simp
  have r: "int (es_revision ?z) = 2" and cl: "es_class ?z = Confidential" by code_simp+
  have b: "commit_if_current ''borg.chat'' ''x2'' (int (es_revision ?z)) es_class demo_raised
      = Inr (Some Confidential)" unfolding r by code_simp
  obtain z' :: execution_summary where z': "Confidential = es_class z'"
    using commit_at_checked_level [OF demo_raised_reached a xss_refl b] by blast
  show ?thesis
    by (rule exI [of _ z']) (use b [unfolded r] z' in simp)
qed

text \<open>
  C3: a parent grant is used once. After a child was bound with it, no later bind with the same
  grant succeeds, whatever happens in between.
\<close>

theorem grant_single_use:
  assumes "grants_inv s" and "bind_child owner sj (Some t) flow uuid oid now s = Inr (i, s1)"
    and "exec_steps sha s1 s2"
  shows "bind_child owner' sj' (Some t) flow' uuid' oid' now' s2 = Inl GrantInvalid"
proof -
  obtain g where g: "jget (xs_grants s1) t = Some g" "pg_used g"
    using bind_child_uses [OF assms(2)] by blast
  have "grants_inv s1" using bind_child_kept [OF assms(2)] assms(1) by (simp add: tables_kept_def)
  with exec_steps_kept [OF assms(3)] g obtain g' where "jget (xs_grants s2) t = Some g'" "pg_used g'"
    unfolding tables_kept_def by blast
  then show ?thesis by (simp add: bind_child_def)
qed

theorem grant_single_use_witness:
  "bind_child ''borg.chat'' \<lparr>sj_kind = ''turn'', sj_id = ''2''\<rparr> (Some 0) Detached ''x3'' ''o9'' ''t9'' demo_raised
     = Inl GrantInvalid"
proof -
  have a: "grants_inv demo_grant_given"
  proof -
    have "xs_grants demo_grant_given = [(0, \<lparr>pg_parent = ''x1'', pg_grantee = ''borg.chat'', pg_used = False\<rparr>)]"
      and "xs_next demo_grant_given = 1" by code_simp+
    then show ?thesis by (simp add: grants_inv_def)
  qed
  have b: "bind_child ''borg.chat'' \<lparr>sj_kind = ''turn'', sj_id = ''1''\<rparr> (Some 0) MergeToParent ''x2'' ''o2'' ''t2''
      demo_grant_given = Inr (''x2'', demo_child)" by code_simp
  show ?thesis using grant_single_use [OF a b xss_step [OF xss_refl step_raised]] .
qed

text \<open>
  C4: a child that is to merge can only close while its parent is open. Once the parent is closed,
  every later attempt to close the child is refused and the child stays open for good.
\<close>

theorem orphan_never_closes:
  assumes "exec_steps sha new_execution_service s"
    and "jget (xs_contexts s) k = Some c" and "\<not> is_closed c" and "x_flow c = MergeToParent"
    and "x_parent c = Some p" and "jget (xs_contexts s) p = Some pc" and "is_closed pc"
    and "exec_steps sha s s'"
  shows "(\<exists>c'. jget (xs_contexts s') k = Some c' \<and> \<not> is_closed c') \<and>
     (owner_ok (x_owner c) \<and> exec_reason_ok r \<longrightarrow>
        close_exec sha (x_owner c) k ou r oid now s' = Inl AlreadyClosed)"
proof -
  have inv: "contexts_inv (ctxs s)" using exec_steps_inv [OF assms(1) contexts_inv_start] by simp
  with assms obtain c' where c': "ctxs s' k = Some c'" "\<not> is_closed c'"
    by (meson exec_steps_stuck)
  have g: "grows (ctxs s) (ctxs s')" using exec_steps_inv [OF assms(8) inv] by simp
  have le: "context_le c c'" using growsD [OF g assms(2)] c'(1) by simp
  have p: "ctxs s' p = Some pc" using growsD [OF g assms(6)] assms(7) by (auto simp: context_le_def)
  have o: "x_lifecycle c' = OpenL" using c'(2) by (simp add: is_closed_def split: lifecycle.splits)
  have "x_parent c' = Some p" "x_flow c' = MergeToParent" "x_owner c' = x_owner c"
    using le assms(4,5) by (simp_all add: context_le_def)
  then have "owner_ok (x_owner c) \<and> exec_reason_ok r \<longrightarrow>
        close_exec sha (x_owner c) k ou r oid now s' = Inl AlreadyClosed"
    using c'(1) p o assms(7)
    by (simp add: close_exec_def snapshot_exec_def load_context_def observe_context_def Let_def)
  with c' show ?thesis by blast
qed

theorem orphan_never_closes_witness:
  "close_exec demo_sha ''borg.chat'' ''x2'' Completed ''done'' ''o7'' ''t7'' demo_parent_first = Inl AlreadyClosed"
proof -
  let ?c = "the (jget (xs_contexts demo_parent_first) ''x2'')"
  let ?p = "the (jget (xs_contexts demo_parent_first) ''x1'')"
  have h: "jget (xs_contexts demo_parent_first) ''x2'' = Some ?c" "\<not> is_closed ?c" "x_flow ?c = MergeToParent"
    "x_parent ?c = Some ''x1''" "jget (xs_contexts demo_parent_first) ''x1'' = Some ?p" "is_closed ?p"
    by code_simp+
  have o: "x_owner ?c = ''borg.chat''" "owner_ok ''borg.chat''" "exec_reason_ok ''done''" by code_simp+
  show ?thesis
    using orphan_never_closes [OF xss_step [OF demo_raised_reached step_parent_first] h xss_refl] o by metis
qed

text \<open>
  Binding a root is idempotent. Once a subject is bound, the same call returns the same
  execution in every later state and changes nothing, whatever UUID and time it is given.
\<close>

theorem rebind_root_idempotent:
  assumes "exec_steps sha new_execution_service s" and "jget (xs_contexts s) uuid = None"
    and "bind_exec owner (RootIntent sj cl seed) flow uuid oid now s = Inr (i, s1)"
    and "exec_steps sha s1 s2"
  shows "bind_exec owner (RootIntent sj cl seed) flow uuid' oid' now' s2 = Inr (i, s2)"
proof -
  have ok: "owner_ok owner" "subject_ok sj" "seed_ok seed"
    and b: "bind_new owner sj cl seed flow uuid oid now s = Inr (i, s1)"
    using assms(3) by (auto simp: bind_exec_def split: if_splits)
  have inv: "contexts_inv (ctxs s1)"
    using exec_steps_inv [OF xss_step [OF assms(1) xs_bind [OF assms(2,3)]] contexts_inv_start] by simp
  have "\<exists>c. ctxs s1 i = Some c \<and> jget (xs_subjects s1) (subject_key owner sj) = Some i \<and>
      x_owner c = owner \<and> x_subject c = sj \<and> x_binding c = RootBinding cl seed \<and> x_flow c = flow"
    using bind_new_cases [OF b]
  proof
    assume "\<exists>c. find_by_subject owner sj s = Inr (Some c) \<and> i = x_id c \<and> s1 = s \<and>
            x_binding c = RootBinding cl seed \<and> x_flow c = flow"
    then obtain c where c: "find_by_subject owner sj s = Inr (Some c)" "i = x_id c" "s1 = s"
      "x_binding c = RootBinding cl seed" "x_flow c = flow" by blast
    then obtain k where k: "jget (xs_subjects s) (subject_key owner sj) = Some k" "ctxs s k = Some c"
      "x_owner c = owner" "x_subject c = sj"
      by (auto simp: find_by_subject_def rbind_Inr split: option.splits if_splits)
    then have "x_id c = k" using inv c(3) by (simp add: contexts_inv_id)
    with k c show ?thesis by auto
  qed (auto simp: put_context_def fresh_context_def)
  then obtain c where c: "ctxs s1 i = Some c" "jget (xs_subjects s1) (subject_key owner sj) = Some i"
      "x_owner c = owner" "x_subject c = sj" "x_binding c = RootBinding cl seed" "x_flow c = flow" by blast
  have sub: "jget (xs_subjects s2) (subject_key owner sj) = Some i"
    using exec_steps_kept [OF assms(4)] c(2) by (simp add: tables_kept_def)
  have "grows (ctxs s1) (ctxs s2)" using exec_steps_inv [OF assms(4) inv] by simp
  from growsD [OF this c(1)] obtain c2 where "ctxs s2 i = Some c2" "context_le c c2" by blast
  with c sub ok show ?thesis
    by (auto simp: bind_exec_def bind_new_def find_by_subject_def load_context_def context_le_def
        contexts_inv_id [OF inv c(1)])
qed

theorem rebind_root_idempotent_witness:
  "bind_exec ''borg.bots'' (RootIntent \<lparr>sj_kind = ''run'', sj_id = ''1''\<rparr> Internal (SeedUser ''u''))
     MergeToParent ''x9'' ''o9'' ''t9'' demo_raised = Inr (''x1'', demo_raised)"
proof -
  have n: "jget (xs_contexts new_execution_service) ''x1'' = None" by code_simp
  have b: "bind_exec ''borg.bots'' (RootIntent \<lparr>sj_kind = ''run'', sj_id = ''1''\<rparr> Internal (SeedUser ''u''))
     MergeToParent ''x1'' ''o1'' ''t1'' new_execution_service = Inr (''x1'', demo_root)" by code_simp
  have st: "exec_steps demo_sha demo_root demo_raised"
    by (rule xss_step [OF xss_step [OF xss_step [OF xss_refl step_grant] step_child] step_raised])
  show ?thesis by (rule rebind_root_idempotent [OF xss_refl n b st])
qed

end
