(* ===== verification/Engine_Range.thy ===== *)
theory Engine_Range
  imports Regex
begin

text \<open>
  Versions and engine ranges (\<open>packages/kernel/src/engine-range.ts\<close>). A parsed range is a
  test on versions, \<open>None\<close> where the code returns \<open>undefined\<close> (the range is malformed).
\<close>

section \<open>Versions\<close>

datatype version = Version (v_major: nat) (v_minor: nat) (v_patch: nat) (v_pre: "string list option")

definition digit_value :: "char \<Rightarrow> nat" where
  "digit_value c = of_char c - 48"

text \<open>\<open>Number\<close> of a non-empty string of digits.\<close>

definition nat_of_digits :: "string \<Rightarrow> nat" where
  "nat_of_digits s = foldl (\<lambda>n c. 10 * n + digit_value c) 0 s"

definition all_digits :: "string \<Rightarrow> bool" where
  "all_digits s = (s \<noteq> [] \<and> list_all is_digit_c s)"

definition numeric_id :: rx where
  "numeric_id = RAlt (rset ''0'') (RSeq (rset ''123456789'') (RStar (RCls is_digit_c)))"

definition ident_char :: "char \<Rightarrow> bool" where
  "ident_char c = (is_digit_c c \<or> is_upper_c c \<or> is_lower_c c \<or> c = CHR ''-'')"

definition dotted_idents :: rx where
  "dotted_idents = RSeq (rplus (RCls ident_char)) (RStar (RSeq (rset ''.'') (rplus (RCls ident_char))))"

definition VERSION_PATTERN :: rx where
  "VERSION_PATTERN =
     RSeq (ropt (rset ''v''))
    (RSeq numeric_id (RSeq (rset ''.'') (RSeq numeric_id (RSeq (rset ''.'') (RSeq numeric_id
    (RSeq (ropt (RSeq (rset ''-'') dotted_idents)) (ropt (RSeq (rset ''+'') dotted_idents))))))))"

definition MAX_SAFE_INTEGER :: int where
  "MAX_SAFE_INTEGER = 9007199254740991"

definition bad_prerelease_id :: "string \<Rightarrow> bool" where
  "bad_prerelease_id s = (all_digits s \<and> 1 < length s \<and> hd s = CHR ''0'')"

text \<open>
  \<open>parseVersion\<close>. On a string the pattern accepts, the capture groups are cut at the first
  "-" or "+": no such character occurs in the three numbers, and no "+" in the prerelease.
\<close>

definition drop_v :: "string \<Rightarrow> string" where
  "drop_v s = (case s of [] \<Rightarrow> [] | c # cs \<Rightarrow> if c = CHR ''v'' then cs else s)"

definition parse_version :: "string \<Rightarrow> version option" where
  "parse_version value =
     (let s = js_trim value in
      if \<not> rx_match VERSION_PATTERN s then None
      else
        let body = drop_v s;
            core = takeWhile (\<lambda>c. c \<noteq> CHR ''-'' \<and> c \<noteq> CHR ''+'') body;
            rest = drop (length core) body;
            pre = (case rest of
                     [] \<Rightarrow> None
                   | c # cs \<Rightarrow> if c = CHR ''-'' then Some (js_split (CHR ''.'') (takeWhile (\<lambda>c. c \<noteq> CHR ''+'') cs))
                               else None)
        in
          (case js_split (CHR ''.'') core of
             [a, b, c] \<Rightarrow>
               (if \<not> (int (nat_of_digits a) \<le> MAX_SAFE_INTEGER \<and> int (nat_of_digits b) \<le> MAX_SAFE_INTEGER \<and>
                      int (nat_of_digits c) \<le> MAX_SAFE_INTEGER) then None
                else if (case pre of None \<Rightarrow> False | Some ids \<Rightarrow> list_ex bad_prerelease_id ids) then None
                else Some (Version (nat_of_digits a) (nat_of_digits b) (nat_of_digits c) pre))
           | _ \<Rightarrow> None))"

section \<open>Precedence\<close>

text \<open>\<open><\<close> on strings: code units from the left.\<close>

fun str_less :: "string \<Rightarrow> string \<Rightarrow> bool" where
  "str_less _ [] = False"
| "str_less [] (_ # _) = True"
| "str_less (a # as) (b # bs) =
     ((of_char a :: nat) < of_char b \<or> a = b \<and> str_less as bs)"

definition sign_less :: "bool \<Rightarrow> int" where
  "sign_less b = (if b then -1 else 1)"

definition compare_ident :: "string \<Rightarrow> string \<Rightarrow> int" where
  "compare_ident l r =
     (if l = r then 0
      else
        let ln = all_digits l; rn = all_digits r in
        if ln \<and> rn then
          (if length l = length r then sign_less (str_less l r) else sign_less (length l < length r))
        else if ln \<noteq> rn then sign_less ln
        else sign_less (str_less l r))"

text \<open>The loop over the longer of the two lists of prerelease identifiers.\<close>

fun compare_idents :: "string list \<Rightarrow> string list \<Rightarrow> int" where
  "compare_idents [] [] = 0"
| "compare_idents [] (_ # _) = -1"
| "compare_idents (_ # _) [] = 1"
| "compare_idents (l # ls) (r # rs) =
     (if compare_ident l r = 0 then compare_idents ls rs else compare_ident l r)"

definition compare_pre :: "string list option \<Rightarrow> string list option \<Rightarrow> int" where
  "compare_pre l r =
     (case (l, r) of
        (None, None) \<Rightarrow> 0
      | (None, Some _) \<Rightarrow> 1
      | (Some _, None) \<Rightarrow> -1
      | (Some ls, Some rs) \<Rightarrow> compare_idents ls rs)"

definition compare_version :: "version \<Rightarrow> version \<Rightarrow> int" where
  "compare_version l r =
     (if v_major l \<noteq> v_major r then sign_less (v_major l < v_major r)
      else if v_minor l \<noteq> v_minor r then sign_less (v_minor l < v_minor r)
      else if v_patch l \<noteq> v_patch r then sign_less (v_patch l < v_patch r)
      else compare_pre (v_pre l) (v_pre r))"

section \<open>Ranges\<close>

text \<open>The operator of a comparator: the regular expression is greedy, longest operator first.\<close>

definition split_operator :: "string \<Rightarrow> string \<times> string" where
  "split_operator s =
     (if js_starts_with ''>='' s then (''>='', drop 2 s)
      else if js_starts_with ''<='' s then (''<='', drop 2 s)
      else if js_starts_with ''>'' s then (''>'', drop 1 s)
      else if js_starts_with ''<'' s then (''<'', drop 1 s)
      else if js_starts_with ''='' s then (''='', drop 1 s)
      else ('''', s))"

text \<open>
  \<open>satisfiesComparator\<close> on a word without white space (the caller splits on white space). The
  operator is optional, so a bare operator word matches with the operator as the target text;
  such a target is never a version.
\<close>

definition satisfies_comparator :: "version \<Rightarrow> string \<Rightarrow> bool option" where
  "satisfies_comparator v comparator =
     (let (opr, target) = split_operator comparator in
      case parse_version target of
        None \<Rightarrow> None
      | Some t \<Rightarrow>
          let result = compare_version v t in
          Some (if opr = ''>'' then 0 < result
                else if opr = ''>='' then 0 \<le> result
                else if opr = ''<'' then result < 0
                else if opr = ''<='' then result \<le> 0
                else result = 0))"

definition is_x :: "string \<Rightarrow> bool" where
  "is_x s = (s = ''x'' \<or> s = ''X'' \<or> s = ''*'')"

text \<open>\<open>1.x\<close>, \<open>1.2.x\<close> and the like: the numbers before the wildcard.\<close>

definition parse_wildcard :: "string \<Rightarrow> (nat \<times> nat option) option" where
  "parse_wildcard s =
     (case js_split (CHR ''.'') s of
        [a, x] \<Rightarrow> if rx_match numeric_id a \<and> is_x x then Some (nat_of_digits a, None) else None
      | [a, b, x] \<Rightarrow>
          if rx_match numeric_id a \<and> rx_match numeric_id b \<and> is_x x
          then Some (nat_of_digits a, Some (nat_of_digits b)) else None
      | _ \<Rightarrow> None)"

definition upper_bound :: "char \<Rightarrow> version \<Rightarrow> version" where
  "upper_bound op lower =
     (if op = CHR ''~'' then Version (v_major lower) (v_minor lower + 1) 0 None
      else if 0 < v_major lower then Version (v_major lower + 1) 0 0 None
      else if 0 < v_minor lower then Version 0 (v_minor lower + 1) 0 None
      else Version 0 0 (v_patch lower + 1) None)"

text \<open>\<open>split(/\s+/)\<close> of a trimmed, non-empty string.\<close>

fun words_acc :: "string \<Rightarrow> string \<Rightarrow> string list" where
  "words_acc acc [] = (if acc = [] then [] else [rev acc])"
| "words_acc acc (c # cs) =
     (if is_ws c then (if acc = [] then words_acc [] cs else rev acc # words_acc [] cs)
      else words_acc (c # acc) cs)"

definition split_words :: "string \<Rightarrow> string list" where
  "split_words s = words_acc [] s"

definition satisfies_simple_range :: "version \<Rightarrow> string \<Rightarrow> bool option" where
  "satisfies_simple_range v rng =
     (let t = js_trim rng in
      if t = [] \<or> t = ''*'' then Some True
      else
        case parse_wildcard t of
          Some (major, minor) \<Rightarrow>
            Some (v_major v = major \<and> (case minor of None \<Rightarrow> True | Some m \<Rightarrow> v_minor v = m))
        | None \<Rightarrow>
            if hd t = CHR ''^'' \<or> hd t = CHR ''~'' then
              (case parse_version (tl t) of
                 None \<Rightarrow> None
               | Some lower \<Rightarrow>
                   if compare_version v lower < 0 then Some False
                   else Some (compare_version v (upper_bound (hd t) lower) < 0))
            else
              let results = map (satisfies_comparator v) (split_words t) in
              if list_ex (\<lambda>r. r = None) results then None
              else Some (list_all (\<lambda>r. r = Some True) results))"

text \<open>\<open>split("||")\<close>.\<close>

fun split_bars :: "string \<Rightarrow> string list" where
  "split_bars [] = [[]]"
| "split_bars [c] = [[c]]"
| "split_bars (c # d # cs) =
     (if c = CHR ''|'' \<and> d = CHR ''|'' then [] # split_bars cs
      else case split_bars (d # cs) of [] \<Rightarrow> [[c]] | w # ws \<Rightarrow> (c # w) # ws)"

definition range_alternatives :: "string \<Rightarrow> string list option" where
  "range_alternatives rng =
     (let parts = split_bars rng in
      if list_ex (\<lambda>p. js_trim p = []) parts then None else Some parts)"

definition is_valid_borg_engine_range :: "string \<Rightarrow> bool" where
  "is_valid_borg_engine_range rng =
     (if js_trim rng = [] then False
      else
        case range_alternatives rng of
          None \<Rightarrow> False
        | Some parts \<Rightarrow> list_all (\<lambda>p. satisfies_simple_range (Version 0 0 0 None) p \<noteq> None) parts)"

definition is_semantic_version :: "string \<Rightarrow> bool" where
  "is_semantic_version value = (\<not> js_starts_with ''v'' value \<and> parse_version value \<noteq> None)"

definition satisfies_borg_engine :: "string \<Rightarrow> string \<Rightarrow> bool" where
  "satisfies_borg_engine rng current =
     (case parse_version current of
        None \<Rightarrow> False
      | Some v \<Rightarrow>
          if v_pre v \<noteq> None \<and> \<not> List.member rng (CHR ''-'') then False
          else
            case range_alternatives rng of
              None \<Rightarrow> False
            | Some parts \<Rightarrow>
                let results = map (satisfies_simple_range v) parts in
                if list_ex (\<lambda>r. r = None) results then False
                else list_ex (\<lambda>r. r = Some True) results)"

section \<open>Comparison functions\<close>

text \<open>
  The contract of a three-way comparison: zero on equal values only, opposite sign when swapped,
  transitive. Sorting and range tests rest on it.
\<close>

locale comparator =
  fixes cmp :: "'a \<Rightarrow> 'a \<Rightarrow> int"
  assumes cmp_zero: "cmp x y = 0 \<longleftrightarrow> x = y"
    and cmp_swap: "cmp y x = - cmp x y"
    and cmp_trans: "cmp x y < 0 \<Longrightarrow> cmp y z < 0 \<Longrightarrow> cmp x z < 0"
begin

lemma cmp_refl [simp]: "cmp x x = 0"
  by (simp add: cmp_zero)

lemma cmp_le_trans: "cmp x y \<le> 0 \<Longrightarrow> cmp y z \<le> 0 \<Longrightarrow> cmp x z \<le> 0"
  using cmp_trans [of x y z] cmp_zero [of x y] cmp_zero [of y z] by fastforce

lemma cmp_le_antisym: "cmp x y \<le> 0 \<Longrightarrow> cmp y x \<le> 0 \<Longrightarrow> x = y"
  using cmp_swap [of y x] cmp_zero [of x y] by simp

lemma cmp_le_total: "cmp x y \<le> 0 \<or> cmp y x \<le> 0"
  using cmp_swap [of y x] by linarith

end

lemma str_less_irrefl [simp]: "\<not> str_less s s"
  by (induction s) auto

lemma str_less_trans: "str_less a b \<Longrightarrow> str_less b c \<Longrightarrow> str_less a c"
proof (induction a b arbitrary: c rule: str_less.induct)
  case (3 a as b bs)
  then show ?case by (cases c) auto
next
  case (2 v va)
  then show ?case by (cases c) auto
qed simp

lemma str_less_total: "str_less a b \<or> a = b \<or> str_less b a"
proof (induction a b rule: str_less.induct)
  case (1 a)
  then show ?case by (cases a) auto
next
  case (3 a as b bs)
  then show ?case using linorder_less_linear [of "of_char a :: nat" "of_char b"] by (auto simp: of_char_eq_iff)
qed simp

lemma sign_less_simps [simp]:
  "sign_less b < 0 \<longleftrightarrow> b" "sign_less b \<noteq> 0" "0 < sign_less b \<longleftrightarrow> \<not> b"
  "sign_less b = - sign_less c \<longleftrightarrow> b \<noteq> c"
  by (auto simp: sign_less_def)

definition ident_less :: "string \<Rightarrow> string \<Rightarrow> bool" where
  "ident_less l r \<longleftrightarrow>
     (if all_digits l \<and> all_digits r then length l < length r \<or> length l = length r \<and> str_less l r
      else if all_digits l \<noteq> all_digits r then all_digits l else str_less l r)"

lemma compare_ident_neg: "compare_ident l r < 0 \<longleftrightarrow> ident_less l r"
  by (auto simp: compare_ident_def ident_less_def Let_def)

lemma ident_less_trans: "ident_less x y \<Longrightarrow> ident_less y z \<Longrightarrow> ident_less x z"
  using str_less_trans [of x y z]
  by (cases "all_digits x"; cases "all_digits y"; cases "all_digits z") (auto simp: ident_less_def)

lemma compare_ident_swap: "compare_ident y x = - compare_ident x y"
proof -
  have "str_less y x \<longleftrightarrow> \<not> str_less x y" if "x \<noteq> y"
    using that str_less_total [of x y] str_less_trans [of x y x] by auto
  then show ?thesis by (auto simp: compare_ident_def Let_def sign_less_def)
qed

interpretation id_cmp: comparator compare_ident
proof
  fix x y z :: string
  show "compare_ident x y = 0 \<longleftrightarrow> x = y"
    by (simp add: compare_ident_def Let_def)
  show "compare_ident y x = - compare_ident x y"
    by (rule compare_ident_swap)
  show "compare_ident x y < 0 \<Longrightarrow> compare_ident y z < 0 \<Longrightarrow> compare_ident x z < 0"
    unfolding compare_ident_neg by (rule ident_less_trans)
qed

lemma compare_idents_zero: "compare_idents x y = 0 \<longleftrightarrow> x = y"
  by (induction x y rule: compare_idents.induct) (auto simp: id_cmp.cmp_zero)

lemma compare_idents_swap: "compare_idents y x = - compare_idents x y"
proof (induction x y rule: compare_idents.induct)
  case (4 l ls r rs)
  then show ?case using id_cmp.cmp_swap [of l r] by simp
qed simp_all

lemma compare_idents_trans:
  "compare_idents x y < 0 \<Longrightarrow> compare_idents y z < 0 \<Longrightarrow> compare_idents x z < 0"
proof (induction x y arbitrary: z rule: compare_idents.induct)
  case (2 r rs)
  then show ?case by (cases z) auto
next
  case (4 l ls r rs)
  then obtain q qs where z: "z = q # qs" by (cases z) auto
  show ?case
    using 4 z id_cmp.cmp_trans [of l r q] by (auto simp: id_cmp.cmp_zero split: if_splits)
qed simp_all

interpretation pre_cmp: comparator compare_pre
proof
  fix x y z :: "string list option"
  show "compare_pre x y = 0 \<longleftrightarrow> x = y"
    by (auto simp: compare_pre_def compare_idents_zero split: option.splits)
  show "compare_pre y x = - compare_pre x y"
    by (cases x; cases y) (auto simp: compare_pre_def intro: compare_idents_swap)
  show "compare_pre x y < 0 \<Longrightarrow> compare_pre y z < 0 \<Longrightarrow> compare_pre x z < 0"
    by (cases x; cases y; cases z) (auto simp: compare_pre_def intro: compare_idents_trans)
qed

interpretation version_cmp: comparator compare_version
proof
  fix x y z :: version
  show "compare_version x y = 0 \<longleftrightarrow> x = y"
    by (cases x; cases y) (auto simp: compare_version_def pre_cmp.cmp_zero)
  show "compare_version y x = - compare_version x y"
    using pre_cmp.cmp_swap [of "v_pre y" "v_pre x"] by (auto simp: compare_version_def sign_less_def)
  show "compare_version x y < 0 \<Longrightarrow> compare_version y z < 0 \<Longrightarrow> compare_version x z < 0"
    using pre_cmp.cmp_trans [of "v_pre x" "v_pre y" "v_pre z"]
    by (auto simp: compare_version_def split: if_splits)
qed

text \<open>So versions are linearly ordered, and the library's order lemmas apply to them.\<close>

instantiation version :: linorder
begin

definition less_eq_version :: "version \<Rightarrow> version \<Rightarrow> bool" where
  "less_eq_version l r = (compare_version l r \<le> 0)"

definition less_version :: "version \<Rightarrow> version \<Rightarrow> bool" where
  "less_version l r = (compare_version l r < 0)"

instance
proof
  fix x y z :: version
  show "(x < y) = (x \<le> y \<and> \<not> y \<le> x)"
    using version_cmp.cmp_swap [of y x] by (auto simp: less_eq_version_def less_version_def)
  show "x \<le> x" by (simp add: less_eq_version_def)
  show "x \<le> y \<Longrightarrow> y \<le> z \<Longrightarrow> x \<le> z"
    unfolding less_eq_version_def by (rule version_cmp.cmp_le_trans)
  show "x \<le> y \<Longrightarrow> y \<le> x \<Longrightarrow> x = y"
    unfolding less_eq_version_def by (rule version_cmp.cmp_le_antisym)
  show "x \<le> y \<or> y \<le> x"
    unfolding less_eq_version_def by (rule version_cmp.cmp_le_total)
qed

end

section \<open>Numeric identifiers\<close>

lemma nat_of_digits_append: "nat_of_digits (s @ [c]) = 10 * nat_of_digits s + digit_value c"
  by (simp add: nat_of_digits_def)

lemma digit_value_less: "is_digit_c c \<Longrightarrow> digit_value c < 10"
  by (auto simp: is_digit_c_def digit_value_def)

lemma foldl_digits: "foldl (\<lambda>n c. 10 * n + digit_value c) a s = a * 10 ^ length s + nat_of_digits s"
proof (induction s rule: rev_induct)
  case (snoc c s)
  then show ?case by (simp add: nat_of_digits_append algebra_simps)
qed (simp add: nat_of_digits_def)

lemma nat_of_digits_Cons: "nat_of_digits (c # s) = digit_value c * 10 ^ length s + nat_of_digits s"
  using foldl_digits [of "digit_value c" s] by (simp add: nat_of_digits_def)

lemma nat_of_digits_less: "list_all is_digit_c s \<Longrightarrow> nat_of_digits s < 10 ^ length s"
proof (induction s)
  case (Cons c s)
  then have "digit_value c \<le> 9" "nat_of_digits s < 10 ^ length s" using digit_value_less [of c] by auto
  then have "digit_value c * 10 ^ length s + nat_of_digits s < 9 * 10 ^ length s + 10 ^ length s"
    by (intro add_le_less_mono mult_right_mono) auto
  then show ?case by (simp add: nat_of_digits_Cons)
qed (simp add: nat_of_digits_def)

lemma str_less_digits:
  "length a = length b \<Longrightarrow> list_all is_digit_c a \<Longrightarrow> list_all is_digit_c b \<Longrightarrow>
   str_less a b \<longleftrightarrow> nat_of_digits a < nat_of_digits b"
proof (induction a b rule: list_induct2)
  case (Cons x xs y ys)
  let ?p = "10 ^ length ys :: nat" and ?x = "digit_value x" and ?y = "digit_value y"
  have less: "nat_of_digits xs < ?p" "nat_of_digits ys < ?p"
    using Cons nat_of_digits_less [of xs] nat_of_digits_less [of ys] by simp_all
  have val: "?x < ?y \<longleftrightarrow> (of_char x :: nat) < of_char y" and eq: "?x = ?y \<longleftrightarrow> (of_char x :: nat) = of_char y"
    using Cons.prems by (auto simp: digit_value_def is_digit_c_def eq_diff_iff)
  have lt: "a * ?p + n < b * ?p + m" if "a < b" "n < ?p" for a b n m
  proof -
    have "Suc a * ?p \<le> b * ?p" using that(1) by (intro mult_right_mono) auto
    with that(2) show ?thesis by simp
  qed
  have len: "length xs = length ys" by (rule Cons.hyps)
  consider "?x < ?y" | "?x = ?y" | "?y < ?x" by linarith
  then show ?case
  proof cases
    case 1
    with lt [OF 1 less(1)] val show ?thesis by (simp add: nat_of_digits_Cons len)
  next
    case 2
    with Cons eq show ?thesis by (simp add: nat_of_digits_Cons of_char_eq_iff)
  next
    case 3
    then have "x \<noteq> y" and "\<not> ?x < ?y" by auto
    moreover have "nat_of_digits (y # ys) < nat_of_digits (x # xs)"
      using lt [OF 3 less(2), of "nat_of_digits xs"] by (simp add: nat_of_digits_Cons len)
    ultimately show ?thesis using val by simp
  qed
qed simp

lemma nat_of_digits_ge:
  assumes "list_all is_digit_c (c # s)" and "c \<noteq> CHR ''0''"
  shows "10 ^ length s \<le> nat_of_digits (c # s)"
proof -
  have "(of_char c :: nat) \<noteq> of_char (CHR ''0'')"
    using assms(2) by (simp only: of_char_eq_iff not_False_eq_True)
  moreover have "48 \<le> (of_char c :: nat)" using assms(1) by (simp add: is_digit_c_def)
  ultimately have "1 \<le> digit_value c" by (simp add: digit_value_def)
  then have "1 * 10 ^ length s \<le> digit_value c * 10 ^ length s" by (rule mult_right_mono) simp
  then show ?thesis unfolding nat_of_digits_Cons by linarith
qed

text \<open>On identifiers without leading zeros, comparing lengths and then digits compares numbers.\<close>

lemma ident_less_numeric:
  assumes "all_digits l" "all_digits r" "\<not> bad_prerelease_id l" "\<not> bad_prerelease_id r"
  shows "ident_less l r \<longleftrightarrow> nat_of_digits l < nat_of_digits r"
proof -
  have shorter: "nat_of_digits a < nat_of_digits b"
    if less: "length a < length b" and da: "all_digits a" and db: "all_digits b"
      and nz: "\<not> bad_prerelease_id b" for a b
  proof -
    obtain c s where b: "b = c # s" using db by (cases b) (auto simp: all_digits_def)
    have "a \<noteq> []" using da by (simp add: all_digits_def)
    then have "s \<noteq> []" using less b by (cases a) auto
    then have "c \<noteq> CHR ''0''" using db nz b by (auto simp: bad_prerelease_id_def)
    then have "10 ^ length s \<le> nat_of_digits b" using nat_of_digits_ge db b by (simp add: all_digits_def)
    moreover have "nat_of_digits a < 10 ^ length a" using nat_of_digits_less da by (simp add: all_digits_def)
    moreover have "(10::nat) ^ length a \<le> 10 ^ length s" using less b by (intro power_increasing) auto
    ultimately show ?thesis by linarith
  qed
  consider "length l < length r" | "length l = length r" | "length r < length l" by linarith
  then show ?thesis
  proof cases
    case 1
    with shorter [OF 1] assms show ?thesis by (simp add: ident_less_def)
  next
    case 2
    with assms show ?thesis by (simp add: ident_less_def str_less_digits all_digits_def)
  next
    case 3
    with shorter [OF 3] assms show ?thesis by (simp add: ident_less_def)
  qed
qed

section \<open>The specification of precedence\<close>

text \<open>
  Semantic versioning, item 11: numeric identifiers are compared as numbers and are below the
  others, the others by character code; identifiers are compared from the left and a prefix is
  below its extensions; a prerelease is below its release.
\<close>

definition spec_ident_less :: "string \<Rightarrow> string \<Rightarrow> bool" where
  "spec_ident_less l r \<longleftrightarrow>
     (if all_digits l \<and> all_digits r then nat_of_digits l < nat_of_digits r
      else if all_digits l \<noteq> all_digits r then all_digits l else str_less l r)"

definition spec_pre_less :: "string list option \<Rightarrow> string list option \<Rightarrow> bool" where
  "spec_pre_less l r \<longleftrightarrow>
     (case (l, r) of
        (Some ls, Some rs) \<Rightarrow>
          (ls, rs) \<in> lexord {(a, b). spec_ident_less a b}
      | (Some _, None) \<Rightarrow> True
      | _ \<Rightarrow> False)"

definition spec_version_less :: "version \<Rightarrow> version \<Rightarrow> bool" where
  "spec_version_less l r \<longleftrightarrow>
     v_major l < v_major r \<or> v_major l = v_major r \<and>
       (v_minor l < v_minor r \<or> v_minor l = v_minor r \<and>
         (v_patch l < v_patch r \<or> v_patch l = v_patch r \<and> spec_pre_less (v_pre l) (v_pre r)))"

definition version_wf :: "version \<Rightarrow> bool" where
  "version_wf v \<longleftrightarrow> (case v_pre v of None \<Rightarrow> True | Some ids \<Rightarrow> \<not> list_ex bad_prerelease_id ids)"

lemma parse_version_wf: "parse_version s = Some v \<Longrightarrow> version_wf v"
  by (auto simp: parse_version_def Let_def version_wf_def split: if_splits list.splits option.splits)

lemma ident_less_spec:
  "\<not> bad_prerelease_id l \<Longrightarrow> \<not> bad_prerelease_id r \<Longrightarrow> ident_less l r \<longleftrightarrow> spec_ident_less l r"
proof -
  assume "\<not> bad_prerelease_id l" "\<not> bad_prerelease_id r"
  then show ?thesis
    using ident_less_numeric [of l r] by (cases "all_digits l \<and> all_digits r")
      (auto simp: ident_less_def spec_ident_less_def)
qed

lemma spec_ident_irrefl [simp]: "\<not> spec_ident_less l l"
  by (simp add: spec_ident_less_def)

lemma compare_idents_spec:
  "\<not> list_ex bad_prerelease_id ls \<Longrightarrow> \<not> list_ex bad_prerelease_id rs \<Longrightarrow>
   compare_idents ls rs < 0 \<longleftrightarrow> (ls, rs) \<in> lexord {(a, b). spec_ident_less a b}"
proof (induction ls rs rule: compare_idents.induct)
  case (4 l ls r rs)
  then have "compare_ident l r < 0 \<longleftrightarrow> spec_ident_less l r"
    by (simp add: compare_ident_neg ident_less_spec)
  with 4 show ?case by (auto simp: id_cmp.cmp_zero)
qed simp_all

lemma version_less_iff: "v < w \<longleftrightarrow> compare_version v w < 0"
  by (simp add: less_version_def)

section \<open>Properties\<close>

text \<open>
  C20: \<open>compare\<close> is the precedence of semantic versioning. On versions the parser accepts, one is
  below another exactly when the specification says so, although the code compares numeric
  identifiers as strings and never converts them.
\<close>

theorem compare_is_semver_precedence:
  assumes "parse_version s = Some v" and "parse_version t = Some w"
  shows "(compare_version v w < 0) = spec_version_less v w"
proof -
  have "version_wf v" "version_wf w" using assms by (auto dest: parse_version_wf)
  then have "compare_pre (v_pre v) (v_pre w) < 0 \<longleftrightarrow> spec_pre_less (v_pre v) (v_pre w)"
    by (auto simp: compare_pre_def spec_pre_less_def version_wf_def compare_idents_spec split: option.splits)
  then show ?thesis by (auto simp: compare_version_def spec_version_less_def)
qed

theorem compare_is_semver_precedence_witness:
  "(compare_version (Version 1 0 0 (Some [''rc'', ''9''])) (Version 1 0 0 (Some [''rc'', ''10''])) < 0) =
   spec_version_less (Version 1 0 0 (Some [''rc'', ''9''])) (Version 1 0 0 (Some [''rc'', ''10'']))"
  by (rule compare_is_semver_precedence [of "''1.0.0-rc.9''" _ "''1.0.0-rc.10''"]) code_simp+

text \<open>
  What a caret range admits. A release that satisfies \<open>^lower\<close> is at least \<open>lower\<close> and has
  the same major number; below 1.0.0 it also has the same minor number, and below 0.1.0 it is
  \<open>lower\<close>'s very patch release.
\<close>

definition caret_compatible :: "version \<Rightarrow> version \<Rightarrow> bool" where
  "caret_compatible lower v \<longleftrightarrow> lower \<le> v \<and> v_major v = v_major lower \<and>
     (v_major lower = 0 \<longrightarrow> v_minor v = v_minor lower \<and>
        (v_minor lower = 0 \<longrightarrow> v_patch v = v_patch lower))"

lemma js_trim_plain: "list_all (\<lambda>c. \<not> is_ws c) s \<Longrightarrow> js_trim s = s"
proof -
  assume a: "list_all (\<lambda>c. \<not> is_ws c) s"
  have d: "list_all (\<lambda>c. \<not> is_ws c) t \<Longrightarrow> dropWhile is_ws t = t" for t by (cases t) auto
  from a d [of s] d [of "rev s"] show ?thesis by (simp add: js_trim_def)
qed

lemma caret_upper:
  assumes "v_pre v = None" and "lower \<le> v" and "compare_version v (upper_bound (CHR ''^'') lower) < 0"
  shows "caret_compatible lower v"
proof -
  have "\<not> v_major v < v_major lower"
    "v_major v = v_major lower \<Longrightarrow> \<not> v_minor v < v_minor lower"
    "v_major v = v_major lower \<Longrightarrow> v_minor v = v_minor lower \<Longrightarrow> \<not> v_patch v < v_patch lower"
    using assms(2) version_cmp.cmp_swap [of v lower]
    by (auto simp: less_eq_version_def compare_version_def sign_less_def split: if_splits)
  with assms show ?thesis
    by (auto simp: caret_compatible_def upper_bound_def compare_version_def sign_less_def compare_pre_def
        split: if_splits)
qed

theorem caret_keeps_major:
  assumes "satisfies_simple_range v (CHR ''^'' # r) = Some True" and "v_pre v = None"
    and "js_trim (CHR ''^'' # r) = CHR ''^'' # r"
  shows "\<exists>lower. parse_version r = Some lower \<and> caret_compatible lower v"
proof -
  have w: "parse_wildcard (CHR ''^'' # r) = None"
  proof -
    have "\<not> rx_match numeric_id (CHR ''^'' # x)" for x
      using rx_match_chars [of numeric_id "CHR ''^'' # x" "CHR ''^''"]
      by (auto simp: numeric_id_def rset_def is_digit_c_def)
    then show ?thesis
      by (auto simp: parse_wildcard_def split: list.split)
  qed
  then obtain lower where l: "parse_version r = Some lower" "\<not> compare_version v lower < 0"
      "compare_version v (upper_bound (CHR ''^'') lower) < 0"
    using assms(1,3)
    by (auto simp: satisfies_simple_range_def Let_def split: option.splits if_splits)
  have "lower \<le> v" using l(2) by (simp add: version_less_iff [symmetric] not_less)
  with l assms(2) show ?thesis by (blast intro: caret_upper)
qed

theorem caret_keeps_major_witness:
  "\<exists>lower. parse_version ''0.1.0'' = Some lower \<and> caret_compatible lower (Version 0 1 7 None)"
  by (rule caret_keeps_major) code_simp+

text \<open>a malformed range admits nothing. Whether a range is malformed does not depend on the version
  it is tested with, so a range that \<open>isValidBorgEngineRange\<close> refuses when a distribution is defined
  is also satisfied by no version when a plugin is loaded.
\<close>

lemma satisfies_simple_range_None: "satisfies_simple_range v r = None \<longleftrightarrow> satisfies_simple_range w r = None"
proof -
  have c: "satisfies_comparator v s = None \<longleftrightarrow> satisfies_comparator w s = None" for s
    by (auto simp: satisfies_comparator_def Let_def split: prod.split option.split)
  have "list_ex (\<lambda>x. x = None) (map (satisfies_comparator v) ws) \<longleftrightarrow>
        list_ex (\<lambda>x. x = None) (map (satisfies_comparator w) ws)" for ws
    unfolding list_ex_iff set_map bex_simps by (rule bex_cong [OF refl]) (rule c)
  then show ?thesis
    by (auto simp: satisfies_simple_range_def Let_def split: option.splits prod.splits)
qed

theorem malformed_range_admits_nothing:
  assumes "\<not> is_valid_borg_engine_range r"
  shows "\<not> satisfies_borg_engine r current"
proof (cases "range_alternatives r")
  case None
  then show ?thesis by (cases "parse_version current") (simp_all add: satisfies_borg_engine_def)
next
  case (Some parts)
  have "list_ex (\<lambda>p. js_trim p = []) (split_bars r)" if t: "js_trim r = []"
  proof -
    have ws: "list_all is_ws r"
    proof -
      have "dropWhile is_ws (rev (dropWhile is_ws r)) = []" using t by (simp add: js_trim_def)
      then have "\<forall>c \<in> set (dropWhile is_ws r). is_ws c" by (simp add: dropWhile_eq_Nil_conv)
      then have "dropWhile is_ws r = []"
        by (metis hd_dropWhile list.set_sel(1))
      then show ?thesis by (simp add: dropWhile_eq_Nil_conv list_all_iff)
    qed
    have "list_all is_ws r' \<Longrightarrow> split_bars r' = [r']" for r'
    proof (induction r' rule: split_bars.induct)
      case (3 c d cs)
      have "\<not> is_ws (CHR ''|'')" by (simp add: is_ws_def)
      with 3 show ?case by (auto split: list.split)
    qed simp_all
    with ws t show ?thesis by simp
  qed
  then have "js_trim r \<noteq> []" using Some by (auto simp: range_alternatives_def Let_def split: if_splits)
  with assms Some obtain p where p: "p \<in> set parts" "satisfies_simple_range (Version 0 0 0 None) p = None"
    by (auto simp: is_valid_borg_engine_range_def list_all_iff)
  have "list_ex (\<lambda>x. x = None) (map (satisfies_simple_range v) parts)" for v
  proof -
    have "satisfies_simple_range v p = None" using p(2) satisfies_simple_range_None by blast
    with p(1) show ?thesis unfolding list_ex_iff set_map by blast
  qed
  with Some show ?thesis by (cases "parse_version current") (simp_all add: satisfies_borg_engine_def Let_def)
qed

theorem malformed_range_admits_nothing_witness: "\<not> satisfies_borg_engine ''>= 1.0.0'' ''1.2.0''"
  by (rule malformed_range_admits_nothing) code_simp

end
