(* ===== verification/Distribution.thy ===== *)
theory Distribution
  imports Engine_Range Json
begin

text \<open>
  Reading a distribution (\<open>packages/kernel/src/distribution.ts\<close>). The code pushes messages to a
  shared array; here each reader returns the problems it adds, as data instead of text, next to
  its result. Objects of any class are read as their own fields.
\<close>

section \<open>Data\<close>

datatype problem =
    UnknownField string string
  | BadPluginId jsval
  | BadPluginEntry nat
  | BadEnabled nat
  | DuplicatePlugin string
  | NoPlugins
  | BadModels
  | BadModelPreference jsval
  | BadDefaults
  | BadDetachedEntry nat
  | BadDetachedPlugin jsval
  | BadSubjectKinds jsval
  | BadPolicy
  | BadDetachedResults
  | NotADefinition
  | BadDistributionId jsval
  | BadName
  | BadVersion jsval
  | BadKernelRange jsval

record plugin_entry =
  pe_id :: string
  pe_enabled :: bool

record detached_entry =
  de_plugin :: string
  de_kinds :: "string list"

record distribution =
  d_id :: string
  d_name :: string
  d_version :: string
  d_kernel :: string
  d_plugins :: "plugin_entry list"
  d_models :: "string list option"
  d_detached :: "detached_entry list option"

type_synonym 'a reading = "'a option \<times> problem list"

section \<open>Schemas\<close>

definition plugin_id_pattern :: rx where
  "plugin_id_pattern = RSeq ident_head (rplus ident_tail)"

definition plugin_id_ok :: "jsval \<Rightarrow> bool" where
  "plugin_id_ok v = (case v of VStr s \<Rightarrow> rx_match plugin_id_pattern s | _ \<Rightarrow> False)"

definition str_val :: "jsval \<Rightarrow> string" where
  "str_val v = (case v of VStr s \<Rightarrow> s | _ \<Rightarrow> [])"

text \<open>\<open>modelPreferenceSchema\<close>: something, a colon, something, and no white space.\<close>

definition model_preference_ok :: "jsval \<Rightarrow> bool" where
  "model_preference_ok v =
     (case v of
        VStr s \<Rightarrow>
          List.member s (CHR '':'') \<and> takeWhile (\<lambda>c. c \<noteq> CHR '':'') s \<noteq> [] \<and>
          tl (dropWhile (\<lambda>c. c \<noteq> CHR '':'') s) \<noteq> [] \<and> \<not> list_ex is_ws s
      | _ \<Rightarrow> False)"

definition has_field :: "jsval \<Rightarrow> string \<Rightarrow> bool" where
  "has_field v k = List.member (map fst (obj_fields v)) k"

section \<open>Readers\<close>

definition reject_unknown :: "jsval \<Rightarrow> string list \<Rightarrow> string \<Rightarrow> problem list" where
  "reject_unknown v allowed label =
     map (UnknownField label) (filter (\<lambda>k. \<not> List.member allowed k) (map fst (obj_fields v)))"

definition indexed :: "string \<Rightarrow> nat \<Rightarrow> string" where
  "indexed label i = label @ ''['' @ show_nat i @ '']''"

definition read_plugin_entry :: "jsval \<Rightarrow> nat \<Rightarrow> plugin_entry reading" where
  "read_plugin_entry v i =
     (case v of
        VStr s \<Rightarrow>
          if plugin_id_ok v then (Some \<lparr>pe_id = s, pe_enabled = True\<rparr>, []) else (None, [BadPluginId v])
      | _ \<Rightarrow>
          if \<not> is_plain_object v then (None, [BadPluginEntry i])
          else
            let unknown = reject_unknown v [''id'', ''enabled''] (indexed ''plugins'' i);
                ok = plugin_id_ok (getp v ''id'');
                bad_enabled = (has_field v ''enabled'' \<and> (case getp v ''enabled'' of VBool _ \<Rightarrow> False | _ \<Rightarrow> True));
                ps = unknown @ (if ok then [] else [BadPluginId (getp v ''id'')]) @
                     (if bad_enabled then [BadEnabled i] else [])
            in if \<not> ok \<or> bad_enabled then (None, ps)
               else (Some \<lparr>pe_id = str_val (getp v ''id''), pe_enabled = (getp v ''enabled'' \<noteq> VBool False)\<rparr>, ps))"

text \<open>The loop of \<open>readPlugins\<close>: the plugins read, the ids seen and the duplicated ids, in order.\<close>

fun read_plugin_list ::
  "jsval list \<Rightarrow> nat \<Rightarrow> string list \<Rightarrow> string list
    \<Rightarrow> plugin_entry list \<times> string list \<times> problem list" where
  "read_plugin_list [] i seen dups = ([], dups, [])"
| "read_plugin_list (v # vs) i seen dups =
     (case read_plugin_entry v i of
        (None, ps) \<Rightarrow>
          (let (pls, d, qs) = read_plugin_list vs (Suc i) seen dups in (pls, d, ps @ qs))
      | (Some p, ps) \<Rightarrow>
          (let (pls, d, qs) = read_plugin_list vs (Suc i) (pe_id p # seen)
                 (if List.member seen (pe_id p) \<and> \<not> List.member dups (pe_id p)
                  then dups @ [pe_id p] else dups)
           in (p # pls, d, ps @ qs)))"

definition read_plugins :: "jsval \<Rightarrow> plugin_entry list reading" where
  "read_plugins v =
     (case v of
        VArr vs \<Rightarrow>
          if vs = [] then (None, [NoPlugins])
          else
            let (pls, dups, ps) = read_plugin_list vs 0 [] [] in
            (if length pls = length vs then Some pls else None, ps @ map DuplicatePlugin dups)
      | _ \<Rightarrow> (None, [NoPlugins]))"

definition read_models :: "jsval \<Rightarrow> string list reading" where
  "read_models v =
     (case v of
        VArr vs \<Rightarrow>
          let good = filter model_preference_ok vs in
          (if length good = length vs then Some (map str_val good) else None,
           map BadModelPreference (filter (\<lambda>p. \<not> model_preference_ok p) vs))
      | _ \<Rightarrow> (None, [BadModels]))"

definition only_key :: "jsval \<Rightarrow> string \<Rightarrow> bool" where
  "only_key v k = list_all (\<lambda>f. f = k) (map fst (obj_fields v))"

text \<open>\<open>Some None\<close> is the empty object.\<close>

definition read_defaults :: "jsval \<Rightarrow> string list option reading" where
  "read_defaults v =
     (if v = VUndef then (Some None, [])
      else if \<not> is_plain_object v then (None, [BadDefaults])
      else
        let unknown = reject_unknown v [''models''] ''defaults'' in
        if getp v ''models'' = VUndef
        then (if only_key v ''models'' then Some None else None, unknown)
        else
          let (models, ps) = read_models (getp v ''models'') in
          (case models of
             None \<Rightarrow> (None, unknown @ ps)
           | Some ms \<Rightarrow> (if only_key v ''models'' then Some (Some ms) else None, unknown @ ps)))"

definition kind_ok :: "jsval \<Rightarrow> bool" where
  "kind_ok v = (case v of VStr s \<Rightarrow> s \<noteq> [] | _ \<Rightarrow> False)"

definition read_detached_entry :: "jsval \<Rightarrow> nat \<Rightarrow> detached_entry reading" where
  "read_detached_entry v i =
     (if \<not> is_plain_object v then (None, [BadDetachedEntry i])
      else
        let unknown = reject_unknown v [''pluginId'', ''subjectKinds''] (indexed ''policy.detachedResults'' i);
            pid = getp v ''pluginId'';
            ok = plugin_id_ok pid;
            kinds = getp v ''subjectKinds'';
            kinds_ok = (case kinds of VArr ks \<Rightarrow> ks \<noteq> [] \<and> list_all kind_ok ks | _ \<Rightarrow> False);
            ps = unknown @ (if ok then [] else [BadDetachedPlugin pid]) @
                 (if kinds_ok then [] else [BadSubjectKinds pid])
        in if \<not> ok \<or> \<not> kinds_ok then (None, ps)
           else (Some \<lparr>de_plugin = str_val pid,
                       de_kinds = map str_val (filter kind_ok (case kinds of VArr ks \<Rightarrow> ks | _ \<Rightarrow> []))\<rparr>, ps))"

fun read_detached_list :: "jsval list \<Rightarrow> nat \<Rightarrow> detached_entry list \<times> problem list" where
  "read_detached_list [] i = ([], [])"
| "read_detached_list (v # vs) i =
     (let (e, ps) = read_detached_entry v i; (es, qs) = read_detached_list vs (Suc i)
      in (case e of None \<Rightarrow> es | Some x \<Rightarrow> x # es, ps @ qs))"

definition read_policy :: "jsval \<Rightarrow> detached_entry list option reading" where
  "read_policy v =
     (if v = VUndef then (Some None, [])
      else if \<not> is_plain_object v then (None, [BadPolicy])
      else
        let unknown = reject_unknown v [''detachedResults''] ''policy'';
            dr = getp v ''detachedResults'' in
        if dr = VUndef then (if only_key v ''detachedResults'' then Some None else None, unknown)
        else
          (case dr of
             VArr vs \<Rightarrow>
               let (es, ps) = read_detached_list vs 0 in
               (if length es \<noteq> length vs \<or> \<not> only_key v ''detachedResults'' then None else Some (Some es),
                unknown @ ps)
           | _ \<Rightarrow> (None, unknown @ [BadDetachedResults])))"

definition name_ok :: "jsval \<Rightarrow> bool" where
  "name_ok v = (case v of VStr s \<Rightarrow> js_trim s \<noteq> [] | _ \<Rightarrow> False)"

definition version_ok :: "jsval \<Rightarrow> bool" where
  "version_ok v = (case v of VStr s \<Rightarrow> is_semantic_version s | _ \<Rightarrow> False)"

definition kernel_ok :: "jsval \<Rightarrow> bool" where
  "kernel_ok v = (case v of VStr s \<Rightarrow> is_valid_borg_engine_range s | _ \<Rightarrow> False)"

definition read_distribution :: "jsval \<Rightarrow> distribution reading" where
  "read_distribution v =
     (if \<not> is_plain_object v then (None, [NotADefinition])
      else
        let unknown = reject_unknown v
              [''id'', ''name'', ''version'', ''kernel'', ''plugins'', ''defaults'', ''policy''] ''distribution'';
            i = getp v ''id''; n = getp v ''name''; ver = getp v ''version''; k = getp v ''kernel'';
            (plugins, p1) = read_plugins (getp v ''plugins'');
            (defaults, p2) = read_defaults (getp v ''defaults'');
            (policy, p3) = read_policy (getp v ''policy'');
            problems = unknown @ (if plugin_id_ok i then [] else [BadDistributionId i]) @
              (if name_ok n then [] else [BadName]) @ (if version_ok ver then [] else [BadVersion ver]) @
              (if kernel_ok k then [] else [BadKernelRange k]) @ p1 @ p2 @ p3
        in
          (case (plugins, defaults, policy) of
             (Some ps, Some ms, Some ds) \<Rightarrow>
               (if problems \<noteq> [] \<or> \<not> plugin_id_ok i \<or> \<not> name_ok n \<or> \<not> version_ok ver \<or> \<not> kernel_ok k
                then None
                else Some \<lparr>d_id = str_val i, d_name = str_val n, d_version = str_val ver,
                           d_kernel = str_val k, d_plugins = ps, d_models = ms, d_detached = ds\<rparr>, problems)
           | _ \<Rightarrow> (None, problems)))"

definition distribution_label :: "jsval \<Rightarrow> string" where
  "distribution_label v =
     (case getp v ''id'' of
        VStr s \<Rightarrow> if s \<noteq> [] then s else ''(unknown)''
      | _ \<Rightarrow> ''(unknown)'')"

text \<open>\<open>defineDistribution\<close>: the thrown error carries the label and every problem.\<close>

definition define_distribution :: "jsval \<Rightarrow> (string \<times> problem list) + distribution" where
  "define_distribution v =
     (case read_distribution v of
        (Some d, _) \<Rightarrow> Inr d
      | (None, ps) \<Rightarrow> Inl (distribution_label v, ps))"

section \<open>Results and problems agree\<close>

lemma reject_unknown_nil: "reject_unknown v allowed l = [] \<longleftrightarrow> (\<forall>k \<in> set (map fst (obj_fields v)). k \<in> set allowed)"
  by (auto simp: reject_unknown_def filter_empty_conv)

lemma only_key_iff: "only_key v k \<longleftrightarrow> reject_unknown v [k] l = []"
  by (auto simp: only_key_def reject_unknown_nil list_all_iff)

lemma read_plugin_entry_None: "read_plugin_entry v i = (None, ps) \<Longrightarrow> ps \<noteq> []"
  by (auto simp: read_plugin_entry_def Let_def split: jsval.splits if_splits)

lemma read_plugin_list_length:
  "read_plugin_list vs i seen dups = (pls, d, ps) \<Longrightarrow>
   length pls \<le> length vs \<and> (ps = [] \<longrightarrow> length pls = length vs)"
proof (induction vs arbitrary: i seen dups pls d ps)
  case (Cons v vs)
  then show ?case
    by (auto split: prod.splits option.splits dest: read_plugin_entry_None) force+
qed simp

lemma read_plugins_None: "read_plugins v = (None, ps) \<Longrightarrow> ps \<noteq> []"
  by (auto simp: read_plugins_def Let_def split: jsval.splits if_splits prod.splits
      dest: read_plugin_list_length)

lemma read_models_None: "read_models v = (None, ps) \<Longrightarrow> ps \<noteq> []"
  by (auto simp: read_models_def Let_def filter_empty_conv split: jsval.splits if_splits)

lemma read_defaults_None: "read_defaults v = (None, ps) \<Longrightarrow> ps \<noteq> []"
  by (auto simp: read_defaults_def Let_def only_key_iff [of _ _ "''defaults''"]
      split: if_splits prod.splits option.splits dest: read_models_None)

lemma read_detached_entry_None: "read_detached_entry v i = (None, ps) \<Longrightarrow> ps \<noteq> []"
  by (auto simp: read_detached_entry_def Let_def split: if_splits)

lemma read_detached_list_length:
  "read_detached_list vs i = (es, ps) \<Longrightarrow> ps = [] \<Longrightarrow> length es = length vs"
proof (induction vs arbitrary: i es ps)
  case (Cons v vs)
  then show ?case by (auto split: prod.splits option.splits dest: read_detached_entry_None)
qed simp

lemma read_policy_None: "read_policy v = (None, ps) \<Longrightarrow> ps \<noteq> []"
  by (auto simp: read_policy_def Let_def only_key_iff [of _ _ "''policy''"]
      split: if_splits prod.splits jsval.splits dest: read_detached_list_length)

section \<open>Normal forms\<close>

text \<open>The object the code returns, as a value.\<close>

definition plugin_value :: "plugin_entry \<Rightarrow> jsval" where
  "plugin_value p = VObj [(''id'', VStr (pe_id p)), (''enabled'', VBool (pe_enabled p))]"

definition detached_value :: "detached_entry \<Rightarrow> jsval" where
  "detached_value e = VObj [(''pluginId'', VStr (de_plugin e)), (''subjectKinds'', VArr (map VStr (de_kinds e)))]"

definition distribution_value :: "distribution \<Rightarrow> jsval" where
  "distribution_value d = VObj
     [(''id'', VStr (d_id d)), (''name'', VStr (d_name d)), (''version'', VStr (d_version d)),
      (''kernel'', VStr (d_kernel d)), (''plugins'', VArr (map plugin_value (d_plugins d))),
      (''defaults'', VObj (case d_models d of None \<Rightarrow> [] | Some ms \<Rightarrow> [(''models'', VArr (map VStr ms))])),
      (''policy'', VObj (case d_detached d of None \<Rightarrow> []
         | Some es \<Rightarrow> [(''detachedResults'', VArr (map detached_value es))]))]"

lemma read_plugin_entry_ok: "read_plugin_entry v i = (Some p, ps) \<Longrightarrow> plugin_id_ok (VStr (pe_id p))"
  by (auto simp: read_plugin_entry_def Let_def plugin_id_ok_def str_val_def split: jsval.splits if_splits)

lemma read_plugin_value:
  "plugin_id_ok (VStr (pe_id p)) \<Longrightarrow> read_plugin_entry (plugin_value p) i = (Some p, [])"
  by (simp add: read_plugin_entry_def plugin_value_def Let_def is_plain_object_def getp_def has_field_def
      obj_fields_def reject_unknown_def str_val_def)

lemma read_plugin_list_dups: "read_plugin_list vs i seen dups = (pls, d, ps) \<Longrightarrow> set dups \<subseteq> set d"
proof (induction vs arbitrary: i seen dups pls d ps)
  case (Cons v vs)
  then show ?case by (fastforce split: prod.splits option.splits if_splits)
qed simp

lemma read_plugin_list_distinct:
  "read_plugin_list vs i seen [] = (pls, [], ps) \<Longrightarrow>
   distinct (map pe_id pls) \<and> set (map pe_id pls) \<inter> set seen = {} \<and>
   list_all (\<lambda>p. plugin_id_ok (VStr (pe_id p))) pls"
proof (induction vs arbitrary: i seen pls ps)
  case (Cons v vs)
  show ?case
  proof (cases "read_plugin_entry v i")
    case (Pair r qs)
    show ?thesis
    proof (cases r)
      case None
      with Cons Pair show ?thesis by (auto split: prod.splits)
    next
      case (Some p)
      obtain pls' d' ps' where rec: "read_plugin_list vs (Suc i) (pe_id p # seen)
          (if List.member seen (pe_id p) then [pe_id p] else []) = (pls', d', ps')"
        by (metis prod_cases3)
      have d: "d' = []" "pls = p # pls'" using Cons.prems Pair Some rec by (auto split: if_splits)
      then have "\<not> List.member seen (pe_id p)" using read_plugin_list_dups [OF rec] by auto
      with rec d Cons.IH [of "Suc i" "pe_id p # seen" pls' ps'] Pair Some show ?thesis
        by (auto dest: read_plugin_entry_ok)
    qed
  qed
qed simp

lemma read_plugin_list_values:
  "distinct (map pe_id pls) \<Longrightarrow> set (map pe_id pls) \<inter> set seen = {} \<Longrightarrow>
   list_all (\<lambda>p. plugin_id_ok (VStr (pe_id p))) pls \<Longrightarrow>
   read_plugin_list (map plugin_value pls) i seen [] = (pls, [], [])"
  by (induction pls arbitrary: i seen) (auto simp: read_plugin_value)

lemma read_plugins_normal:
  assumes "read_plugins v = (Some pls, [])"
  shows "read_plugins (VArr (map plugin_value pls)) = (Some pls, [])"
proof -
  obtain vs where v: "v = VArr vs" "vs \<noteq> []"
    using assms by (auto simp: read_plugins_def split: jsval.splits if_splits)
  obtain p d q where r: "read_plugin_list vs 0 [] [] = (p, d, q)" by (metis prod_cases3)
  then have e: "p = pls" "d = []" "q = []" "length pls = length vs"
    using assms v by (auto simp: read_plugins_def split: if_splits)
  then have "pls \<noteq> []" using v(2) by auto
  then show ?thesis
    using read_plugin_list_distinct [of vs 0 "[]" pls "[]"] r e
    by (auto simp: read_plugins_def read_plugin_list_values)
qed

lemma model_str: "list_all model_preference_ok vs \<Longrightarrow> map VStr (map str_val vs) = vs"
  by (induction vs) (auto simp: model_preference_ok_def str_val_def split: jsval.splits)

lemma filter_length_all: "length (filter P xs) = length xs \<longleftrightarrow> list_all P xs"
proof
  show "length (filter P xs) = length xs \<Longrightarrow> list_all P xs"
    using length_filter_less [of _ xs P] by (fastforce simp: list_all_iff)
  show "list_all P xs \<Longrightarrow> length (filter P xs) = length xs"
    by (simp add: list_all_iff filter_True)
qed

lemma read_models_normal:
  assumes "read_models v = (Some ms, ps)"
  shows "read_models (VArr (map VStr ms)) = (Some ms, [])"
proof -
  obtain vs where v: "v = VArr vs" and l: "list_all model_preference_ok vs" and ms: "ms = map str_val vs"
    using assms by (auto simp: read_models_def Let_def filter_length_all list_all_iff split: jsval.splits if_splits)
  then have "map VStr ms = vs" using model_str by blast
  with l ms show ?thesis
    by (auto simp: read_models_def Let_def filter_length_all filter_empty_conv list_all_iff cong: filter_cong)
qed

lemma read_defaults_normal:
  assumes "read_defaults v = (Some ms, [])"
  shows "read_defaults (VObj (case ms of None \<Rightarrow> [] | Some xs \<Rightarrow> [(''models'', VArr (map VStr xs))])) = (Some ms, [])"
proof (cases ms)
  case None
  then show ?thesis
    by (simp add: read_defaults_def is_plain_object_def getp_def obj_fields_def reject_unknown_def only_key_def Let_def)
next
  case (Some xs)
  then obtain ps where "read_models (getp v ''models'') = (Some xs, ps)"
    using assms by (auto simp: read_defaults_def Let_def split: if_splits prod.splits option.splits)
  then have "read_models (VArr (map VStr xs)) = (Some xs, [])" by (rule read_models_normal)
  with Some show ?thesis
    by (simp add: read_defaults_def is_plain_object_def getp_def obj_fields_def reject_unknown_def only_key_def Let_def)
qed

lemma kinds_str: "list_all kind_ok ks \<Longrightarrow> map VStr (map str_val ks) = ks"
  by (induction ks) (auto simp: kind_ok_def str_val_def split: jsval.splits)

lemma read_detached_value:
  assumes "read_detached_entry v i = (Some e, ps)"
  shows "read_detached_entry (detached_value e) j = (Some e, [])"
proof -
  obtain ks where k: "getp v ''subjectKinds'' = VArr ks" "ks \<noteq> []" "list_all kind_ok ks"
      "plugin_id_ok (getp v ''pluginId'')" "de_plugin e = str_val (getp v ''pluginId'')"
      "de_kinds e = map str_val ks"
    using assms
    by (auto simp: read_detached_entry_def Let_def list_all_iff filter_True split: if_splits jsval.splits)
  have "VStr (de_plugin e) = getp v ''pluginId''"
    using k(4,5) by (auto simp: plugin_id_ok_def str_val_def split: jsval.splits)
  moreover have "map VStr (de_kinds e) = ks" using k(3,6) by (simp only: kinds_str)
  ultimately show ?thesis using k
    by (cases e) (simp add: read_detached_entry_def detached_value_def is_plain_object_def getp_def obj_fields_def
      reject_unknown_def Let_def list_all_iff filter_True)
qed

definition entry_read :: "detached_entry \<Rightarrow> bool" where
  "entry_read e \<longleftrightarrow> (\<exists>v j qs. read_detached_entry v j = (Some e, qs))"

lemma read_detached_list_ok:
  "read_detached_list vs i = (es, ps) \<Longrightarrow> list_all entry_read es"
proof (induction vs arbitrary: i es ps)
  case (Cons v vs)
  obtain r qs where r: "read_detached_entry v i = (r, qs)" by fastforce
  obtain es' ps' where es': "read_detached_list vs (Suc i) = (es', ps')" by fastforce
  have "r = Some e \<Longrightarrow> entry_read e" for e using r by (auto simp: entry_read_def)
  with Cons.IH [OF es'] Cons.prems r es' show ?case by (cases r) auto
qed simp

lemma read_detached_list_values:
  "list_all entry_read es \<Longrightarrow> read_detached_list (map detached_value es) i = (es, [])"
proof (induction es arbitrary: i)
  case (Cons e es)
  then have "entry_read e" by simp
  then have "read_detached_entry (detached_value e) i = (Some e, [])"
    unfolding entry_read_def using read_detached_value by blast
  with Cons show ?case by simp
qed simp

lemma read_policy_normal:
  assumes "read_policy v = (Some ds, [])"
  shows "read_policy (VObj (case ds of None \<Rightarrow> []
      | Some es \<Rightarrow> [(''detachedResults'', VArr (map detached_value es))])) = (Some ds, [])"
proof (cases ds)
  case None
  then show ?thesis
    by (simp add: read_policy_def is_plain_object_def getp_def obj_fields_def reject_unknown_def only_key_def Let_def)
next
  case (Some es)
  then obtain vs ps where "read_detached_list vs 0 = (es, ps)"
    using assms by (auto simp: read_policy_def Let_def split: if_splits prod.splits jsval.splits)
  then have "read_detached_list (map detached_value es) 0 = (es, [])"
    by (intro read_detached_list_values read_detached_list_ok)
  with Some show ?thesis
    by (simp add: read_policy_def is_plain_object_def getp_def obj_fields_def reject_unknown_def only_key_def Let_def)
qed

section \<open>Properties\<close>

text \<open>
  A distribution is returned exactly when there is nothing to report. No definition is refused
  without a reason, and none is accepted that has a problem.
\<close>

theorem refused_iff_problems:
  "fst (read_distribution v) = None \<longleftrightarrow> snd (read_distribution v) \<noteq> []"
proof -
  obtain plugins p1 where 1: "read_plugins (getp v ''plugins'') = (plugins, p1)" by fastforce
  obtain defaults p2 where 2: "read_defaults (getp v ''defaults'') = (defaults, p2)" by fastforce
  obtain policy p3 where 3: "read_policy (getp v ''policy'') = (policy, p3)" by fastforce
  have "plugins = None \<Longrightarrow> p1 \<noteq> []" "defaults = None \<Longrightarrow> p2 \<noteq> []" "policy = None \<Longrightarrow> p3 \<noteq> []"
    using 1 2 3 read_plugins_None read_defaults_None read_policy_None by auto
  then show ?thesis
    by (auto simp: read_distribution_def Let_def 1 2 3 split: option.splits)
qed

text \<open>
  C21: reading is idempotent. The object \<open>defineDistribution\<close> returns, passed again to
  \<open>createKernel\<close>, is read without a problem as the same distribution.
\<close>

theorem read_distribution_idempotent:
  assumes "define_distribution v = Inr d"
  shows "define_distribution (distribution_value d) = Inr d"
proof -
  obtain ps where r: "read_distribution v = (Some d, ps)"
    using assms by (auto simp: define_distribution_def split: prod.splits option.splits)
  obtain pls ms ds where p: "read_plugins (getp v ''plugins'') = (Some pls, [])"
      "read_defaults (getp v ''defaults'') = (Some ms, [])" "read_policy (getp v ''policy'') = (Some ds, [])"
    and ok: "plugin_id_ok (getp v ''id'')" "name_ok (getp v ''name'')" "version_ok (getp v ''version'')"
      "kernel_ok (getp v ''kernel'')"
    and d: "d = \<lparr>d_id = str_val (getp v ''id''), d_name = str_val (getp v ''name''),
        d_version = str_val (getp v ''version''), d_kernel = str_val (getp v ''kernel''),
        d_plugins = pls, d_models = ms, d_detached = ds\<rparr>"
    using r by (auto simp: read_distribution_def Let_def split: if_splits prod.splits option.splits)
  have s: "VStr (str_val (getp v k)) = getp v k" if "k \<in> {''id'', ''name'', ''version'', ''kernel''}" for k
    using that ok
    by (auto simp: plugin_id_ok_def name_ok_def version_ok_def kernel_ok_def str_val_def split: jsval.splits)
  let ?w = "distribution_value d"
  have w: "is_plain_object ?w" "getp ?w ''id'' = VStr (d_id d)" "getp ?w ''name'' = VStr (d_name d)"
    "getp ?w ''version'' = VStr (d_version d)" "getp ?w ''kernel'' = VStr (d_kernel d)"
    "getp ?w ''plugins'' = VArr (map plugin_value (d_plugins d))"
    "getp ?w ''defaults'' = VObj (case d_models d of None \<Rightarrow> [] | Some xs \<Rightarrow> [(''models'', VArr (map VStr xs))])"
    "getp ?w ''policy'' = VObj (case d_detached d of None \<Rightarrow> []
      | Some es \<Rightarrow> [(''detachedResults'', VArr (map detached_value es))])"
    "reject_unknown ?w [''id'', ''name'', ''version'', ''kernel'', ''plugins'', ''defaults'', ''policy'']
       ''distribution'' = []"
    by (simp_all add: distribution_value_def is_plain_object_def getp_def obj_fields_def reject_unknown_def)
  have i: "VStr (d_id d) = getp v ''id''" "VStr (d_name d) = getp v ''name''"
    "VStr (d_version d) = getp v ''version''" "VStr (d_kernel d) = getp v ''kernel''"
    by (simp_all add: d s)
  have sel: "d_plugins d = pls" "d_models d = ms" "d_detached d = ds"
    by (simp_all add: d)
  have "read_distribution ?w = (Some d, [])"
    unfolding read_distribution_def w i sel Let_def read_plugins_normal [OF p(1)]
      read_defaults_normal [OF p(2)] read_policy_normal [OF p(3)]
    by (simp add: w(1) ok) (simp add: d)
  then show ?thesis by (simp add: define_distribution_def)
qed

definition demo_distribution :: jsval where
  "demo_distribution = VObj [(''id'', VStr ''borg.home''), (''name'', VStr ''Home''), (''version'', VStr ''1.0.0''),
     (''kernel'', VStr ''^0.1.0''), (''plugins'', VArr [VStr ''borg.chat'', VObj [(''id'', VStr ''borg.bots''),
       (''enabled'', VBool False)]])]"

theorem read_distribution_idempotent_witness:
  "define_distribution (distribution_value (projr (define_distribution demo_distribution)))
     = define_distribution demo_distribution"
proof -
  have "define_distribution demo_distribution = Inr (projr (define_distribution demo_distribution))" by code_simp
  from read_distribution_idempotent [OF this] this show ?thesis by simp
qed

end
