(* ===== verification/Cron.thy ===== *)
theory Cron
  imports Json Engine_Range
begin

text \<open>
  Cron expressions (\<open>packages/kernel/src/cron.ts\<close>) and the part of \<open>Date\<close> they use: the UTC
  fields of a time in milliseconds, as the language defines them.
\<close>

section \<open>Dates\<close>

definition MS_PER_DAY :: int where
  "MS_PER_DAY = 86400000"

definition day_of :: "int \<Rightarrow> int" where
  "day_of t = t div MS_PER_DAY"

definition day_from_year :: "int \<Rightarrow> int" where
  "day_from_year y = 365 * (y - 1970) + (y - 1969) div 4 - (y - 1901) div 100 + (y - 1601) div 400"

definition leap_year :: "int \<Rightarrow> bool" where
  "leap_year y = (y mod 4 = 0 \<and> (y mod 100 \<noteq> 0 \<or> y mod 400 = 0))"

text \<open>The year of a day: the estimate from the mean year is off by at most one.\<close>

definition year_from_day :: "int \<Rightarrow> int" where
  "year_from_day d =
     (let y = 1970 + d * 400 div 146097 in
      if day_from_year (y + 1) \<le> d then y + 1 else if day_from_year y \<le> d then y else y - 1)"

definition month_starts :: "bool \<Rightarrow> int list" where
  "month_starts leap =
     (let l = (if leap then 1 else 0) in
      [0, 31, 59 + l, 90 + l, 120 + l, 151 + l, 181 + l, 212 + l, 243 + l, 273 + l, 304 + l, 334 + l])"

text \<open>The month (from 1) and the day of the month of a day within its year.\<close>

fun month_date :: "int list \<Rightarrow> int \<Rightarrow> int \<Rightarrow> int \<times> int" where
  "month_date [] m d = (m, d + 1)"
| "month_date [s] m d = (m, d - s + 1)"
| "month_date (s # s' # ss) m d = (if d < s' then (m, d - s + 1) else month_date (s' # ss) (m + 1) d)"

definition civil :: "int \<Rightarrow> int \<times> int" where
  "civil day =
     (let y = year_from_day day in month_date (month_starts (leap_year y)) 1 (day - day_from_year y))"

definition utc_minute :: "int \<Rightarrow> int" where
  "utc_minute t = t div 60000 mod 60"

definition utc_hour :: "int \<Rightarrow> int" where
  "utc_hour t = t div 3600000 mod 24"

definition utc_month :: "int \<Rightarrow> int" where
  "utc_month t = fst (civil (day_of t))"

definition utc_date :: "int \<Rightarrow> int" where
  "utc_date t = snd (civil (day_of t))"

definition utc_weekday :: "int \<Rightarrow> int" where
  "utc_weekday t = (day_of t + 4) mod 7"

section \<open>Expressions\<close>

datatype cron_error = FieldCount | EmptyField | BadStep | OutOfRange | MatchesNothing | NoOccurrence

record cron_fields =
  cf_minute :: "int set"
  cf_hour :: "int set"
  cf_day :: "int set"
  cf_month :: "int set"
  cf_weekday :: "int set"
  cf_day_restricted :: bool
  cf_weekday_restricted :: bool

definition MAX_SEARCH_MS :: int where
  "MAX_SEARCH_MS = 4 * 365 * 24 * 60 * 60 * 1000"

text \<open>\<open>addRange\<close>; the caller's step is at least one.\<close>

function add_range :: "int \<Rightarrow> int \<Rightarrow> int \<Rightarrow> int set \<Rightarrow> int set" where
  "add_range start stop step values =
     (if stop < start \<or> step < 1 then values else add_range (start + step) stop step (insert start values))"
  by auto
termination by (relation "measure (\<lambda>(start, stop, step, _). nat (stop + 1 - start))") auto

declare add_range.simps [simp del]

definition nth_or_none :: "string list \<Rightarrow> nat \<Rightarrow> string option" where
  "nth_or_none xs n = (if n < length xs then Some (xs ! n) else None)"

text \<open>One comma-separated part of a field.\<close>

definition parse_part :: "int \<Rightarrow> int \<Rightarrow> string \<Rightarrow> int set \<Rightarrow> cron_error + int set" where
  "parse_part lo hi part values =
     (let pieces = js_split (CHR ''/'') part;
          span = hd pieces;
          step = (case nth_or_none pieces 1 of None \<Rightarrow> Some 1 | Some tok \<Rightarrow> num_int (js_number tok))
      in if span = [] then Inl EmptyField
         else
           case step of
             None \<Rightarrow> Inl BadStep
           | Some st \<Rightarrow>
               if st < 1 then Inl BadStep
               else if span = ''*'' then Inr (add_range lo hi st values)
               else
                 let ends = js_split (CHR ''-'') span;
                     start = num_int (js_number (hd ends));
                     stop = (case nth_or_none ends 1 of None \<Rightarrow> start | Some tok \<Rightarrow> num_int (js_number tok))
                 in (case (start, stop) of
                       (Some a, Some b) \<Rightarrow>
                         if a < lo \<or> hi < b \<or> b < a then Inl OutOfRange
                         else Inr (add_range a b st values)
                     | _ \<Rightarrow> Inl OutOfRange))"

fun parse_parts :: "int \<Rightarrow> int \<Rightarrow> string list \<Rightarrow> int set \<Rightarrow> cron_error + int set" where
  "parse_parts lo hi [] values = Inr values"
| "parse_parts lo hi (p # ps) values = rbind (parse_part lo hi p values) (parse_parts lo hi ps)"

definition parse_field :: "int \<Rightarrow> int \<Rightarrow> string \<Rightarrow> cron_error + int set" where
  "parse_field lo hi field =
     rbind (parse_parts lo hi (js_split (CHR '','') field) {}) (\<lambda>vs.
       if vs = {} then Inl MatchesNothing else Inr vs)"

definition parse_cron :: "string \<Rightarrow> cron_error + cron_fields" where
  "parse_cron expression =
     (case split_words (js_trim expression) of
        [minute, hour, day, month, weekday] \<Rightarrow>
          rbind (parse_field 0 7 weekday) (\<lambda>w.
          rbind (parse_field 0 59 minute) (\<lambda>mi.
          rbind (parse_field 0 23 hour) (\<lambda>h.
          rbind (parse_field 1 31 day) (\<lambda>d.
          rbind (parse_field 1 12 month) (\<lambda>mo.
            Inr \<lparr>cf_minute = mi, cf_hour = h, cf_day = d, cf_month = mo,
                 cf_weekday = (\<lambda>v. if v = 7 then 0 else v) ` w,
                 cf_day_restricted = (day \<noteq> ''*''), cf_weekday_restricted = (weekday \<noteq> ''*'')\<rparr>)))))
      | _ \<Rightarrow> Inl FieldCount)"

definition matches_cron :: "cron_fields \<Rightarrow> int \<Rightarrow> bool" where
  "matches_cron c t =
     (if utc_minute t \<notin> cf_minute c \<or> utc_hour t \<notin> cf_hour c \<or> utc_month t \<notin> cf_month c then False
      else
        let day_matches = utc_date t \<in> cf_day c;
            weekday_matches = utc_weekday t \<in> cf_weekday c
        in if cf_day_restricted c \<and> cf_weekday_restricted c then day_matches \<or> weekday_matches
           else if cf_day_restricted c then day_matches
           else if cf_weekday_restricted c then weekday_matches
           else True)"

section \<open>The next occurrence\<close>

text \<open>
  The loop from \<open>cursor\<close> to \<open>deadline\<close>, minute by minute. Times are whole milliseconds within the
  range of \<open>Date\<close>.
\<close>

function search_cron :: "cron_fields \<Rightarrow> int \<Rightarrow> int \<Rightarrow> int option" where
  "search_cron c cursor deadline =
     (if deadline < cursor then None
      else if matches_cron c cursor then Some cursor
      else search_cron c (cursor + 60000) deadline)"
  by auto
termination by (relation "measure (\<lambda>(c, cursor, deadline). nat (deadline + 1 - cursor))") auto

declare search_cron.simps [simp del]

definition first_cursor :: "int \<Rightarrow> int" where
  "first_cursor from_ms = (from_ms div 60000 + 1) * 60000"

definition next_cron_occurrence :: "string \<Rightarrow> int \<Rightarrow> cron_error + int" where
  "next_cron_occurrence expression from_ms =
     rbind (parse_cron expression) (\<lambda>c.
       case search_cron c (first_cursor from_ms) (from_ms + MAX_SEARCH_MS) of
         Some t \<Rightarrow> Inr t
       | None \<Rightarrow> Inl NoOccurrence)"

section \<open>Lemmas\<close>

lemma add_range_set:
  "1 \<le> step \<Longrightarrow> add_range start stop step vs =
     vs \<union> {v. start \<le> v \<and> v \<le> stop \<and> (\<exists>k. v = start + int k * step)}"
proof (induction start stop step vs rule: add_range.induct)
  case (1 start stop step vs)
  show ?case
  proof (cases "stop < start")
    case True
    have "\<not> (start \<le> v \<and> v \<le> stop)" for v using True by linarith
    with True show ?thesis by (subst add_range.simps) auto
  next
    case False
    have ih: "add_range (start + step) stop step (insert start vs) =
        insert start vs \<union> {v. start + step \<le> v \<and> v \<le> stop \<and> (\<exists>k. v = start + step + int k * step)}"
      using 1 False by simp
    have "{v. start \<le> v \<and> v \<le> stop \<and> (\<exists>k. v = start + int k * step)} =
        insert start {v. start + step \<le> v \<and> v \<le> stop \<and> (\<exists>k. v = start + step + int k * step)}" (is "?A = insert start ?B")
    proof
      show "?A \<subseteq> insert start ?B"
      proof
        fix v assume v: "v \<in> ?A"
        then obtain k where k: "v = start + int k * step" by blast
        show "v \<in> insert start ?B"
        proof (cases k)
          case 0
          with k show ?thesis by simp
        next
          case (Suc m)
          then have "v = start + step + int m * step" using k by (simp add: algebra_simps)
          moreover have "0 \<le> int m * step" using 1(2) by simp
          ultimately show ?thesis using v by auto
        qed
      qed
      have "start + step + int k * step = start + int (Suc k) * step" for k by (simp add: algebra_simps)
      then show "insert start ?B \<subseteq> ?A" using False 1(2) by (auto intro: exI [of _ 0]) (metis of_nat_Suc)
    qed
    then show ?thesis using ih False 1(2) by (subst add_range.simps) auto
  qed
qed

lemma search_cron_sound:
  "search_cron c cursor deadline = Some t \<Longrightarrow>
   cursor \<le> t \<and> t \<le> deadline \<and> matches_cron c t \<and> (\<exists>k. t = cursor + int k * 60000) \<and>
   (\<forall>j. cursor + int j * 60000 < t \<longrightarrow> \<not> matches_cron c (cursor + int j * 60000))"
proof (induction c cursor deadline rule: search_cron.induct)
  case (1 c cursor deadline)
  show ?case
  proof (cases "matches_cron c cursor")
    case True
    with 1(2) show ?thesis by (subst (asm) search_cron.simps) (auto split: if_splits intro: exI [of _ 0])
  next
    case False
    then have le: "cursor \<le> deadline" and s: "search_cron c (cursor + 60000) deadline = Some t"
      using 1(2) by (subst (asm) search_cron.simps, simp split: if_splits)+
    then have ih: "cursor + 60000 \<le> t" "t \<le> deadline" "matches_cron c t"
      "\<exists>k. t = cursor + 60000 + int k * 60000"
      "\<forall>j. cursor + 60000 + int j * 60000 < t \<longrightarrow> \<not> matches_cron c (cursor + 60000 + int j * 60000)"
      using 1(1) False by auto
    have "\<not> matches_cron c (cursor + int j * 60000)" if "cursor + int j * 60000 < t" for j
      using that ih(5) False by (cases j) (auto simp: algebra_simps)
    moreover have "\<exists>k. t = cursor + int k * 60000"
    proof -
      obtain k where "t = cursor + 60000 + int k * 60000" using ih(4) by blast
      then have "t = cursor + int (Suc k) * 60000" by simp
      then show ?thesis by blast
    qed
    ultimately show ?thesis using ih(1-3) by simp
  qed
qed

lemma search_cron_complete:
  "search_cron c cursor deadline = None \<Longrightarrow> cursor + int j * 60000 \<le> deadline \<Longrightarrow>
   \<not> matches_cron c (cursor + int j * 60000)"
proof (induction c cursor deadline arbitrary: j rule: search_cron.induct)
  case (1 c cursor deadline)
  have le: "cursor \<le> deadline" using 1(3) by simp
  then have no: "\<not> matches_cron c cursor" and s: "search_cron c (cursor + 60000) deadline = None"
    using 1(2) by (subst (asm) search_cron.simps, simp split: if_splits)+
  show ?case
  proof (cases j)
    case (Suc i)
    then show ?thesis using 1(1) [of i] le no s 1(3) by (simp add: algebra_simps)
  qed (simp add: no)
qed

text \<open>The calendar: the year of a day is the one that contains it.\<close>

lemma div_bounds: "0 < k \<Longrightarrow> k * (a div k) \<le> a \<and> a < k * (a div k) + (k :: int)"
  using pos_mod_bound [of k a] pos_mod_sign [of k a] by (simp add: minus_mod_eq_mult_div [symmetric])

lemma div_4: "4 * (a div 4) \<le> a" "a < 4 * (a div 4) + (4 :: int)"
  and div_100: "100 * (a div 100) \<le> a" "a < 100 * (a div 100) + (100 :: int)"
  and div_400: "400 * (a div 400) \<le> a" "a < 400 * (a div 400) + (400 :: int)"
  and div_60000: "60000 * (a div 60000) \<le> a" "a < 60000 * (a div 60000) + (60000 :: int)"
  using div_bounds [of 4 a] div_bounds [of 100 a] div_bounds [of 400 a] div_bounds [of 60000 a] by simp_all

lemma day_from_year_shift:
  "day_from_year (x + 1970) = 365 * x + (x + 1) div 4 - (x + 69) div 100 + (x + 369) div 400"
  by (simp add: day_from_year_def algebra_simps)

lemma day_from_year_lower: "146097 * x - 506 \<le> 400 * day_from_year (x + 1970)"
  using div_4(2) [of "x + 1"] div_100(1) [of "x + 69"] div_400(2) [of "x + 369"]
  unfolding day_from_year_shift distrib_left right_diff_distrib by linarith

lemma day_from_year_upper: "400 * day_from_year (x + 1970) \<le> 146097 * x + 589"
  using div_4(1) [of "x + 1"] div_100(2) [of "x + 69"] div_400(1) [of "x + 369"]
  unfolding day_from_year_shift distrib_left right_diff_distrib by linarith

lemma year_from_day_bounds:
  "day_from_year (year_from_day d) \<le> d \<and> d < day_from_year (year_from_day d + 1)"
proof -
  define q where "q = d * 400 div 146097"
  have q: "146097 * q \<le> d * 400" "d * 400 < 146097 * q + 146097"
    using div_bounds [of 146097 "d * 400"] by (simp_all add: q_def)
  define y where "y = 1970 + q"
  have y: "(q - 1) + 1970 = y - 1" "(q + 2) + 1970 = y + 2" by (simp_all add: y_def)
  have lo: "day_from_year (y - 1) \<le> d"
    using q day_from_year_upper [of "q - 1"] unfolding y by (simp add: algebra_simps)
  have hi: "d < day_from_year (y + 2)"
    using q day_from_year_lower [of "q + 2"] unfolding y by (simp add: algebra_simps)
  have "year_from_day d =
      (if day_from_year (y + 1) \<le> d then y + 1 else if day_from_year y \<le> d then y else y - 1)"
    by (simp add: year_from_day_def Let_def q_def y_def)
  with lo hi show ?thesis by (simp add: add.commute [of 2 y])
qed

lemma month_date_feb29: "month_date (month_starts leap) 1 r = (2, 29) \<Longrightarrow> leap \<and> r = 59"
  by (auto simp: month_starts_def Let_def split: if_splits)

lemma utc_feb29:
  assumes "utc_month t = 2" and "utc_date t = 29"
  shows "\<exists>y. leap_year y \<and> day_of t = day_from_year y + 59"
proof -
  have "civil (day_of t) = (2, 29)" using assms by (simp add: utc_month_def utc_date_def prod_eq_iff)
  then show ?thesis
    by (auto simp: civil_def Let_def dest!: month_date_feb29 intro!: exI [of _ "year_from_day (day_of t)"])
qed

lemma cursor_after: "from_ms < first_cursor from_ms \<and> first_cursor from_ms \<le> from_ms + 60000"
  using div_60000 [of from_ms] by (simp add: first_cursor_def)

lemma parse_part_range:
  assumes "parse_part lo hi p vs = Inr ws" and "lo \<le> hi" and "\<forall>v \<in> vs. lo \<le> v \<and> v \<le> hi"
  shows "(\<forall>v \<in> ws. lo \<le> v \<and> v \<le> hi) \<and> ws \<noteq> {}"
proof -
  obtain a b st where "ws = add_range a b st vs" "1 \<le> st" "lo \<le> a" "a \<le> b" "b \<le> hi"
    using assms(1,2)
    by (auto simp: parse_part_def Let_def split: if_splits option.splits)
  moreover have "0 \<le> int k * st" for k using \<open>1 \<le> st\<close> by simp
  ultimately show ?thesis using assms(3)
    by (auto simp: add_range_set intro: exI [of _ 0] order_trans [of lo a] dest: spec)
qed

lemma parse_parts_range:
  "parse_parts lo hi ps vs = Inr ws \<Longrightarrow> lo \<le> hi \<Longrightarrow> \<forall>v \<in> vs. lo \<le> v \<and> v \<le> hi \<Longrightarrow>
   (\<forall>v \<in> ws. lo \<le> v \<and> v \<le> hi) \<and> (ps \<noteq> [] \<longrightarrow> ws \<noteq> {})"
proof (induction lo hi ps vs rule: parse_parts.induct)
  case (2 lo hi p ps vs)
  then obtain us where us: "parse_part lo hi p vs = Inr us" "parse_parts lo hi ps us = Inr ws"
    by (auto simp: rbind_Inr)
  then have r: "(\<forall>v \<in> us. lo \<le> v \<and> v \<le> hi) \<and> us \<noteq> {}"
    using parse_part_range [OF us(1) 2(3,4)] by simp
  show ?case
  proof (cases ps)
    case Nil
    with us(2) r show ?thesis by simp
  next
    case (Cons q qs)
    with 2(1) [OF us(2) 2(3)] r show ?thesis by simp
  qed
qed simp

lemma parse_field_range:
  "parse_field lo hi f = Inr vs \<Longrightarrow> lo \<le> hi \<Longrightarrow> (\<forall>v \<in> vs. lo \<le> v \<and> v \<le> hi) \<and> vs \<noteq> {}"
  using parse_parts_range [of lo hi "js_split (CHR '','') f" "{}"]
  by (auto simp: parse_field_def rbind_Inr split: if_splits)

text \<open>The "matches nothing" error cannot occur: every part adds at least its first value.\<close>

lemma parse_field_matches: "lo \<le> hi \<Longrightarrow> parse_field lo hi f \<noteq> Inl MatchesNothing"
proof
  assume h: "lo \<le> hi" and e: "parse_field lo hi f = Inl MatchesNothing"
  have n: "parse_part lo hi p vs \<noteq> Inl MatchesNothing" for p vs
    by (auto simp: parse_part_def Let_def split: option.split)
  have "parse_parts lo hi ps vs \<noteq> Inl MatchesNothing" for ps vs
    by (induction ps arbitrary: vs) (auto simp: rbind_Inl n)
  with e obtain vs where "parse_parts lo hi (js_split (CHR '','') f) {} = Inr vs" "vs = {}"
    by (auto simp: parse_field_def rbind_Inl split: if_splits)
  with parse_parts_range [OF this(1) h] show False by simp
qed

section \<open>Properties\<close>

text \<open>
  C25: the next occurrence is the earliest. The result is a whole minute after the start, within the
  search window, matches the expression, and no whole minute in between does.
\<close>

theorem next_occurrence_earliest:
  assumes "next_cron_occurrence e from_ms = Inr t"
  shows "\<exists>c. parse_cron e = Inr c \<and> matches_cron c t \<and> from_ms < t \<and> t \<le> from_ms + MAX_SEARCH_MS \<and>
     t mod 60000 = 0 \<and> (\<forall>u. from_ms < u \<and> u < t \<and> u mod 60000 = 0 \<longrightarrow> \<not> matches_cron c u)"
proof -
  obtain c where c: "parse_cron e = Inr c"
      "search_cron c (first_cursor from_ms) (from_ms + MAX_SEARCH_MS) = Some t"
    using assms by (auto simp: next_cron_occurrence_def rbind_Inr split: option.splits)
  note s = search_cron_sound [OF c(2)]
  then obtain k where k: "t = first_cursor from_ms + int k * 60000" by blast
  have "t mod 60000 = 0" unfolding k first_cursor_def by simp
  moreover have "\<not> matches_cron c u" if u: "from_ms < u" "u < t" "u mod 60000 = 0" for u
  proof -
    have "from_ms div 60000 < u div 60000"
    proof -
      have "60000 * (u div 60000) = u" using u(3) mult_div_mod_eq [of 60000 u] by simp
      moreover have "60000 * (from_ms div 60000) \<le> from_ms" by (rule div_60000)
      ultimately show ?thesis using u(1) by linarith
    qed
    then have "0 \<le> u div 60000 - (from_ms div 60000 + 1)" by simp
    then obtain j where j: "u div 60000 - (from_ms div 60000 + 1) = int j" by (metis zero_le_imp_eq_int)
    have "u = u div 60000 * 60000" using u(3) by (metis add.right_neutral div_mult_mod_eq)
    then have "u = first_cursor from_ms + int j * 60000"
      using j by (simp add: first_cursor_def algebra_simps)
    with s u(2) show ?thesis by blast
  qed
  ultimately show ?thesis using c(1) s cursor_after [of from_ms] by auto
qed

lemma js_number_digits:
  assumes "list_all is_digit_c s" and "s \<noteq> []" and "unsigned_int 10 s = Some n" and "\<bar>n\<bar> < 2 ^ 53"
    and "take 2 s \<notin> {''0x'', ''0X'', ''0o'', ''0O'', ''0b'', ''0B''}"
  shows "js_number s = Fin (of_int n)"
proof -
  have nws: "is_digit_c c \<Longrightarrow> \<not> is_ws c" for c by (auto simp: is_digit_c_def is_ws_def)
  then have t: "js_trim s = s" using assms(1) by (intro js_trim_plain) (auto simp: list_all_iff)
  obtain c cs where c: "s = c # cs" using assms(2) by (cases s) auto
  then have "c \<noteq> CHR ''-''" "c \<noteq> CHR ''+''" "c \<noteq> CHR ''I''" using assms(1) by (auto simp: is_digit_c_def)
  then have sg: "split_sign s = (False, s)" "s \<noteq> ''Infinity''" by (simp_all add: split_sign_def c)
  have tw: "takeWhile is_digit_c s = s" using assms(1) by (simp add: list_all_iff)
  have "unsigned_decimal s = Some (of_int n)"
    using assms(2,3) by (simp add: unsigned_decimal_def Let_def tw exponent_value_def)
  then show ?thesis
    using assms(2,5) by (simp add: js_number_def Let_def t sg double_of_int [OF assms(4)])
qed

definition every_minute :: "string" where
  "every_minute = ''* * * * *''"

theorem next_occurrence_earliest_witness:
  "\<exists>c. parse_cron every_minute = Inr c \<and> matches_cron c 60000 \<and> (0 :: int) < 60000"
proof -
  have "next_cron_occurrence every_minute 0 = Inr 60000" by code_simp
  from next_occurrence_earliest [OF this] show ?thesis by blast
qed

text \<open>
  A parsed expression has no empty field and no value a clock cannot show, so an expression is
  rejected rather than silently never matching for its range.
\<close>

theorem cron_fields_in_range:
  assumes "parse_cron e = Inr c"
  shows "cf_minute c \<subseteq> {0..59} \<and> cf_hour c \<subseteq> {0..23} \<and> cf_day c \<subseteq> {1..31} \<and> cf_month c \<subseteq> {1..12} \<and>
     cf_weekday c \<subseteq> {0..6} \<and>
     {} \<notin> {cf_minute c, cf_hour c, cf_day c, cf_month c, cf_weekday c}"
proof -
  obtain mi h d mo w W where f: "parse_field 0 7 w = Inr W" "parse_field 0 59 mi = Inr (cf_minute c)"
    "parse_field 0 23 h = Inr (cf_hour c)" "parse_field 1 31 d = Inr (cf_day c)"
    "parse_field 1 12 mo = Inr (cf_month c)" "cf_weekday c = (\<lambda>v. if v = 7 then 0 else v) ` W"
    using assms by (auto simp: parse_cron_def rbind_Inr split: list.splits)
  have r: "cf_minute c \<subseteq> {0..59} \<and> cf_minute c \<noteq> {}" "cf_hour c \<subseteq> {0..23} \<and> cf_hour c \<noteq> {}"
    "cf_day c \<subseteq> {1..31} \<and> cf_day c \<noteq> {}" "cf_month c \<subseteq> {1..12} \<and> cf_month c \<noteq> {}"
    "W \<subseteq> {0..7} \<and> W \<noteq> {}"
    using f(1-5) [THEN parse_field_range] by (simp_all add: subset_iff)
  moreover have "cf_weekday c \<subseteq> {0..6} \<and> cf_weekday c \<noteq> {}"
  proof -
    have "\<forall>v \<in> W. (if v = 7 then 0 else v) \<in> {0..6}" using r(5) by (auto simp: subset_iff)
    with r(5) show ?thesis unfolding f(6) by blast
  qed
  ultimately show ?thesis by blast
qed

theorem cron_fields_in_range_witness:
  "\<exists>c. parse_cron every_minute = Inr c \<and> cf_minute c \<subseteq> {0..59} \<and> cf_weekday c \<subseteq> {0..6}"
proof -
  have "parse_cron every_minute = Inr (projr (parse_cron every_minute))" by code_simp
  from cron_fields_in_range [OF this] this show ?thesis by blast
qed

definition leap_day_cron :: string where
  "leap_day_cron = ''0 0 29 2 *''"

lemma parse_leap_day:
  "\<exists>w. parse_cron leap_day_cron = Inr \<lparr>cf_minute = {0}, cf_hour = {0}, cf_day = {29}, cf_month = {2},
     cf_weekday = w, cf_day_restricted = True, cf_weekday_restricted = False\<rparr>"
proof -
  have n: "js_number ''0'' = Fin (of_int 0)" "js_number ''29'' = Fin (of_int 29)" "js_number ''2'' = Fin (of_int 2)"
    by (rule js_number_digits; simp add: is_digit_c_def unsigned_int_def digit_in_def)+
  have p: "parse_field 0 59 ''0'' = Inr {0}" "parse_field 0 23 ''0'' = Inr {0}"
    "parse_field 1 31 ''29'' = Inr {29}" "parse_field 1 12 ''2'' = Inr {2}"
    by (simp_all only: parse_field_def) (auto simp: parse_part_def Let_def nth_or_none_def n
      add_range_set num_int_Fin simp del: of_int_numeral of_int_0)
  have w: "split_words (js_trim leap_day_cron) = [''0'', ''0'', ''29'', ''2'', ''*'']" by code_simp
  have "\<exists>w. parse_field 0 7 ''*'' = Inr w"
    by (auto simp: parse_field_def parse_part_def nth_or_none_def add_range_set intro: exI [of _ 0])
  with p show ?thesis by (auto simp: parse_cron_def w)
qed

lemma midnight:
  assumes "t mod 60000 = 0" and "utc_minute t = 0" and "utc_hour t = 0"
  shows "t = day_of t * MS_PER_DAY"
proof -
  have h: "t div 3600000 = t div 60000 div 60" and d: "t div 86400000 = t div 3600000 div 24"
    using zdiv_zmult2_eq [of 60 t 60000] zdiv_zmult2_eq [of 24 t 3600000] by simp_all
  have "t = 60000 * (t div 60000)" using assms(1) mult_div_mod_eq [of 60000 t] by simp
  moreover have "t div 60000 = 60 * (t div 3600000)"
    using assms(2) mult_div_mod_eq [of 60 "t div 60000"] unfolding utc_minute_def h by simp
  moreover have "t div 3600000 = 24 * (t div 86400000)"
    using assms(3) mult_div_mod_eq [of 24 "t div 3600000"] unfolding utc_hour_def d by simp
  ultimately show ?thesis by (simp add: day_of_def MS_PER_DAY_def)
qed

section \<open>Leap years\<close>

lemma div_step:
  fixes z n :: int
  assumes "0 < n"
  shows "(z + 1) div n = z div n + (if (z + 1) mod n = 0 then 1 else 0)"
proof -
  have z: "z = n * (z div n) + z mod n" "0 \<le> z mod n" "z mod n < n"
    using assms by simp_all
  show ?thesis
  proof (cases "z mod n + 1 = n")
    case True
    have "z + 1 = n * (z div n + 1) + 0" unfolding distrib_left using z(1) True by linarith
    from int_div_pos_eq [OF this] int_mod_pos_eq [OF this] show ?thesis using assms by simp
  next
    case False
    then have "z + 1 = n * (z div n) + (z mod n + 1)" "0 \<le> z mod n + 1" "z mod n + 1 < n"
      using z by linarith+
    from int_div_pos_eq [OF this] int_mod_pos_eq [OF this] show ?thesis using z(2) by simp
  qed
qed

lemma leap_days: "(C \<Longrightarrow> B) \<Longrightarrow> (B \<Longrightarrow> A) \<Longrightarrow> (if A \<and> (\<not> B \<or> C) then 366 else 365 :: int) =
    365 + (if A then 1 else 0) - (if B then 1 else 0) + (if C then 1 else 0)"
  by (cases A; cases B; cases C) simp_all

lemma year_length: "day_from_year (y + 1) = day_from_year y + (if leap_year y then 366 else 365)"
proof -
  define i4 i100 i400 :: int where i: "i4 = (if y mod 4 = 0 then 1 else 0)"
    "i100 = (if y mod 100 = 0 then 1 else 0)" "i400 = (if y mod 400 = 0 then 1 else 0)"
  have m: "(y - 1968) mod 4 = y mod 4" "(y - 1900) mod 100 = y mod 100" "(y - 1600) mod 400 = y mod 400"
  proof -
    have "y - 1968 + 492 * 4 = y" "y - 1900 + 19 * 100 = y" "y - 1600 + 4 * 400 = y" by simp_all
    then show "(y - 1968) mod 4 = y mod 4" "(y - 1900) mod 100 = y mod 100" "(y - 1600) mod 400 = y mod 400"
      using mod_mult_self1 [of "y - 1968" 492 4] mod_mult_self1 [of "y - 1900" 19 100]
        mod_mult_self1 [of "y - 1600" 4 400] by (simp_all only:)
  qed
  have z: "y - 1969 + 1 = y - 1968" "y - 1901 + 1 = y - 1900" "y - 1601 + 1 = y - 1600" by simp_all
  have d: "(y - 1968) div 4 = (y - 1969) div 4 + i4" "(y - 1900) div 100 = (y - 1901) div 100 + i100"
    "(y - 1600) div 400 = (y - 1601) div 400 + i400"
    using div_step [of 4 "y - 1969", unfolded z m] div_step [of 100 "y - 1901", unfolded z m]
      div_step [of 400 "y - 1601", unfolded z m]
    unfolding i by (simp_all only: zero_less_numeral simp_thms)
  have e: "y + 1 - 1969 = y - 1968" "y + 1 - 1901 = y - 1900" "y + 1 - 1601 = y - 1600"
    "y + 1 - 1970 = (y - 1970) + 1" by simp_all
  have "y mod 400 = 0 \<Longrightarrow> y mod 100 = 0" "y mod 100 = 0 \<Longrightarrow> y mod 4 = 0"
  proof -
    have "(100 :: int) dvd 400" "(4 :: int) dvd 100" by simp_all
    then show "y mod 400 = 0 \<Longrightarrow> y mod 100 = 0" "y mod 100 = 0 \<Longrightarrow> y mod 4 = 0"
      unfolding mod_eq_0_iff_dvd by (blast intro: dvd_trans)+
  qed
  then have l: "(if leap_year y then 366 else 365) = 365 + i4 - i100 + i400"
    unfolding i leap_year_def by (rule leap_days)
  show ?thesis
    unfolding l day_from_year_def e d by simp
qed

lemma day_from_year_mono: "a \<le> b \<Longrightarrow> day_from_year a \<le> day_from_year b"
proof (induction b rule: int_ge_induct)
  case (step b)
  then show ?case using year_length [of b] by (auto split: if_splits)
qed simp

lemma leap_apart:
  assumes "leap_year y"
  shows "day_from_year (y + 4) = day_from_year y + 1461" "\<not> leap_year (y + 1)" "\<not> leap_year (y + 2)" "\<not> leap_year (y + 3)"
proof -
  show n: "\<not> leap_year (y + 1)" "\<not> leap_year (y + 2)" "\<not> leap_year (y + 3)"
  proof -
    have "y mod 4 = 0" using assms by (simp add: leap_year_def)
    then have "(y + 1) mod 4 \<noteq> 0" "(y + 2) mod 4 \<noteq> 0" "(y + 3) mod 4 \<noteq> 0" by presburger+
    then show "\<not> leap_year (y + 1)" "\<not> leap_year (y + 2)" "\<not> leap_year (y + 3)"
      by (simp_all add: leap_year_def)
  qed
  show "day_from_year (y + 4) = day_from_year y + 1461"
  proof -
    have "y + 1 + 1 = y + 2" "y + 2 + 1 = y + 3" "y + 3 + 1 = y + 4" by simp_all
    then have "day_from_year (y + 1) = day_from_year y + 366" "day_from_year (y + 2) = day_from_year (y + 1) + 365"
      "day_from_year (y + 3) = day_from_year (y + 2) + 365" "day_from_year (y + 4) = day_from_year (y + 3) + 365"
      using year_length [of y] year_length [of "y + 1"] year_length [of "y + 2"] year_length [of "y + 3"] n assms
      by (simp_all only: if_True if_False)
    then show ?thesis by linarith
  qed
qed

lemma leap_between:
  assumes "leap_year y" and "leap_year y'" and "day_from_year y \<le> day_from_year y'"
    and "day_from_year y' \<le> day_from_year y + 1460"
  shows "y' = y"
proof (rule ccontr)
  assume ne: "y' \<noteq> y"
  show False
  proof (cases "y' < y")
    case True
    then have "day_from_year (y' + 1) \<le> day_from_year y" by (intro day_from_year_mono) simp
    then show False using year_length [of y'] assms(2,3) by simp
  next
    case False
    have "y' \<noteq> y + 1" "y' \<noteq> y + 2" "y' \<noteq> y + 3" using leap_apart [OF assms(1)] assms(2) by auto
    then have "y + 4 \<le> y'" using False ne by linarith
    then have "day_from_year (y + 4) \<le> day_from_year y'" by (rule day_from_year_mono)
    then show False using leap_apart(1) [OF assms(1)] assms(4) by simp
  qed
qed

text \<open>
  C26: a schedule for midnight of 29 February dies when it fires. At no time of the 29 February of a
  leap year, of any leap year, does the search find the next one: the window counts 1460 days
  and leaves out the leap day, and the next such midnight is at least 1461 days after the last.
\<close>

theorem leap_day_cron_stops:
  assumes "leap_year y" and "day_of from_ms = day_from_year y + 59"
  shows "next_cron_occurrence leap_day_cron from_ms = Inl NoOccurrence"
proof -
  obtain w where p: "parse_cron leap_day_cron = Inr \<lparr>cf_minute = {0}, cf_hour = {0}, cf_day = {29}, cf_month = {2},
     cf_weekday = w, cf_day_restricted = True, cf_weekday_restricted = False\<rparr>" (is "_ = Inr ?c")
    using parse_leap_day by blast
  have "search_cron ?c (first_cursor from_ms) (from_ms + MAX_SEARCH_MS) = None"
  proof (rule ccontr)
    assume "search_cron ?c (first_cursor from_ms) (from_ms + MAX_SEARCH_MS) \<noteq> None"
    then obtain t where t: "search_cron ?c (first_cursor from_ms) (from_ms + MAX_SEARCH_MS) = Some t" by blast
    note s = search_cron_sound [OF t]
    have m: "utc_minute t = 0" "utc_hour t = 0" "utc_month t = 2" "utc_date t = 29"
      using s by (auto simp: matches_cron_def Let_def split: if_splits)
    obtain k where k: "t = first_cursor from_ms + int k * 60000" using s by blast
    have lo: "from_ms < t" and hi: "t \<le> from_ms + 1460 * 86400000"
      using s cursor_after [of from_ms] by (auto simp: MAX_SEARCH_MS_def)
    have day: "day_of from_ms \<le> day_of t" "day_of t \<le> day_of from_ms + 1460"
      using lo hi unfolding day_of_def MS_PER_DAY_def by linarith+
    obtain y' where y': "leap_year y'" "day_of t = day_from_year y' + 59" using utc_feb29 [OF m(3,4)] by blast
    have "y' = y" using leap_between [OF assms(1) y'(1)] day y'(2) assms(2) by simp
    moreover have "t mod 60000 = 0" unfolding k first_cursor_def by simp
    then have "t = day_of t * MS_PER_DAY" by (rule midnight) (rule m(1), rule m(2))
    ultimately have "t = day_of from_ms * MS_PER_DAY" using y'(2) assms(2) by simp
    then show False using lo unfolding day_of_def MS_PER_DAY_def by linarith
  qed
  then show ?thesis using p by (simp add: next_cron_occurrence_def)
qed

text \<open>The last second of 29 February 2024.\<close>

theorem leap_day_cron_stops_witness:
  "next_cron_occurrence leap_day_cron 1709251199000 = Inl NoOccurrence"
proof (rule leap_day_cron_stops [where y = 2024])
  show "leap_year 2024" by (simp add: leap_year_def)
  show "day_of 1709251199000 = day_from_year 2024 + 59"
    by (simp add: day_of_def MS_PER_DAY_def day_from_year_def)
qed

end
