(* ===== verification/Scheduler.thy ===== *)
theory Scheduler
  imports Cron
begin

text \<open>
  \<open>SchedulerCore\<close> (\<open>packages/kernel/src/scheduler-core.ts\<close>): one-shot and cron callbacks. An
  entry is known by its identity, a token. Timers and the settling of a callback's promise are
  operations of the environment: \<open>OFire\<close> for a timer set by \<open>#arm\<close>, \<open>OSettle\<close> for the
  \<open>finally\<close> of a started callback. What \<open>nextCronOccurrence\<close> throws inside that \<open>finally\<close> is an
  unhandled rejection: the entry is not set again.
\<close>

record sched_entry =
  se_owner :: string
  se_id :: string
  se_cron :: "string option"
  se_run_at :: int

datatype run_phase = Started | CompletedP | FailedP

record run_log =
  rl_owner :: string
  rl_id :: string
  rl_cron :: bool
  rl_phase :: run_phase
  rl_at :: int

text \<open>
  \<open>sc_in_progress\<close> are the callbacks whose promise has not settled, cancelled ones included;
  \<open>sc_running\<close> is the code's \<open>#runningCallbacks\<close>. \<open>sc_log\<close> are the calls of \<open>#emit\<close>,
  which reach the listeners until a shutdown drops them.
\<close>

record scheduler =
  sc_pending :: "(string, nat \<times> sched_entry) jmap"
  sc_running :: "(nat, sched_entry) jmap"
  sc_in_progress :: "(nat, sched_entry) jmap"
  sc_aborted :: "nat set"
  sc_log :: "run_log list"
  sc_started :: "nat list"
  sc_next :: nat
  sc_stopped :: bool

datatype sched_error = SchedulerStopped | ScheduleIdRequired | AlreadyScheduled | InvalidDeadline | CronInvalid cron_error

definition new_scheduler :: scheduler where
  "new_scheduler = \<lparr>sc_pending = [], sc_running = [], sc_in_progress = [], sc_aborted = {}, sc_log = [],
     sc_started = [], sc_next = 0, sc_stopped = False\<rparr>"

definition sched_key :: "string \<Rightarrow> string \<Rightarrow> string" where
  "sched_key owner i = owner @ char_of (0 :: nat) # i"

definition entry_key :: "sched_entry \<Rightarrow> string" where
  "entry_key e = sched_key (se_owner e) (se_id e)"

definition register_sched ::
  "string \<Rightarrow> string \<Rightarrow> string option \<Rightarrow> int \<Rightarrow> scheduler \<Rightarrow> sched_error + nat \<times> scheduler" where
  "register_sched owner i cron run_at s =
     (if sc_stopped s then Inl SchedulerStopped
      else if js_trim i = [] then Inl ScheduleIdRequired
      else if jhas (sc_pending s) (sched_key owner i) then Inl AlreadyScheduled
      else
        let t = sc_next s;
            e = \<lparr>se_owner = owner, se_id = i, se_cron = cron, se_run_at = run_at\<rparr>
        in Inr (t, s\<lparr>sc_pending := jset (sched_key owner i) (t, e) (sc_pending s), sc_next := Suc t\<rparr>))"

text \<open>\<open>None\<close> is a deadline that \<open>Date.parse\<close> does not understand.\<close>

definition schedule_once ::
  "string \<Rightarrow> string \<Rightarrow> int option \<Rightarrow> scheduler \<Rightarrow> sched_error + nat \<times> scheduler" where
  "schedule_once owner i timestamp s =
     (case timestamp of None \<Rightarrow> Inl InvalidDeadline | Some ts \<Rightarrow> register_sched owner i None ts s)"

definition schedule_cron ::
  "string \<Rightarrow> string \<Rightarrow> string \<Rightarrow> int \<Rightarrow> scheduler \<Rightarrow> sched_error + nat \<times> scheduler" where
  "schedule_cron owner i expression now s =
     (case next_cron_occurrence expression now of
        Inl e \<Rightarrow> Inl (CronInvalid e)
      | Inr nxt \<Rightarrow> register_sched owner i (Some expression) nxt s)"

definition emit_log :: "sched_entry \<Rightarrow> run_phase \<Rightarrow> int \<Rightarrow> scheduler \<Rightarrow> scheduler" where
  "emit_log e phase now s =
     s\<lparr>sc_log := sc_log s @ [\<lparr>rl_owner = se_owner e, rl_id = se_id e, rl_cron = (se_cron e \<noteq> None),
                             rl_phase = phase, rl_at = now\<rparr>]\<rparr>"

text \<open>\<open>#cancelEntry\<close>.\<close>

definition cancel_entry :: "nat \<Rightarrow> sched_entry \<Rightarrow> scheduler \<Rightarrow> bool \<times> scheduler" where
  "cancel_entry t e s =
     (let key = entry_key e;
          pending = (case jget (sc_pending s) key of None \<Rightarrow> False | Some (t', _) \<Rightarrow> t' = t);
          running = jhas (sc_running s) t
      in (pending \<or> running,
          s\<lparr>sc_running := jdel t (sc_running s),
            sc_pending := (if pending then jdel key (sc_pending s) else sc_pending s),
            sc_aborted := (if pending \<or> running then insert t (sc_aborted s) else sc_aborted s)\<rparr>))"

fun cancel_all_entries :: "(nat \<times> sched_entry) list \<Rightarrow> scheduler \<Rightarrow> bool \<times> scheduler" where
  "cancel_all_entries [] s = (False, s)"
| "cancel_all_entries ((t, e) # es) s =
     (let (b, s1) = cancel_entry t e s; (b', s2) = cancel_all_entries es s1 in (b \<or> b', s2))"

definition cancel_sched :: "string \<Rightarrow> string \<Rightarrow> scheduler \<Rightarrow> bool \<times> scheduler" where
  "cancel_sched owner i s =
     (let (b1, s1) = (case jget (sc_pending s) (sched_key owner i) of
            None \<Rightarrow> (False, s) | Some (t, e) \<Rightarrow> cancel_entry t e s);
          (b2, s2) = cancel_all_entries
            (filter (\<lambda>(t, e). se_owner e = owner \<and> se_id e = i) (sc_running s1)) s1
      in (b1 \<or> b2, s2))"

text \<open>The handle that \<open>schedule\<close> and \<open>scheduleCron\<close> return: it cancels by name.\<close>

definition dispose_sched :: "string \<Rightarrow> string \<Rightarrow> scheduler \<Rightarrow> scheduler" where
  "dispose_sched owner i s = snd (cancel_sched owner i s)"

definition cancel_owned :: "string \<Rightarrow> scheduler \<Rightarrow> scheduler" where
  "cancel_owned owner s =
     (let s1 = snd (cancel_all_entries (filter (\<lambda>(t, e). se_owner e = owner) (map snd (sc_pending s))) s)
      in snd (cancel_all_entries (filter (\<lambda>(t, e). se_owner e = owner) (sc_running s1)) s1))"

definition shutdown_sched :: "scheduler \<Rightarrow> scheduler" where
  "shutdown_sched s =
     (if sc_stopped s then s
      else snd (cancel_all_entries (map snd (sc_pending s) @ sc_running s) (s\<lparr>sc_stopped := True\<rparr>)))"

text \<open>The timer of an entry: an early or stale timer changes nothing.\<close>

definition timer_fires_sched :: "string \<Rightarrow> nat \<Rightarrow> int \<Rightarrow> scheduler \<Rightarrow> scheduler" where
  "timer_fires_sched key t now s =
     (case jget (sc_pending s) key of
        None \<Rightarrow> s
      | Some (t', e) \<Rightarrow>
          if t' \<noteq> t \<or> t \<in> sc_aborted s then s
          else if now < se_run_at e then s
          else emit_log e Started now
                 (s\<lparr>sc_pending := jdel key (sc_pending s), sc_running := jset t e (sc_running s),
                    sc_in_progress := jset t e (sc_in_progress s), sc_started := sc_started s @ [t]\<rparr>))"

definition rearm_cron :: "nat \<Rightarrow> sched_entry \<Rightarrow> int \<Rightarrow> scheduler \<Rightarrow> scheduler" where
  "rearm_cron t e now s =
     (case se_cron e of
        None \<Rightarrow> s
      | Some expression \<Rightarrow>
          if sc_stopped s \<or> t \<in> sc_aborted s then s
          else
            case next_cron_occurrence expression now of
              Inl _ \<Rightarrow> s
            | Inr nxt \<Rightarrow>
                s\<lparr>sc_pending := jset (entry_key e) (sc_next s, e\<lparr>se_run_at := nxt\<rparr>) (sc_pending s),
                  sc_next := Suc (sc_next s)\<rparr>)"

definition callback_settles :: "nat \<Rightarrow> bool \<Rightarrow> int \<Rightarrow> scheduler \<Rightarrow> scheduler" where
  "callback_settles t ok now s =
     (case jget (sc_in_progress s) t of
        None \<Rightarrow> s
      | Some e \<Rightarrow>
          let s1 = emit_log e (if ok then CompletedP else FailedP) now s in
          rearm_cron t e now
            (s1\<lparr>sc_running := jdel t (sc_running s1), sc_in_progress := jdel t (sc_in_progress s1)\<rparr>))"

section \<open>Traces\<close>

datatype sched_op =
    OSchedule string string "int option"
  | OScheduleCron string string string int
  | OFire string nat int
  | OSettle nat bool int
  | OCancel string string
  | OCancelOwned string
  | OShutdown

definition keep_if_error :: "scheduler \<Rightarrow> 'e + nat \<times> scheduler \<Rightarrow> scheduler" where
  "keep_if_error s r = (case r of Inl _ \<Rightarrow> s | Inr (_, s') \<Rightarrow> s')"

fun sched_apply :: "sched_op \<Rightarrow> scheduler \<Rightarrow> scheduler" where
  "sched_apply (OSchedule owner i ts) s = keep_if_error s (schedule_once owner i ts s)"
| "sched_apply (OScheduleCron owner i e now) s = keep_if_error s (schedule_cron owner i e now s)"
| "sched_apply (OFire key t now) s = timer_fires_sched key t now s"
| "sched_apply (OSettle t ok now) s = callback_settles t ok now s"
| "sched_apply (OCancel owner i) s = snd (cancel_sched owner i s)"
| "sched_apply (OCancelOwned owner) s = cancel_owned owner s"
| "sched_apply OShutdown s = shutdown_sched s"

definition sched_trace :: "sched_op list \<Rightarrow> scheduler \<Rightarrow> scheduler" where
  "sched_trace ops s = fold sched_apply ops s"

section \<open>The invariant\<close>

abbreviation pend :: "scheduler \<Rightarrow> string \<Rightarrow> (nat \<times> sched_entry) option" where
  "pend s \<equiv> jget (sc_pending s)"

abbreviation prog :: "scheduler \<Rightarrow> nat \<Rightarrow> sched_entry option" where
  "prog s \<equiv> jget (sc_in_progress s)"

text \<open>
  A pending entry sits at its own key, is not aborted and never started; tokens are not shared; a
  callback in progress was started and is either running or aborted; a stopped scheduler has
  nothing pending and only aborted callbacks.
\<close>

definition sched_inv :: "scheduler \<Rightarrow> bool" where
  "sched_inv s \<longleftrightarrow>
     jkeys_distinct (sc_pending s) \<and> jkeys_distinct (sc_running s) \<and>
     (\<forall>k t e. pend s k = Some (t, e) \<longrightarrow>
        entry_key e = k \<and> t < sc_next s \<and> t \<notin> sc_aborted s \<and> t \<notin> set (sc_started s)) \<and>
     (\<forall>k k' t e e'. pend s k = Some (t, e) \<and> pend s k' = Some (t, e') \<longrightarrow> k = k') \<and>
     (\<forall>t e. prog s t = Some e \<longrightarrow> t \<in> set (sc_started s) \<and> (jget (sc_running s) t \<noteq> None \<or> t \<in> sc_aborted s)) \<and>
     (\<forall>t e. jget (sc_running s) t = Some e \<longrightarrow> prog s t = Some e) \<and>
     (\<forall>t \<in> sc_aborted s \<union> set (sc_started s). t < sc_next s) \<and>
     distinct (sc_started s) \<and>
     (sc_stopped s \<longrightarrow> (\<forall>k. pend s k = None) \<and> (\<forall>t e. prog s t = Some e \<longrightarrow> t \<in> sc_aborted s))"

lemma sched_inv_new: "sched_inv new_scheduler"
  by (simp add: sched_inv_def new_scheduler_def)

text \<open>What cancelling may change.\<close>

definition shrinks :: "scheduler \<Rightarrow> scheduler \<Rightarrow> bool" where
  "shrinks s s' \<longleftrightarrow>
     (\<forall>k x. pend s' k = Some x \<longrightarrow> pend s k = Some x) \<and>
     (\<forall>t x. jget (sc_running s') t = Some x \<longrightarrow> jget (sc_running s) t = Some x) \<and>
     sc_aborted s \<subseteq> sc_aborted s' \<and> sc_in_progress s' = sc_in_progress s \<and> sc_log s' = sc_log s \<and>
     sc_started s' = sc_started s \<and> sc_next s' = sc_next s \<and> sc_stopped s' = sc_stopped s"

lemma shrinks_refl [simp]: "shrinks s s"
  by (simp add: shrinks_def)

lemma shrinks_trans: "shrinks a b \<Longrightarrow> shrinks b c \<Longrightarrow> shrinks a c"
  unfolding shrinks_def by auto

lemma cancel_entry_shrinks: "shrinks s (snd (cancel_entry t e s))"
  by (auto simp: cancel_entry_def Let_def shrinks_def split: option.splits if_splits)

lemma cancel_entry_gone:
  "jget (sc_running (snd (cancel_entry t e s))) t = None"
  "pend (snd (cancel_entry t e s)) (entry_key e) \<noteq> Some (t, e')"
  by (auto simp: cancel_entry_def Let_def split: option.splits prod.splits)

lemma cancel_entry_inv:
  assumes "sched_inv s"
  shows "sched_inv (snd (cancel_entry t e s))"
proof -
  consider (pending) e' where "pend s (entry_key e) = Some (t, e')"
    | (running) "\<forall>e'. pend s (entry_key e) \<noteq> Some (t, e')" "jget (sc_running s) t \<noteq> None"
    | (neither) "\<forall>e'. pend s (entry_key e) \<noteq> Some (t, e')" "jget (sc_running s) t = None"
    by blast
  then show ?thesis
  proof cases
    case pending
    then have "cancel_entry t e s = (True, s\<lparr>sc_running := jdel t (sc_running s),
        sc_pending := jdel (entry_key e) (sc_pending s), sc_aborted := insert t (sc_aborted s)\<rparr>)"
      by (simp add: cancel_entry_def)
    with assms pending show ?thesis
      unfolding sched_inv_def by simp blast
  next
    case running
    then have "cancel_entry t e s = (True, s\<lparr>sc_running := jdel t (sc_running s),
        sc_aborted := insert t (sc_aborted s)\<rparr>)"
      by (auto simp: cancel_entry_def Let_def split: option.split)
    with assms running show ?thesis
      unfolding sched_inv_def by simp blast
  next
    case neither
    then have "cancel_entry t e s = (False, s\<lparr>sc_running := jdel t (sc_running s)\<rparr>)"
      by (auto simp: cancel_entry_def Let_def split: option.split)
    with assms neither show ?thesis
      unfolding sched_inv_def by (simp add: fun_upd_idem jdel_distinct)
  qed
qed

lemma cancel_all_entries_props:
  assumes "sched_inv s"
  shows "sched_inv (snd (cancel_all_entries es s)) \<and> shrinks s (snd (cancel_all_entries es s)) \<and>
    (\<forall>(t, e) \<in> set es. jget (sc_running (snd (cancel_all_entries es s))) t = None \<and>
       (\<forall>e'. pend (snd (cancel_all_entries es s)) (entry_key e) \<noteq> Some (t, e')))"
  using assms
proof (induction es s rule: cancel_all_entries.induct)
  case (2 t e es s)
  let ?s1 = "snd (cancel_entry t e s)" and ?s2 = "snd (cancel_all_entries es (snd (cancel_entry t e s)))"
  have eq: "snd (cancel_all_entries ((t, e) # es) s) = ?s2" by (simp add: split_def Let_def)
  have i: "sched_inv ?s1" using 2 by (simp add: cancel_entry_inv)
  then have ih: "sched_inv ?s2" "shrinks ?s1 ?s2"
    "\<forall>(t, e) \<in> set es. jget (sc_running ?s2) t = None \<and> (\<forall>e'. pend ?s2 (entry_key e) \<noteq> Some (t, e'))"
    using 2(1) [OF refl prod.collapse] by simp_all
  have "jget (sc_running ?s2) t = None" "pend ?s2 (entry_key e) \<noteq> Some (t, e')" for e'
    using ih(2) cancel_entry_gone [of t e s] unfolding shrinks_def by (metis not_None_eq)+
  with ih cancel_entry_shrinks [of s t e] show ?case
    unfolding eq by (auto intro: shrinks_trans)
qed simp

lemmas cancel_all_inv = cancel_all_entries_props [THEN conjunct1]
  and cancel_all_shrinks = cancel_all_entries_props [THEN conjunct2, THEN conjunct1]
  and cancel_all_gone = cancel_all_entries_props [THEN conjunct2, THEN conjunct2]

lemma register_sched_cases:
  assumes "register_sched owner i cron at' s = Inr (t, s')"
  shows "\<not> sc_stopped s \<and> pend s (sched_key owner i) = None \<and> t = sc_next s \<and>
    s' = s\<lparr>sc_pending := jset (sched_key owner i)
      (t, \<lparr>se_owner = owner, se_id = i, se_cron = cron, se_run_at = at'\<rparr>) (sc_pending s), sc_next := Suc t\<rparr>"
  using assms by (cases "pend s (sched_key owner i)") (auto simp: register_sched_def Let_def split: if_splits)

lemma sched_inv_put:
  assumes "sched_inv s" and "\<not> sc_stopped s" and "entry_key e = k"
  shows "sched_inv (s\<lparr>sc_pending := jset k (sc_next s, e) (sc_pending s), sc_next := Suc (sc_next s)\<rparr>)"
proof -
  have "sc_next s \<notin> sc_aborted s" "sc_next s \<notin> set (sc_started s)"
    "pend s k' \<noteq> Some (sc_next s, e')" for k' e'
    using assms(1) unfolding sched_inv_def by blast+
  with assms show ?thesis
    unfolding sched_inv_def by (simp add: jset_distinct less_Suc_eq)
qed

lemma sched_inv_register:
  "sched_inv s \<Longrightarrow> register_sched owner i cron at' s = Inr (t, s') \<Longrightarrow> sched_inv s'"
  by (drule register_sched_cases) (auto intro!: sched_inv_put simp: entry_key_def)

lemma sched_inv_emit [simp]: "sched_inv (emit_log e ph now s) = sched_inv s"
  by (simp add: sched_inv_def emit_log_def)

lemma sched_inv_fire:
  assumes "sched_inv s"
  shows "sched_inv (timer_fires_sched k t now s)"
proof (cases "pend s k")
  case (Some p)
  obtain t' e where p: "p = (t', e)" by (cases p)
  show ?thesis
  proof (cases "t' \<noteq> t \<or> t \<in> sc_aborted s \<or> now < se_run_at e")
    case True
    then show ?thesis using assms Some p by (auto simp: timer_fires_sched_def)
  next
    case False
    then have "\<not> sc_stopped s" "t \<notin> set (sc_started s)" "t < sc_next s"
      "\<And>k' e'. pend s k' = Some (t, e') \<Longrightarrow> k' = k"
      using assms Some p unfolding sched_inv_def by (auto dest: spec)
    then have "sched_inv (s\<lparr>sc_pending := jdel k (sc_pending s), sc_running := jset t e (sc_running s),
        sc_in_progress := jset t e (sc_in_progress s), sc_started := sc_started s @ [t]\<rparr>)"
      using assms unfolding sched_inv_def by (simp add: jdel_distinct jset_distinct) blast
    then show ?thesis using False Some p by (simp add: timer_fires_sched_def)
  qed
qed (simp add: timer_fires_sched_def assms)

lemma sched_inv_rearm: "sched_inv s \<Longrightarrow> sched_inv (rearm_cron t e now s)"
  by (auto simp: rearm_cron_def entry_key_def intro!: sched_inv_put split: option.split sum.split)

lemma sched_inv_settled: "sched_inv s \<Longrightarrow>
    sched_inv (s\<lparr>sc_running := jdel t (sc_running s), sc_in_progress := jdel t (sc_in_progress s)\<rparr>)"
  unfolding sched_inv_def by (simp add: jdel_distinct)

lemma sched_inv_settle: "sched_inv s \<Longrightarrow> sched_inv (callback_settles t ok now s)"
  by (auto simp: callback_settles_def Let_def split: option.split intro!: sched_inv_rearm sched_inv_settled)

lemma cancel_sched_alt:
  "snd (cancel_sched owner i s) =
     (let s1 = (case pend s (sched_key owner i) of None \<Rightarrow> s | Some (t, e) \<Rightarrow> snd (cancel_entry t e s))
      in snd (cancel_all_entries (filter (\<lambda>(t, e). se_owner e = owner \<and> se_id e = i) (sc_running s1)) s1))"
  by (simp add: cancel_sched_def Let_def split_def split: option.split)

lemma sched_inv_cancel:
  "sched_inv s \<Longrightarrow> sched_inv (snd (cancel_sched owner i s)) \<and> shrinks s (snd (cancel_sched owner i s))"
proof -
  let ?s1 = "case pend s (sched_key owner i) of None \<Rightarrow> s | Some (t, e) \<Rightarrow> snd (cancel_entry t e s)"
  assume "sched_inv s"
  then have "sched_inv ?s1" "shrinks s ?s1"
    by (auto simp: cancel_entry_inv cancel_entry_shrinks split: option.split)
  then show ?thesis
    unfolding cancel_sched_alt Let_def using cancel_all_inv cancel_all_shrinks shrinks_trans by blast
qed

lemma sched_inv_cancel_owned:
  "sched_inv s \<Longrightarrow> sched_inv (cancel_owned owner s) \<and> shrinks s (cancel_owned owner s)"
  unfolding cancel_owned_def Let_def using cancel_all_inv cancel_all_shrinks shrinks_trans by blast

lemma cancel_all_stopped:
  "snd (cancel_all_entries es (s\<lparr>sc_stopped := b\<rparr>)) = (snd (cancel_all_entries es s))\<lparr>sc_stopped := b\<rparr>"
proof (induction es s rule: cancel_all_entries.induct)
  case (2 t e es s)
  have "snd (cancel_entry t e (s\<lparr>sc_stopped := b\<rparr>)) = (snd (cancel_entry t e s))\<lparr>sc_stopped := b\<rparr>"
    by (simp add: cancel_entry_def Let_def)
  then show ?case using 2 [OF refl prod.collapse] by (simp add: split_def Let_def)
qed simp

lemma shutdown_sched_props:
  assumes "sched_inv s"
  shows "sched_inv (shutdown_sched s) \<and> sc_stopped (shutdown_sched s) \<and> sc_log (shutdown_sched s) = sc_log s \<and>
    sc_in_progress (shutdown_sched s) = sc_in_progress s \<and> sc_aborted s \<subseteq> sc_aborted (shutdown_sched s)"
proof (cases "sc_stopped s")
  case False
  define es where "es = map snd (sc_pending s) @ sc_running s"
  define s1 where "s1 = snd (cancel_all_entries es s)"
  have eq: "shutdown_sched s = s1\<lparr>sc_stopped := True\<rparr>"
    using False by (simp add: shutdown_sched_def cancel_all_stopped es_def s1_def)
  have i: "sched_inv s1" and sh: "shrinks s s1" and gone: "\<forall>(t, e) \<in> set es. jget (sc_running s1) t = None \<and>
      (\<forall>e'. pend s1 (entry_key e) \<noteq> Some (t, e'))"
    using cancel_all_inv [OF assms] cancel_all_shrinks [OF assms] cancel_all_gone [OF assms]
    by (simp_all add: s1_def)
  have "pend s1 k = None" for k
  proof (rule ccontr)
    assume "pend s1 k \<noteq> None"
    then obtain t e where p: "pend s1 k = Some (t, e)" by fastforce
    then have "pend s k = Some (t, e)" using sh by (simp add: shrinks_def)
    then have "(t, e) \<in> set es" by (force simp: es_def dest: map_of_SomeD)
    moreover have "entry_key e = k" using i p by (simp add: sched_inv_def)
    ultimately show False using gone p by auto
  qed
  moreover have "t \<in> sc_aborted s1" if "prog s1 t = Some e" for t e
  proof -
    have "jget (sc_running s1) t = None"
    proof (rule ccontr)
      assume "jget (sc_running s1) t \<noteq> None"
      then obtain e' where r: "jget (sc_running s1) t = Some e'" by blast
      then have "jget (sc_running s) t = Some e'" using sh by (simp add: shrinks_def)
      then have "(t, e') \<in> set es" by (simp add: es_def map_of_SomeD)
      with gone r show False by auto
    qed
    with i that show ?thesis unfolding sched_inv_def by blast
  qed
  ultimately have "sched_inv (s1\<lparr>sc_stopped := True\<rparr>)"
    using i unfolding sched_inv_def by simp
  then show ?thesis using sh unfolding eq by (simp add: shrinks_def)
qed (simp add: shutdown_sched_def assms)

lemma sched_inv_apply: "sched_inv s \<Longrightarrow> sched_inv (sched_apply op s)"
  by (cases op)
    (auto simp: keep_if_error_def schedule_once_def schedule_cron_def shutdown_sched_props
      sched_inv_fire sched_inv_settle sched_inv_cancel sched_inv_cancel_owned
      intro: sched_inv_register split: sum.split option.split)

lemma sched_inv_trace: "sched_inv s \<Longrightarrow> sched_inv (sched_trace ops s)"
  by (induction ops arbitrary: s) (simp_all add: sched_trace_def sched_inv_apply)

section \<open>Silence after a cancellation\<close>

fun registers :: "sched_op \<Rightarrow> string \<Rightarrow> string \<Rightarrow> bool" where
  "registers (OSchedule o' i' _) owner i = (o' = owner \<and> i' = i)"
| "registers (OScheduleCron o' i' _ _) owner i = (o' = owner \<and> i' = i)"
| "registers _ owner i = False"

text \<open>Plugin ids hold no NUL, so a key determines its owner and id.\<close>

definition plain :: "string \<Rightarrow> bool" where
  "plain owner \<longleftrightarrow> \<not> List.member owner (char_of (0 :: nat))"

fun plain_op :: "sched_op \<Rightarrow> bool" where
  "plain_op (OSchedule owner _ _) = plain owner"
| "plain_op (OScheduleCron owner _ _ _) = plain owner"
| "plain_op _ = True"

lemma sched_key_inj: "plain a \<Longrightarrow> plain b \<Longrightarrow> sched_key a i = sched_key b j \<longleftrightarrow> a = b \<and> i = j"
  by (simp add: sched_key_def plain_def sep_cancel)

definition owners_plain :: "scheduler \<Rightarrow> bool" where
  "owners_plain s \<longleftrightarrow> (\<forall>k t e. pend s k = Some (t, e) \<longrightarrow> plain (se_owner e)) \<and>
     (\<forall>t e. prog s t = Some e \<longrightarrow> plain (se_owner e))"

definition quiet :: "string \<Rightarrow> string \<Rightarrow> scheduler \<Rightarrow> bool" where
  "quiet owner i s \<longleftrightarrow> pend s (sched_key owner i) = None \<and>
     (\<forall>t e. prog s t = Some e \<and> se_owner e = owner \<and> se_id e = i \<longrightarrow> t \<in> sc_aborted s)"

definition starts_of :: "string \<Rightarrow> string \<Rightarrow> scheduler \<Rightarrow> run_log list" where
  "starts_of owner i s =
     filter (\<lambda>l. rl_owner l = owner \<and> rl_id l = i \<and> rl_phase l = Started) (sc_log s)"

definition stays_quiet :: "string \<Rightarrow> string \<Rightarrow> scheduler \<Rightarrow> scheduler \<Rightarrow> bool" where
  "stays_quiet owner i s s' \<longleftrightarrow> quiet owner i s' \<and> owners_plain s' \<and> starts_of owner i s' = starts_of owner i s"

lemma shrinks_quiet:
  assumes "shrinks s s'" and "quiet owner i s" and "owners_plain s"
  shows "stays_quiet owner i s s'"
proof -
  have p: "pend s' k = Some x \<Longrightarrow> pend s k = Some x" for k x
    using assms(1) unfolding shrinks_def by blast
  have a: "t \<in> sc_aborted s \<Longrightarrow> t \<in> sc_aborted s'" for t
    using assms(1) unfolding shrinks_def by blast
  have eq: "sc_in_progress s' = sc_in_progress s" "sc_log s' = sc_log s"
    using assms(1) unfolding shrinks_def by blast+
  have "pend s' (sched_key owner i) = None"
    using assms(2) p [of "sched_key owner i"] by (cases "pend s' (sched_key owner i)") (simp_all add: quiet_def)
  with assms(2,3) show ?thesis
    unfolding quiet_def owners_plain_def stays_quiet_def starts_of_def eq using p a by blast
qed

lemma quiet_put:
  assumes "quiet owner i s" and "owners_plain s" and "plain (se_owner e)"
    and "entry_key e \<noteq> sched_key owner i"
  shows "stays_quiet owner i s (s\<lparr>sc_pending := jset (entry_key e) (t, e) (sc_pending s), sc_next := n\<rparr>)"
  using assms by (auto simp: quiet_def owners_plain_def stays_quiet_def starts_of_def)

lemma quiet_register:
  assumes "quiet owner i s" and "owners_plain s" and "plain owner" and "plain o'" and "\<not> (o' = owner \<and> i' = i)"
    and "register_sched o' i' cron at' s = Inr (t, s')"
  shows "stays_quiet owner i s s'"
proof -
  let ?e = "\<lparr>se_owner = o', se_id = i', se_cron = cron, se_run_at = at'\<rparr>"
  have "entry_key ?e = sched_key o' i'" "se_owner ?e = o'" by (simp_all add: entry_key_def)
  moreover have "sched_key o' i' \<noteq> sched_key owner i" using assms(3-5) by (simp add: sched_key_inj)
  ultimately show ?thesis
    using quiet_put [OF assms(1,2), where e = ?e and t = t and n = "Suc t"] register_sched_cases [OF assms(6)]
      assms(4) by simp
qed

lemma quiet_emit: "ph \<noteq> Started \<or> \<not> (se_owner e = owner \<and> se_id e = i) \<Longrightarrow>
    starts_of owner i (emit_log e ph now s) = starts_of owner i s"
  by (auto simp: starts_of_def emit_log_def)

lemma quiet_fire:
  assumes "sched_inv s" and "quiet owner i s" and "owners_plain s"
  shows "stays_quiet owner i s (timer_fires_sched k t now s)"
proof (cases "timer_fires_sched k t now s = s")
  case True
  with assms show ?thesis by (simp add: stays_quiet_def)
next
  case False
  then obtain e where p: "pend s k = Some (t, e)"
    and eq: "timer_fires_sched k t now s = emit_log e Started now
       (s\<lparr>sc_pending := jdel k (sc_pending s), sc_running := jset t e (sc_running s),
          sc_in_progress := jset t e (sc_in_progress s), sc_started := sc_started s @ [t]\<rparr>)"
    by (auto simp: timer_fires_sched_def split: option.splits if_splits)
  have ne: "\<not> (se_owner e = owner \<and> se_id e = i)"
  proof
    assume "se_owner e = owner \<and> se_id e = i"
    then have "k = sched_key owner i" using assms(1) p by (auto simp: sched_inv_def entry_key_def)
    with p assms(2) show False by (simp add: quiet_def)
  qed
  with assms p show ?thesis
    unfolding eq stays_quiet_def
    by (auto simp: quiet_emit) (auto simp: quiet_def owners_plain_def emit_log_def starts_of_def)
qed

lemma quiet_rearm:
  assumes "quiet owner i s" and "owners_plain s" and "plain owner" and "plain (se_owner e)"
    and "se_owner e = owner \<and> se_id e = i \<Longrightarrow> t \<in> sc_aborted s"
  shows "stays_quiet owner i s (rearm_cron t e now s)"
proof (cases "rearm_cron t e now s = s")
  case True
  with assms(1,2) show ?thesis by (simp add: stays_quiet_def)
next
  case False
  then obtain nxt where "t \<notin> sc_aborted s"
    and eq: "rearm_cron t e now s =
      s\<lparr>sc_pending := jset (entry_key (e\<lparr>se_run_at := nxt\<rparr>)) (sc_next s, e\<lparr>se_run_at := nxt\<rparr>) (sc_pending s),
        sc_next := Suc (sc_next s)\<rparr>"
    by (auto simp: rearm_cron_def entry_key_def split: option.splits if_splits sum.splits)
  then have "entry_key (e\<lparr>se_run_at := nxt\<rparr>) \<noteq> sched_key owner i"
    using assms(3-5) by (auto simp: entry_key_def sched_key_inj)
  then show ?thesis unfolding eq using assms by (intro quiet_put) simp_all
qed

lemma quiet_settle:
  assumes "quiet owner i s" and "owners_plain s" and "plain owner"
  shows "stays_quiet owner i s (callback_settles t ok now s)"
proof (cases "prog s t")
  case (Some e)
  let ?s1 = "emit_log e (if ok then CompletedP else FailedP) now s"
  let ?s2 = "?s1\<lparr>sc_running := jdel t (sc_running ?s1), sc_in_progress := jdel t (sc_in_progress ?s1)\<rparr>"
  have "quiet owner i ?s2" "owners_plain ?s2" "starts_of owner i ?s2 = starts_of owner i s"
    using assms quiet_emit [of "if ok then CompletedP else FailedP" e owner i now s]
    by (auto simp: quiet_def owners_plain_def emit_log_def starts_of_def)
  moreover have "plain (se_owner e)" "se_owner e = owner \<and> se_id e = i \<Longrightarrow> t \<in> sc_aborted ?s2"
    using assms Some by (auto simp: quiet_def owners_plain_def emit_log_def)
  ultimately show ?thesis
    using quiet_rearm [of owner i ?s2 e t now] assms(3) Some
    by (simp add: callback_settles_def Let_def stays_quiet_def)
qed (simp add: callback_settles_def stays_quiet_def assms)

lemma quiet_keep:
  assumes "quiet owner i s" and "owners_plain s"
    and "\<And>t s'. r = Inr (t, s') \<Longrightarrow> stays_quiet owner i s s'"
  shows "stays_quiet owner i s (keep_if_error s r)"
  using assms by (auto simp: keep_if_error_def stays_quiet_def split: sum.split)

lemma quiet_apply:
  assumes "sched_inv s" and "quiet owner i s" and "owners_plain s" and "plain owner"
    and "plain_op op" and "\<not> registers op owner i"
  shows "stays_quiet owner i s (sched_apply op s)"
proof (cases op)
  case (OSchedule o' i' ts)
  then show ?thesis using assms
    by (auto simp: schedule_once_def intro!: quiet_keep intro: quiet_register split: option.splits)
next
  case (OScheduleCron o' i' e now)
  then show ?thesis using assms
    by (auto simp: schedule_cron_def intro!: quiet_keep intro: quiet_register split: sum.splits)
next
  case OShutdown
  have "shrinks (s\<lparr>sc_stopped := True\<rparr>) (shutdown_sched s)" if "\<not> sc_stopped s"
    using cancel_all_shrinks [OF assms(1)] that
    by (auto simp: shutdown_sched_def cancel_all_stopped shrinks_def)
  then have "stays_quiet owner i (s\<lparr>sc_stopped := True\<rparr>) (shutdown_sched s)" if "\<not> sc_stopped s"
    using that assms(2,3) by (intro shrinks_quiet) (auto simp: quiet_def owners_plain_def)
  then show ?thesis using assms(2,3) OShutdown
    by (cases "sc_stopped s") (simp_all add: stays_quiet_def starts_of_def shutdown_sched_def)
qed (use assms in \<open>simp_all add: quiet_fire quiet_settle shrinks_quiet sched_inv_cancel sched_inv_cancel_owned\<close>)

lemma quiet_trace:
  assumes "sched_inv s" and "quiet owner i s" and "owners_plain s" and "plain owner"
    and "list_all plain_op ops" and "list_all (\<lambda>op. \<not> registers op owner i) ops"
  shows "stays_quiet owner i s (sched_trace ops s)"
  using assms
proof (induction ops arbitrary: s)
  case (Cons op ops)
  have "stays_quiet owner i s (sched_apply op s)" using Cons.prems by (intro quiet_apply) simp_all
  then show ?case using Cons.IH [of "sched_apply op s"] Cons.prems
    by (simp add: stays_quiet_def sched_trace_def sched_inv_apply)
qed (simp add: stays_quiet_def sched_trace_def)

lemma shrinks_owners: "shrinks s s' \<Longrightarrow> owners_plain s \<Longrightarrow> owners_plain s'"
  unfolding shrinks_def owners_plain_def by metis

lemma owners_plain_keep:
  "owners_plain s \<Longrightarrow> plain owner \<Longrightarrow> owners_plain (keep_if_error s (register_sched owner i cron at' s))"
  by (auto simp: keep_if_error_def owners_plain_def split: sum.split if_splits dest!: register_sched_cases)

lemma owners_plain_rearm: "owners_plain s \<Longrightarrow> plain (se_owner e) \<Longrightarrow> owners_plain (rearm_cron t e now s)"
  by (auto simp: rearm_cron_def owners_plain_def split: option.split sum.split)

lemma owners_plain_settle: "owners_plain s \<Longrightarrow> owners_plain (callback_settles t ok now s)"
  by (auto simp: callback_settles_def Let_def split: option.split intro!: owners_plain_rearm)
    (auto simp: owners_plain_def emit_log_def)

lemma owners_plain_fire: "owners_plain s \<Longrightarrow> owners_plain (timer_fires_sched k t now s)"
  by (auto simp: timer_fires_sched_def owners_plain_def emit_log_def split: option.split)

lemma shutdown_shrinks:
  assumes "sched_inv s"
  shows "shrinks (s\<lparr>sc_stopped := True\<rparr>) (shutdown_sched s)"
proof (cases "sc_stopped s")
  case True
  then show ?thesis by (simp add: shutdown_sched_def shrinks_def)
next
  case False
  with cancel_all_shrinks [OF assms] show ?thesis
    by (auto simp: shutdown_sched_def cancel_all_stopped shrinks_def)
qed

lemma owners_plain_apply:
  assumes "sched_inv s" and "owners_plain s" and "plain_op op"
  shows "owners_plain (sched_apply op s)"
proof (cases op)
  case (OSchedule o' i' ts)
  with assms show ?thesis
    by (cases ts) (auto simp: schedule_once_def owners_plain_keep, simp add: keep_if_error_def)
next
  case (OScheduleCron o' i' e now)
  with assms show ?thesis
    by (cases "next_cron_occurrence e now") (auto simp: schedule_cron_def owners_plain_keep, simp add: keep_if_error_def)
next
  case OShutdown
  have "owners_plain (s\<lparr>sc_stopped := True\<rparr>)" using assms(2) by (simp add: owners_plain_def)
  with shrinks_owners [OF shutdown_shrinks [OF assms(1)]] OShutdown show ?thesis by simp
next
  case (OCancel o' i')
  with shrinks_owners [OF sched_inv_cancel [OF assms(1), THEN conjunct2] assms(2)] show ?thesis by simp
next
  case (OCancelOwned o')
  with shrinks_owners [OF sched_inv_cancel_owned [OF assms(1), THEN conjunct2] assms(2)] show ?thesis by simp
qed (use assms in \<open>simp_all add: owners_plain_fire owners_plain_settle\<close>)

lemma owners_plain_trace:
  "sched_inv s \<Longrightarrow> owners_plain s \<Longrightarrow> list_all plain_op ops \<Longrightarrow> owners_plain (sched_trace ops s)"
  by (induction ops arbitrary: s) (simp_all add: sched_trace_def sched_inv_apply owners_plain_apply)

lemma owners_plain_new: "owners_plain new_scheduler"
  by (simp add: owners_plain_def new_scheduler_def)

lemma quiet_cancel:
  assumes "sched_inv s"
  shows "quiet owner i (snd (cancel_sched owner i s))"
proof -
  let ?k = "sched_key owner i"
  define s1 where "s1 = (case pend s ?k of None \<Rightarrow> s | Some (t, e) \<Rightarrow> snd (cancel_entry t e s))"
  define es where "es = filter (\<lambda>(t, e). se_owner e = owner \<and> se_id e = i) (sc_running s1)"
  define s2 where "s2 = snd (cancel_all_entries es s1)"
  have eq: "snd (cancel_sched owner i s) = s2"
    by (simp add: cancel_sched_alt Let_def s2_def es_def s1_def)
  have i1: "sched_inv s1" and sh1: "shrinks s s1"
    using assms by (auto simp: s1_def cancel_entry_inv cancel_entry_shrinks split: option.split)
  have i2: "sched_inv s2" and sh: "shrinks s1 s2" and gone: "\<forall>(t, e) \<in> set es. jget (sc_running s2) t = None"
    using cancel_all_inv [OF i1] cancel_all_shrinks [OF i1] cancel_all_gone [OF i1, of es]
    by (auto simp: s2_def)
  have "pend s1 ?k = None"
  proof (cases "pend s ?k")
    case (Some p)
    obtain t e where p: "p = (t, e)" by (cases p)
    then have "entry_key e = ?k" using assms Some by (simp add: sched_inv_def)
    show ?thesis
    proof (rule ccontr)
      assume "pend s1 ?k \<noteq> None"
      then have "pend s1 ?k = Some (t, e)" using sh1 Some p by (auto simp: shrinks_def)
      then show False using cancel_entry_gone(2) [of t e s e] Some p \<open>entry_key e = ?k\<close> by (simp add: s1_def)
    qed
  qed (simp add: s1_def)
  then have "pend s2 ?k = None" using sh by (cases "pend s2 ?k") (auto simp: shrinks_def)
  moreover have "t \<in> sc_aborted s2" if "prog s2 t = Some e" "se_owner e = owner" "se_id e = i" for t e
  proof -
    have "jget (sc_running s2) t = None"
    proof (rule ccontr)
      assume "jget (sc_running s2) t \<noteq> None"
      then obtain e' where r: "jget (sc_running s2) t = Some e'" by blast
      then have "e' = e" using i2 that(1) by (simp add: sched_inv_def)
      then have "jget (sc_running s1) t = Some e" using r sh by (simp add: shrinks_def)
      then have "(t, e) \<in> set es" using that by (simp add: es_def map_of_SomeD)
      with gone r show False by auto
    qed
    with i2 that(1) show ?thesis unfolding sched_inv_def by blast
  qed
  ultimately show ?thesis unfolding eq quiet_def by blast
qed

section \<open>Properties\<close>

lemmas sched_inv_reachable = sched_inv_trace [OF sched_inv_new]

text \<open>
  Whatever timers fire, settle, are cancelled or registered again, no entry of the scheduler is
  started twice, and a started entry is pending no more.
\<close>

lemma pending_tokens_distinct:
  assumes "sched_inv s"
  shows "distinct (map (\<lambda>(k, t, e). t) (sc_pending s))"
proof -
  have d: "jkeys_distinct (sc_pending s)" using assms by (simp add: sched_inv_def)
  have "inj_on (\<lambda>(k, t, e). t) (set (sc_pending s))"
  proof (rule inj_onI, clarsimp)
    fix k t e k' e' assume "(k, t, e) \<in> set (sc_pending s)" and "(k', t, e') \<in> set (sc_pending s)"
    then have "pend s k = Some (t, e)" "pend s k' = Some (t, e')" using d by simp_all
    with assms show "k = k' \<and> e = e'" unfolding sched_inv_def by (metis option.inject prod.inject)
  qed
  moreover have "distinct (sc_pending s)" using d by (simp add: distinct_map)
  ultimately show ?thesis by (simp add: distinct_map)
qed

theorem entry_started_once:
  "distinct (sc_started (sched_trace ops new_scheduler) @
     map (\<lambda>(k, t, e). t) (sc_pending (sched_trace ops new_scheduler)))"
proof -
  let ?s = "sched_trace ops new_scheduler"
  note inv = sched_inv_reachable [of ops]
  have "(k, t, e) \<in> set (sc_pending ?s) \<Longrightarrow> t \<notin> set (sc_started ?s)" for k t e
    using inv unfolding sched_inv_def by (metis map_of_eq_Some_iff)
  then show ?thesis using pending_tokens_distinct [OF inv] inv by (auto simp: sched_inv_def)
qed

text \<open>
  C18: once a schedule is cancelled by name, its callback is not started again, whatever happens
  afterwards, cron callbacks still in progress and stale timers included, until its owner registers
  that name again.
\<close>

theorem cancel_final:
  assumes "list_all plain_op ops" and "list_all plain_op later" and "plain owner"
    and "list_all (\<lambda>op. \<not> registers op owner i) later"
  shows "starts_of owner i (sched_trace later (snd (cancel_sched owner i (sched_trace ops new_scheduler)))) =
    starts_of owner i (sched_trace ops new_scheduler)"
proof -
  let ?s = "sched_trace ops new_scheduler"
  let ?c = "snd (cancel_sched owner i ?s)"
  have c: "sched_inv ?c" "shrinks ?s ?c" using sched_inv_cancel [OF sched_inv_reachable] by blast+
  moreover have "owners_plain ?c"
    using shrinks_owners [OF c(2) owners_plain_trace [OF sched_inv_new owners_plain_new assms(1)]] .
  ultimately have "starts_of owner i (sched_trace later ?c) = starts_of owner i ?c"
    using quiet_trace [OF _ quiet_cancel [OF sched_inv_reachable] _ assms(3,2,4)] by (simp add: stays_quiet_def)
  then show ?thesis using c(2) by (simp add: starts_of_def shrinks_def)
qed

text \<open>
  What a stopped scheduler starts: nothing.
\<close>

lemma stopped_apply:
  assumes "sched_inv s" and "sc_stopped s"
  shows "sc_stopped (sched_apply op s) \<and> sc_started (sched_apply op s) = sc_started s"
proof (cases op)
  case (OFire k t now)
  then show ?thesis using assms by (simp add: timer_fires_sched_def sched_inv_def)
next
  case (OSettle t ok now)
  then show ?thesis using assms(2)
    by (auto simp: callback_settles_def Let_def rearm_cron_def emit_log_def split: option.split)
next
  case (OCancel owner i)
  then show ?thesis using sched_inv_cancel [OF assms(1), of owner i] assms(2) by (simp add: shrinks_def)
next
  case (OCancelOwned owner)
  then show ?thesis using sched_inv_cancel_owned [OF assms(1), of owner] assms(2) by (simp add: shrinks_def)
qed (use assms in \<open>auto simp: keep_if_error_def schedule_once_def schedule_cron_def register_sched_def
  shutdown_sched_def split: option.split sum.split\<close>)

text \<open>
  After a shutdown nothing is started any more, every callback still in progress has its signal
  aborted, nothing is pending, and every registration is refused.
\<close>

theorem shutdown_final:
  "let s = sched_trace ops new_scheduler; s' = sched_trace later (shutdown_sched s)
   in sc_started s' = sc_started s \<and> pend s' k = None \<and>
      (prog s' t = None \<or> t \<in> sc_aborted s') \<and>
      register_sched owner i cron at' s' = Inl SchedulerStopped"
proof -
  define s0 where "s0 = shutdown_sched (sched_trace ops new_scheduler)"
  have stop: "sched_inv s \<Longrightarrow> sc_stopped s \<Longrightarrow>
      sc_stopped (sched_trace later s) \<and> sc_started (sched_trace later s) = sc_started s" for s
    by (induction later arbitrary: s) (auto simp: sched_trace_def stopped_apply sched_inv_apply)
  have p: "sched_inv s0" "sc_stopped s0" "sc_started s0 = sc_started (sched_trace ops new_scheduler)"
    using shutdown_sched_props [OF sched_inv_reachable [of ops]] shutdown_shrinks [OF sched_inv_reachable [of ops]]
    by (simp_all add: s0_def shrinks_def)
  note t = stop [OF p(1,2)]
  moreover have "pend (sched_trace later s0) k = None"
    "prog (sched_trace later s0) t = None \<or> t \<in> sc_aborted (sched_trace later s0)"
    using sched_inv_trace [OF p(1), of later] t unfolding sched_inv_def by auto
  ultimately show ?thesis
    using p(3) by (simp add: register_sched_def Let_def s0_def)
qed

definition job_ops :: "sched_op list" where
  "job_ops = [OSchedule ''p'' ''job'' (Some 5), OFire (sched_key ''p'' ''job'') 0 6, OSchedule ''p'' ''job'' (Some 9)]"

definition job_later :: "sched_op list" where
  "job_later = [OFire (sched_key ''p'' ''job'') 1 9, OSettle 0 True 10, OSchedule ''p'' ''other'' (Some 9)]"

theorem cancel_final_witness:
  "length (starts_of ''p'' ''job'' (sched_trace job_later
     (snd (cancel_sched ''p'' ''job'' (sched_trace job_ops new_scheduler))))) = 1"
proof -
  have "length (starts_of ''p'' ''job'' (sched_trace job_ops new_scheduler)) = 1" by code_simp
  moreover have "list_all plain_op job_ops" "list_all plain_op job_later" "plain ''p''"
    "list_all (\<lambda>op. \<not> registers op ''p'' ''job'') job_later" by code_simp+
  ultimately show ?thesis using cancel_final [of job_ops job_later "''p''" "''job''"] by simp
qed

section \<open>A registration that is lost\<close>

text \<open>
  \<open>#rearmCron\<close> sets the next entry of a cron callback without looking at what its key holds by now.
  An entry that was registered under that name while the callback ran is overwritten: \<open>lost\<close>.
\<close>

definition lost :: "nat \<Rightarrow> scheduler \<Rightarrow> bool" where
  "lost t s \<longleftrightarrow> t < sc_next s \<and> (\<forall>k e. pend s k \<noteq> Some (t, e)) \<and> prog s t = None \<and>
     t \<notin> set (sc_started s) \<and> t \<notin> sc_aborted s"

lemma lost_cancel_entry:
  assumes "sched_inv s" and "lost t s"
  shows "lost t (snd (cancel_entry u e s))"
proof -
  have "t \<noteq> u" if "fst (cancel_entry u e s)"
  proof -
    have "(\<exists>e'. pend s (entry_key e) = Some (u, e')) \<or> jget (sc_running s) u \<noteq> None"
      using that by (auto simp: cancel_entry_def Let_def split: option.splits prod.splits)
    then show ?thesis using assms unfolding lost_def sched_inv_def by blast
  qed
  moreover have "sc_aborted (snd (cancel_entry u e s)) =
      (if fst (cancel_entry u e s) then insert u (sc_aborted s) else sc_aborted s)"
    by (simp add: cancel_entry_def Let_def)
  moreover have "shrinks s (snd (cancel_entry u e s))" by (rule cancel_entry_shrinks)
  moreover have "pend (snd (cancel_entry u e s)) k \<noteq> Some (t, e')" for k e'
    using cancel_entry_shrinks [of s u e] assms(2) unfolding shrinks_def lost_def by blast
  ultimately show ?thesis using assms(2) unfolding lost_def shrinks_def by simp
qed

lemma lost_cancel_all: "sched_inv s \<Longrightarrow> lost t s \<Longrightarrow> lost t (snd (cancel_all_entries es s))"
proof (induction es s rule: cancel_all_entries.induct)
  case (2 u e es s)
  then show ?case
    using 2(1) [OF refl prod.collapse] cancel_entry_inv lost_cancel_entry by (simp add: split_def Let_def)
qed simp

lemma lost_put:
  "lost t s \<Longrightarrow> lost t (s\<lparr>sc_pending := jset k (sc_next s, e) (sc_pending s), sc_next := Suc (sc_next s)\<rparr>)"
  by (auto simp: lost_def)

lemma lost_keep: "lost t s \<Longrightarrow> lost t (keep_if_error s (register_sched owner i cron at' s))"
  by (auto simp: keep_if_error_def intro: lost_put split: sum.split dest!: register_sched_cases)

lemma lost_emit [simp]: "lost t (emit_log e ph now s) = lost t s"
  by (simp add: lost_def emit_log_def)

lemma lost_rearm: "lost t s \<Longrightarrow> lost t (rearm_cron u e now s)"
  by (auto simp: rearm_cron_def intro: lost_put split: option.split sum.split)

lemma lost_apply:
  assumes "sched_inv s" and "lost t s"
  shows "lost t (sched_apply op s)"
proof (cases op)
  case (OSchedule o' i' ts)
  with assms show ?thesis
    by (cases ts) (auto simp: schedule_once_def lost_keep, simp add: keep_if_error_def)
next
  case (OScheduleCron o' i' e now)
  with assms show ?thesis
    by (cases "next_cron_occurrence e now") (auto simp: schedule_cron_def lost_keep, simp add: keep_if_error_def)
next
  case (OFire k u now)
  with assms show ?thesis
    by (auto simp: timer_fires_sched_def lost_def emit_log_def split: option.split)
next
  case (OSettle u ok now)
  have "lost t s \<Longrightarrow> lost t (s\<lparr>sc_running := r, sc_in_progress := jdel u (sc_in_progress s)\<rparr>)" for s r
    by (simp add: lost_def)
  with assms OSettle show ?thesis
    by (auto simp: callback_settles_def Let_def intro!: lost_rearm split: option.split)
next
  case (OCancel owner i)
  have i: "sched_inv (case pend s k of None \<Rightarrow> s | Some (t, e) \<Rightarrow> snd (cancel_entry t e s))"
    "lost t (case pend s k of None \<Rightarrow> s | Some (t, e) \<Rightarrow> snd (cancel_entry t e s))" for k
    using assms by (auto simp: cancel_entry_inv lost_cancel_entry split: option.split)
  show ?thesis unfolding OCancel by (simp add: cancel_sched_alt Let_def lost_cancel_all [OF i])
next
  case (OCancelOwned owner)
  with assms show ?thesis by (simp add: cancel_owned_def Let_def lost_cancel_all cancel_all_inv)
next
  case OShutdown
  have "lost t (snd (cancel_all_entries es s)\<lparr>sc_stopped := True\<rparr>) = lost t (snd (cancel_all_entries es s))" for es
    by (simp add: lost_def)
  with OShutdown assms show ?thesis by (simp add: shutdown_sched_def cancel_all_stopped lost_cancel_all)
qed

lemma lost_trace: "sched_inv s \<Longrightarrow> lost t s \<Longrightarrow> lost t (sched_trace ops s)"
  by (induction ops arbitrary: s) (simp_all add: sched_trace_def lost_apply sched_inv_apply)

text \<open>
  C19: a schedule registered under the name of a running cron callback is lost when that callback
  settles: it never starts and its signal is never aborted, whatever happens later, although
  its registration had succeeded.
\<close>

theorem rearm_loses_registration:
  assumes "prog (sched_trace ops new_scheduler) t = Some e" and "se_cron e = Some expression"
    and "t \<notin> sc_aborted (sched_trace ops new_scheduler)"
    and "next_cron_occurrence expression now = Inr nxt"
    and "pend (sched_trace ops new_scheduler) (entry_key e) = Some (u, e')"
  shows "u \<notin> set (sc_started (sched_trace (OSettle t ok now # later) (sched_trace ops new_scheduler))) \<and>
    u \<notin> sc_aborted (sched_trace (OSettle t ok now # later) (sched_trace ops new_scheduler))"
proof -
  let ?s = "sched_trace ops new_scheduler"
  note inv = sched_inv_reachable [of ops]
  have s: "\<not> sc_stopped ?s" using inv assms(1,3) unfolding sched_inv_def by blast
  have u: "u < sc_next ?s" "u \<notin> sc_aborted ?s" "u \<notin> set (sc_started ?s)"
    using inv assms(5) unfolding sched_inv_def by (blast, blast, blast)
  have w: "k = entry_key e" if "pend ?s k = Some (u, e2)" for k e2
    using inv assms(5) that unfolding sched_inv_def by blast
  have v: "prog ?s u = None"
    using inv u(3) unfolding sched_inv_def by (metis not_None_eq)
  have "lost u (callback_settles t ok now ?s)"
    using assms s u v by (auto dest: w simp: callback_settles_def Let_def rearm_cron_def emit_log_def lost_def)
  from lost_trace [OF sched_inv_settle [OF inv] this, of later]
  show ?thesis by (simp add: lost_def sched_trace_def)
qed

definition overwrite_ops :: "sched_op list" where
  "overwrite_ops = [OScheduleCron ''p'' ''job'' every_minute 0, OFire (sched_key ''p'' ''job'') 0 60000,
     OSchedule ''p'' ''job'' (Some 99999)]"

theorem rearm_loses_registration_witness:
  "fst (the (pend (sched_trace overwrite_ops new_scheduler) (sched_key ''p'' ''job''))) = 1 \<and>
   1 \<notin> set (sc_started (sched_trace [OSettle 0 True 61000, OFire (sched_key ''p'' ''job'') 1 99999]
     (sched_trace overwrite_ops new_scheduler)))"
proof -
  let ?s = "sched_trace overwrite_ops new_scheduler"
  have p: "prog ?s 0 = Some \<lparr>se_owner = ''p'', se_id = ''job'', se_cron = Some every_minute, se_run_at = 60000\<rparr>"
    "0 \<notin> sc_aborted ?s" by code_simp+
  have n: "next_cron_occurrence every_minute 61000 = Inr 120000" by code_simp
  have u: "pend ?s (sched_key ''p'' ''job'') =
      Some (1, \<lparr>se_owner = ''p'', se_id = ''job'', se_cron = None, se_run_at = 99999\<rparr>)" by code_simp
  from rearm_loses_registration [OF p(1) _ p(2) n, where u = 1 and ok = True
      and later = "[OFire (sched_key ''p'' ''job'') 1 99999]"]
  show ?thesis using u by (simp add: entry_key_def)
qed

end
