(* ===== verification/Json_Schema.thy ===== *)
theory Json_Schema
  imports Json
begin

text \<open>
  The JSON schema validator (\<open>packages/kernel/src/json-schema.ts\<close>). The node budget is a shared
  counter in the code and is threaded here; a check is a function from the budget to an error or
  the budget that is left. The path of a node only ends up in the text of a message, so errors
  carry the reason without it. Objects hold no key of \<open>Object.prototype\<close>.
\<close>

datatype schema_error =
    LiteralTooComplex | LiteralTooManyItems | LiteralTooManyProperties | LiteralNotJson
  | BadTypeKeyword | SchemaTooDeep | SchemaNotObject | SchemaNotJson | UnsupportedKeyword string
  | AnnotationNotString | AnnotationNotBoolean | ExamplesNotArray | RepeatedType | UnsupportedType string
  | PropertiesNotObject | TooManyProperties | RequiredNotStrings | RequiredDuplicates
  | TupleItems | NotFiniteNumber string | NotNonNegativeInteger string | UniqueItemsNotBoolean
  | EnumNotArray | NullableNotBoolean | ExclusiveWithoutBound string | MultipleOfNotPositive
  | ValueTooComplex | RejectedByBoolean | SchemaInvalid | TypeMismatch | ConstMismatch | EnumMismatch
  | TooShort | TooLong | BelowMinimum | BelowExclusiveMinimum | AboveMaximum | AboveExclusiveMaximum
  | NotAMultiple | TooFewItems | TooManyItems | TooManyForUnique | DuplicateItems
  | TooFewProperties | TooManyValueProperties | MissingRequired string | UnexpectedProperty string

definition MAX_SCHEMA_DEPTH :: nat where
  "MAX_SCHEMA_DEPTH = 16"

definition MAX_SCHEMA_NODES :: int where
  "MAX_SCHEMA_NODES = 10000"

definition MAX_SCHEMA_MEMBERS :: int where
  "MAX_SCHEMA_MEMBERS = 1024"

definition MAX_UNIQUE_ITEMS :: int where
  "MAX_UNIQUE_ITEMS = 1000"

definition ASSERTION_KEYS :: "string list" where
  "ASSERTION_KEYS = [''type'', ''properties'', ''required'', ''additionalProperties'', ''items'', ''minItems'',
     ''maxItems'', ''uniqueItems'', ''enum'', ''const'', ''nullable'', ''minProperties'', ''maxProperties'',
     ''minLength'', ''maxLength'', ''minimum'', ''maximum'', ''exclusiveMinimum'', ''exclusiveMaximum'',
     ''multipleOf'']"

definition STRING_ANNOTATION_KEYS :: "string list" where
  "STRING_ANNOTATION_KEYS = [''$schema'', ''$id'', ''$comment'', ''title'', ''description'', ''format'',
     ''contentEncoding'', ''contentMediaType'']"

definition BOOLEAN_ANNOTATION_KEYS :: "string list" where
  "BOOLEAN_ANNOTATION_KEYS = [''deprecated'', ''readOnly'', ''writeOnly'']"

definition SCHEMA_TYPES :: "string list" where
  "SCHEMA_TYPES = [''object'', ''array'', ''string'', ''number'', ''integer'', ''boolean'', ''null'']"

section \<open>Kinds of values\<close>

definition is_array :: "jsval \<Rightarrow> bool" where
  "is_array v = (case v of VArr _ \<Rightarrow> True | _ \<Rightarrow> False)"

definition is_string :: "jsval \<Rightarrow> bool" where
  "is_string v = (case v of VStr _ \<Rightarrow> True | _ \<Rightarrow> False)"

definition is_bool :: "jsval \<Rightarrow> bool" where
  "is_bool v = (case v of VBool _ \<Rightarrow> True | _ \<Rightarrow> False)"

definition arr_items :: "jsval \<Rightarrow> jsval list" where
  "arr_items v = (case v of VArr xs \<Rightarrow> xs | _ \<Rightarrow> [])"

definition as_number :: "jsval \<Rightarrow> rat option" where
  "as_number v = (case v of VNum n \<Rightarrow> if num_finite n then Some (num_val n) else None | _ \<Rightarrow> None)"

definition strings_in :: "jsval list \<Rightarrow> string list" where
  "strings_in xs = List.map_filter str_of xs"

section \<open>Equality of JSON values\<close>

text \<open>\<open>Object.is\<close> on values that are not objects; objects are never shared.\<close>

definition object_is :: "jsval \<Rightarrow> jsval \<Rightarrow> bool" where
  "object_is l r =
     (case (l, r) of
        (VUndef, VUndef) \<Rightarrow> True
      | (VNull, VNull) \<Rightarrow> True
      | (VBool a, VBool b) \<Rightarrow> a = b
      | (VNum a, VNum b) \<Rightarrow> a = b
      | (VStr a, VStr b) \<Rightarrow> a = b
      | _ \<Rightarrow> False)"

fun same_json :: "jsval \<Rightarrow> jsval \<Rightarrow> bool"
  and same_items :: "jsval list \<Rightarrow> jsval list \<Rightarrow> bool"
  and same_fields :: "(string \<times> jsval) list \<Rightarrow> jsval \<Rightarrow> bool" where
  "same_json (VArr xs) (VArr ys) = (length xs = length ys \<and> same_items xs ys)"
| "same_json (VObj fs) (VObj gs) = (length fs = length gs \<and> same_fields fs (VObj gs))"
| "same_json l r = object_is l r"
| "same_items (x # xs) (y # ys) = (same_json x y \<and> same_items xs ys)"
| "same_items _ _ = True"
| "same_fields [] r = True"
| "same_fields ((k, x) # fs) r = (same_json x (getp r k) \<and> same_fields fs r)"

section \<open>The budget\<close>

fun each_b :: "('a \<Rightarrow> int \<Rightarrow> 'e + int) \<Rightarrow> 'a list \<Rightarrow> int \<Rightarrow> 'e + int" where
  "each_b f [] b = Inr b"
| "each_b f (x # xs) b = rbind (f x b) (each_b f xs)"

lemma each_b_cong [fundef_cong]:
  "xs = ys \<Longrightarrow> b = c \<Longrightarrow> (\<And>x n. x \<in> set ys \<Longrightarrow> f x n = g x n) \<Longrightarrow> each_b f xs b = each_b g ys c"
proof (induction ys arbitrary: xs b c)
  case (Cons y ys)
  then have "each_b f ys = each_b g ys" by auto
  with Cons show ?case by simp
qed simp

lemma rbind_cong [fundef_cong]:
  "r = r' \<Longrightarrow> (\<And>a. r' = Inr a \<Longrightarrow> f a = g a) \<Longrightarrow> rbind r f = rbind r' g"
  by (cases r) auto

definition check_b :: "bool \<Rightarrow> 'e \<Rightarrow> int \<Rightarrow> 'e + int" where
  "check_b ok e b = (if ok then Inr b else Inl e)"

lemma check_b_Inr [simp]: "check_b ok e b = Inr b' \<longleftrightarrow> ok \<and> b' = b"
  by (auto simp: check_b_def)

text \<open>A check that applies where the keyword is present.\<close>

definition if_set :: "jsval \<Rightarrow> string \<Rightarrow> (jsval \<Rightarrow> int \<Rightarrow> 'e + int) \<Rightarrow> int \<Rightarrow> 'e + int" where
  "if_set s k f b = (if getp s k = VUndef then Inr b else f (getp s k) b)"

lemma if_set_cong [fundef_cong]:
  "s = s' \<Longrightarrow> k = k' \<Longrightarrow> b = b' \<Longrightarrow> (\<And>v. f v b' = g v b') \<Longrightarrow> if_set s k f b = if_set s' k' g b'"
  by (simp add: if_set_def)

section \<open>Well-formed schemas\<close>

function assert_json_literal :: "jsval \<Rightarrow> nat \<Rightarrow> int \<Rightarrow> schema_error + int" where
  "assert_json_literal v d b =
     (if MAX_SCHEMA_DEPTH < d \<or> b - 1 < 0 then Inl LiteralTooComplex
      else
        case v of
          VArr xs \<Rightarrow>
            if MAX_SCHEMA_MEMBERS < int (length xs) then Inl LiteralTooManyItems
            else each_b (\<lambda>x n. assert_json_literal x (Suc d) n) xs (b - 1)
        | VObj fs \<Rightarrow>
            if MAX_SCHEMA_MEMBERS < int (length fs) then Inl LiteralTooManyProperties
            else each_b (\<lambda>x n. assert_json_literal x (Suc d) n) (map snd fs) (b - 1)
        | VNum n \<Rightarrow> check_b (num_finite n) LiteralNotJson (b - 1)
        | VUndef \<Rightarrow> Inl LiteralNotJson
        | VOther \<Rightarrow> Inl LiteralNotJson
        | _ \<Rightarrow> Inr (b - 1))"
  by auto
termination by (relation "measure (\<lambda>(v, d, b). Suc MAX_SCHEMA_DEPTH - d)") auto

declare assert_json_literal.simps [simp del]

text \<open>\<open>typeNames\<close>: \<open>None\<close> where the schema names no type.\<close>

definition type_names :: "jsval \<Rightarrow> schema_error + string list option" where
  "type_names s =
     (case getp s ''type'' of
        VUndef \<Rightarrow> Inr None
      | VStr t \<Rightarrow> Inr (Some [t])
      | VArr xs \<Rightarrow>
          if xs \<noteq> [] \<and> length xs \<le> 8 \<and> list_all is_string xs then Inr (Some (strings_in xs))
          else Inl BadTypeKeyword
      | _ \<Rightarrow> Inl BadTypeKeyword)"

definition assert_types :: "jsval \<Rightarrow> int \<Rightarrow> schema_error + int" where
  "assert_types s b =
     rbind (type_names s) (\<lambda>types.
       case types of
         None \<Rightarrow> Inr b
       | Some ts \<Rightarrow>
           if \<not> distinct ts then Inl RepeatedType
           else
             (case filter (\<lambda>t. \<not> List.member SCHEMA_TYPES t) ts of
                [] \<Rightarrow> Inr b
              | t # _ \<Rightarrow> Inl (UnsupportedType t)))"

text \<open>The keyword of one entry: the loop over \<open>Object.entries(schema)\<close>.\<close>

definition assert_entry :: "nat \<Rightarrow> string \<times> jsval \<Rightarrow> int \<Rightarrow> schema_error + int" where
  "assert_entry d e b =
     (case e of (key, v) \<Rightarrow>
        if v = VUndef then Inl SchemaNotJson
        else if \<not> List.member ASSERTION_KEYS key \<and> \<not> List.member STRING_ANNOTATION_KEYS key \<and>
            \<not> List.member BOOLEAN_ANNOTATION_KEYS key \<and> key \<noteq> ''default'' \<and> key \<noteq> ''examples''
        then Inl (UnsupportedKeyword key)
        else if List.member STRING_ANNOTATION_KEYS key \<and> \<not> is_string v then Inl AnnotationNotString
        else if List.member BOOLEAN_ANNOTATION_KEYS key \<and> \<not> is_bool v then Inl AnnotationNotBoolean
        else if key = ''default'' then assert_json_literal v (Suc d) b
        else if key = ''examples'' then
          (case v of
             VArr xs \<Rightarrow>
               if MAX_SCHEMA_MEMBERS < int (length xs) then Inl ExamplesNotArray
               else each_b (\<lambda>x n. assert_json_literal x (Suc d) n) xs b
           | _ \<Rightarrow> Inl ExamplesNotArray)
        else Inr b)"

definition assert_required :: "jsval \<Rightarrow> int \<Rightarrow> schema_error + int" where
  "assert_required v b =
     (case v of
        VArr xs \<Rightarrow>
          if MAX_SCHEMA_MEMBERS < int (length xs) \<or> \<not> list_all is_string xs then Inl RequiredNotStrings
          else if \<not> distinct (strings_in xs) then Inl RequiredDuplicates
          else Inr b
      | _ \<Rightarrow> Inl RequiredNotStrings)"

definition assert_enum :: "nat \<Rightarrow> jsval \<Rightarrow> int \<Rightarrow> schema_error + int" where
  "assert_enum d v b =
     (case v of
        VArr xs \<Rightarrow>
          if xs = [] \<or> MAX_SCHEMA_MEMBERS < int (length xs) then Inl EnumNotArray
          else each_b (\<lambda>x n. assert_json_literal x (Suc d) n) xs b
      | _ \<Rightarrow> Inl EnumNotArray)"

definition assert_finite_number :: "string \<Rightarrow> jsval \<Rightarrow> int \<Rightarrow> schema_error + int" where
  "assert_finite_number label v b = check_b (as_number v \<noteq> None) (NotFiniteNumber label) b"

definition assert_non_negative_integer :: "string \<Rightarrow> jsval \<Rightarrow> int \<Rightarrow> schema_error + int" where
  "assert_non_negative_integer label v b =
     (case as_number v of
        None \<Rightarrow> Inl (NotFiniteNumber label)
      | Some q \<Rightarrow> check_b (of_int \<lfloor>q\<rfloor> = q \<and> 0 \<le> q) (NotNonNegativeInteger label) b)"

definition assert_exclusive :: "string \<Rightarrow> jsval \<Rightarrow> jsval \<Rightarrow> int \<Rightarrow> schema_error + int" where
  "assert_exclusive label bound v b =
     (if is_bool v then check_b (bound \<noteq> VUndef) (ExclusiveWithoutBound label) b
      else assert_finite_number label v b)"

definition assert_multiple_of :: "jsval \<Rightarrow> int \<Rightarrow> schema_error + int" where
  "assert_multiple_of v b =
     (case as_number v of
        None \<Rightarrow> Inl (NotFiniteNumber ''multipleOf'')
      | Some q \<Rightarrow> check_b (0 < q) MultipleOfNotPositive b)"

text \<open>The checks that follow \<open>items\<close>, in the order of the code.\<close>

definition assert_limits :: "nat \<Rightarrow> jsval \<Rightarrow> int \<Rightarrow> schema_error + int" where
  "assert_limits d s b =
     rbind (if_set s ''minItems'' (assert_non_negative_integer ''minItems'') b) (\<lambda>b.
     rbind (if_set s ''maxItems'' (assert_non_negative_integer ''maxItems'') b) (\<lambda>b.
     rbind (if_set s ''uniqueItems'' (\<lambda>v. check_b (is_bool v) UniqueItemsNotBoolean) b) (\<lambda>b.
     rbind (if_set s ''enum'' (assert_enum d) b) (\<lambda>b.
     rbind (if_set s ''const'' (\<lambda>v. assert_json_literal v (Suc d)) b) (\<lambda>b.
     rbind (if_set s ''nullable'' (\<lambda>v. check_b (is_bool v) NullableNotBoolean) b) (\<lambda>b.
     rbind (if_set s ''minProperties'' (assert_non_negative_integer ''minProperties'') b) (\<lambda>b.
     rbind (if_set s ''maxProperties'' (assert_non_negative_integer ''maxProperties'') b) (\<lambda>b.
     rbind (if_set s ''minLength'' (assert_non_negative_integer ''minLength'') b) (\<lambda>b.
     rbind (if_set s ''maxLength'' (assert_non_negative_integer ''maxLength'') b) (\<lambda>b.
     rbind (if_set s ''minimum'' (assert_finite_number ''minimum'') b) (\<lambda>b.
     rbind (if_set s ''maximum'' (assert_finite_number ''maximum'') b) (\<lambda>b.
     rbind (if_set s ''exclusiveMinimum''
              (assert_exclusive ''exclusiveMinimum'' (getp s ''minimum'')) b) (\<lambda>b.
     rbind (if_set s ''exclusiveMaximum''
              (assert_exclusive ''exclusiveMaximum'' (getp s ''maximum'')) b) (\<lambda>b.
     if_set s ''multipleOf'' assert_multiple_of b))))))))))))))"

function assert_bounded_json_schema :: "jsval \<Rightarrow> nat \<Rightarrow> int \<Rightarrow> schema_error + int" where
  "assert_bounded_json_schema s d b =
     (if MAX_SCHEMA_DEPTH < d \<or> b - 1 < 0 then Inl SchemaTooDeep
      else if is_bool s then Inr (b - 1)
      else if \<not> is_plain_object s then Inl SchemaNotObject
      else
        rbind (each_b (assert_entry d) (obj_fields s) (b - 1)) (\<lambda>b.
        rbind (assert_types s b) (\<lambda>b.
        rbind (if_set s ''properties'' (\<lambda>v n.
                 if \<not> is_plain_object v then Inl PropertiesNotObject
                 else if MAX_SCHEMA_MEMBERS < int (length (obj_fields v)) then Inl TooManyProperties
                 else each_b (\<lambda>x m. assert_bounded_json_schema x (Suc d) m) (map snd (obj_fields v)) n) b) (\<lambda>b.
        rbind (if_set s ''required'' assert_required b) (\<lambda>b.
        rbind (if_set s ''additionalProperties'' (\<lambda>v n.
                 if is_bool v then Inr n else assert_bounded_json_schema v (Suc d) n) b) (\<lambda>b.
        rbind (if_set s ''items'' (\<lambda>v n.
                 if is_array v then Inl TupleItems else assert_bounded_json_schema v (Suc d) n) b) (\<lambda>b.
        assert_limits d s b)))))))"
  by auto
termination by (relation "measure (\<lambda>(v, d, b). Suc MAX_SCHEMA_DEPTH - d)") auto

declare assert_bounded_json_schema.simps [simp del]

section \<open>Validation of a value\<close>

definition matches_type :: "jsval \<Rightarrow> string \<Rightarrow> bool" where
  "matches_type v t =
     (if t = ''object'' then is_plain_object v
      else if t = ''array'' then is_array v
      else if t = ''string'' then is_string v
      else if t = ''number'' then as_number v \<noteq> None
      else if t = ''integer'' then (case v of VNum n \<Rightarrow> num_integer n | _ \<Rightarrow> False)
      else if t = ''boolean'' then is_bool v
      else if t = ''null'' then v = VNull
      else False)"

text \<open>\<open>True\<close>: the value is accepted right away, as \<open>null\<close> of a nullable schema without types.\<close>

definition check_type :: "jsval \<Rightarrow> jsval \<Rightarrow> schema_error + bool" where
  "check_type s v =
     rbind (type_names s) (\<lambda>types.
       let nullable = (getp s ''nullable'' = VBool True) in
       case types of
         Some ts \<Rightarrow>
           let allowed = (if nullable then ts @ [''null''] else ts) in
           if list_ex (matches_type v) allowed then Inr False else Inl TypeMismatch
       | None \<Rightarrow> Inr (nullable \<and> v = VNull))"

definition check_literals :: "jsval \<Rightarrow> jsval \<Rightarrow> schema_error + unit" where
  "check_literals s v =
     (if getp s ''const'' \<noteq> VUndef \<and> \<not> same_json v (getp s ''const'') then Inl ConstMismatch
      else if getp s ''enum'' \<noteq> VUndef \<and> \<not> list_ex (same_json v) (arr_items (getp s ''enum'')) then Inl EnumMismatch
      else Inr ())"

text \<open>A lower and an upper limit on a count; a keyword that is not a finite number does not limit.\<close>

definition at_least :: "jsval \<Rightarrow> string \<Rightarrow> nat \<Rightarrow> bool" where
  "at_least s k n = (case as_number (getp s k) of None \<Rightarrow> True | Some q \<Rightarrow> q \<le> of_nat n)"

definition at_most :: "jsval \<Rightarrow> string \<Rightarrow> nat \<Rightarrow> bool" where
  "at_most s k n = (case as_number (getp s k) of None \<Rightarrow> True | Some q \<Rightarrow> of_nat n \<le> q)"

definition check_length :: "jsval \<Rightarrow> jsval \<Rightarrow> schema_error + unit" where
  "check_length s v =
     (case v of
        VStr t \<Rightarrow>
          if \<not> at_least s ''minLength'' (length t) then Inl TooShort
          else if \<not> at_most s ''maxLength'' (length t) then Inl TooLong
          else Inr ()
      | _ \<Rightarrow> Inr ())"

text \<open>
  The tolerance \<open>1e-10\<close> is the double nearest to it. \<open>quotient - Math.round(quotient)\<close> is
  rounded too, which changes nothing but costs nothing to state.
\<close>

definition multiple_ok :: "rat \<Rightarrow> rat \<Rightarrow> bool" where
  "multiple_ok x m =
     (if m = 0 then False
      else
        let q = double_of (x / m) in
        num_finite q \<and>
        \<bar>num_val (double_of (num_val q - of_int \<lfloor>num_val q + 1 / 2\<rfloor>))\<bar> \<le> num_val (double_of (1 / 10 ^ 10)))"

definition check_number :: "jsval \<Rightarrow> jsval \<Rightarrow> schema_error + unit" where
  "check_number s v =
     (case as_number v of
        None \<Rightarrow> Inr ()
      | Some x \<Rightarrow>
          let minimum = as_number (getp s ''minimum''); maximum = as_number (getp s ''maximum'');
              ex_min = as_number (getp s ''exclusiveMinimum''); ex_max = as_number (getp s ''exclusiveMaximum'')
          in if (case minimum of None \<Rightarrow> False | Some m \<Rightarrow>
                   if getp s ''exclusiveMinimum'' = VBool True then x \<le> m else x < m) then Inl BelowMinimum
             else if (case ex_min of None \<Rightarrow> False | Some m \<Rightarrow> x \<le> m) then Inl BelowExclusiveMinimum
             else if (case maximum of None \<Rightarrow> False | Some m \<Rightarrow>
                   if getp s ''exclusiveMaximum'' = VBool True then m \<le> x else m < x) then Inl AboveMaximum
             else if (case ex_max of None \<Rightarrow> False | Some m \<Rightarrow> m \<le> x) then Inl AboveExclusiveMaximum
             else if (case as_number (getp s ''multipleOf'') of None \<Rightarrow> False | Some m \<Rightarrow> \<not> multiple_ok x m)
             then Inl NotAMultiple
             else Inr ())"

text \<open>Each item is compared with every other item.\<close>

definition has_duplicates :: "jsval list \<Rightarrow> bool" where
  "has_duplicates xs =
     list_ex (\<lambda>i. list_ex (\<lambda>j. j \<noteq> i \<and> same_json (xs ! j) (xs ! i)) [0..<length xs]) [0..<length xs]"

definition check_array :: "jsval \<Rightarrow> jsval list \<Rightarrow> schema_error + unit" where
  "check_array s xs =
     (if \<not> at_least s ''minItems'' (length xs) then Inl TooFewItems
      else if \<not> at_most s ''maxItems'' (length xs) then Inl TooManyItems
      else if getp s ''uniqueItems'' = VBool True then
        (if MAX_UNIQUE_ITEMS < int (length xs) then Inl TooManyForUnique
         else if has_duplicates xs then Inl DuplicateItems
         else Inr ())
      else Inr ())"

definition required_keys :: "jsval \<Rightarrow> string list" where
  "required_keys s = strings_in (arr_items (getp s ''required''))"

definition check_object :: "jsval \<Rightarrow> (string \<times> jsval) list \<Rightarrow> schema_error + unit" where
  "check_object s fs =
     (if \<not> at_least s ''minProperties'' (length fs) then Inl TooFewProperties
      else if \<not> at_most s ''maxProperties'' (length fs) then Inl TooManyValueProperties
      else
        (case filter (\<lambda>k. \<not> jhas fs k) (required_keys s) of
           [] \<Rightarrow> Inr ()
         | k # _ \<Rightarrow> Inl (MissingRequired k)))"

definition check_leaf :: "jsval \<Rightarrow> jsval \<Rightarrow> schema_error + unit" where
  "check_leaf s v =
     rbind (check_literals s v) (\<lambda>_. rbind (check_length s v) (\<lambda>_. check_number s v))"

function validate_schema :: "jsval \<Rightarrow> jsval \<Rightarrow> nat \<Rightarrow> int \<Rightarrow> schema_error + int" where
  "validate_schema s v d b =
     (if MAX_SCHEMA_DEPTH < d \<or> b - 1 < 0 then Inl ValueTooComplex
      else if s = VBool True then Inr (b - 1)
      else if s = VBool False then Inl RejectedByBoolean
      else if \<not> is_plain_object s then Inl SchemaInvalid
      else
        rbind (check_type s v) (\<lambda>accepted.
          if accepted then Inr (b - 1)
          else
            rbind (check_leaf s v) (\<lambda>_.
              case v of
                VArr xs \<Rightarrow>
                  rbind (check_array s xs) (\<lambda>_.
                    if getp s ''items'' = VUndef then Inr (b - 1)
                    else each_b (\<lambda>x n. validate_schema (getp s ''items'') x (Suc d) n) xs (b - 1))
              | VObj fs \<Rightarrow>
                  rbind (check_object s fs) (\<lambda>_.
                    each_b (\<lambda>e n.
                      case jget (obj_fields (getp s ''properties'')) (fst e) of
                        Some p \<Rightarrow> validate_schema p (snd e) (Suc d) n
                      | None \<Rightarrow>
                          if getp s ''additionalProperties'' = VBool False then Inl (UnexpectedProperty (fst e))
                          else if getp s ''additionalProperties'' = VUndef \<or>
                                  getp s ''additionalProperties'' = VBool True then Inr n
                          else validate_schema (getp s ''additionalProperties'') (snd e) (Suc d) n) fs (b - 1))
              | _ \<Rightarrow> Inr (b - 1))))"
  by auto
termination by (relation "measure (\<lambda>(s, v, d, b). Suc MAX_SCHEMA_DEPTH - d)") auto

declare validate_schema.simps [simp del]

definition validate_against_json_schema :: "jsval \<Rightarrow> jsval \<Rightarrow> schema_error + jsval" where
  "validate_against_json_schema s v =
     rbind (assert_bounded_json_schema s 0 MAX_SCHEMA_NODES) (\<lambda>_.
     rbind (validate_schema s v 0 MAX_SCHEMA_NODES) (\<lambda>_. Inr v))"

section \<open>Equality is equality of meanings\<close>

text \<open>The JSON value that a JavaScript value stands for: objects are finite maps.\<close>

datatype json =
  JNull | JBool bool | JNum jsnum | JStr string | JArr "json list" | JObj "string \<Rightarrow> json option" | JOutside

fun meaning :: "jsval \<Rightarrow> json" where
  "meaning VNull = JNull"
| "meaning (VBool b) = JBool b"
| "meaning (VNum n) = JNum n"
| "meaning (VStr s) = JStr s"
| "meaning (VArr xs) = JArr (map meaning xs)"
| "meaning (VObj fs) = JObj (map_of (map (\<lambda>(k, x). (k, meaning x)) fs))"
| "meaning VUndef = JOutside"
| "meaning VOther = JOutside"

text \<open>Values that consist of JSON only.\<close>

fun is_json :: "jsval \<Rightarrow> bool" where
  "is_json (VArr xs) = list_all is_json xs"
| "is_json (VObj fs) = list_all (\<lambda>(k, x). is_json x) fs"
| "is_json VUndef = False"
| "is_json VOther = False"
| "is_json _ = True"

lemma same_items_iff: "length xs = length ys \<Longrightarrow> same_items xs ys \<longleftrightarrow> list_all2 same_json xs ys"
  by (induction xs ys rule: list_induct2) simp_all

lemma same_fields_iff: "same_fields fs r \<longleftrightarrow> (\<forall>(k, x) \<in> set fs. same_json x (getp r k))"
  by (induction fs) auto

lemma object_is_undef [simp]: "object_is v VUndef \<longleftrightarrow> v = VUndef"
  by (cases v) (simp_all add: object_is_def)

lemma same_json_undef [simp]: "same_json v VUndef \<longleftrightarrow> v = VUndef"
  by (cases v) (simp_all add: object_is_def)

lemma map_of_meaning: "map_of (map (\<lambda>(k, x). (k, meaning x)) fs) k = map_option meaning (jget fs k)"
  by (induction fs) auto

lemma getp_field: "distinct (map fst fs) \<Longrightarrow> (k, x) \<in> set fs \<Longrightarrow> getp (VObj fs) k = x"
  by (simp add: getp_def obj_fields_def)

lemma object_meaning_iff:
  assumes "distinct (map fst fs)" and "distinct (map fst gs)"
    and "\<And>k x. (k, x) \<in> set fs \<Longrightarrow> x \<noteq> VUndef"
    and "\<And>k x y. (k, x) \<in> set fs \<Longrightarrow> (k, y) \<in> set gs \<Longrightarrow> same_json x y \<longleftrightarrow> meaning x = meaning y"
  shows "same_json (VObj fs) (VObj gs) \<longleftrightarrow> meaning (VObj fs) = meaning (VObj gs)"
proof
  assume same: "same_json (VObj fs) (VObj gs)"
  have in_gs: "(k, getp (VObj gs) k) \<in> set gs \<and> same_json x (getp (VObj gs) k)" if "(k, x) \<in> set fs" for k x
  proof -
    have e: "same_json x (getp (VObj gs) k)" using same that by (auto simp: same_fields_iff)
    then have "getp (VObj gs) k \<noteq> VUndef" using assms(3) [OF that] by auto
    then have "(k, getp (VObj gs) k) \<in> set gs"
      by (auto simp: getp_def obj_fields_def split: option.splits dest: map_of_SomeD)
    with e show ?thesis by simp
  qed
  have "fst ` set fs \<subseteq> fst ` set gs" using in_gs by force
  moreover have "card (fst ` set fs) = card (fst ` set gs)"
    using same distinct_card [OF assms(1)] distinct_card [OF assms(2)] by simp
  ultimately have dom: "fst ` set fs = fst ` set gs" by (simp add: card_subset_eq)
  have "map_option meaning (jget fs k) = map_option meaning (jget gs k)" for k
  proof (cases "jget fs k")
    case None
    then have "jget gs k = None" using dom by (simp add: map_of_eq_None_iff)
    with None show ?thesis by simp
  next
    case (Some x)
    then have "(k, x) \<in> set fs" by (rule map_of_SomeD)
    with in_gs have "(k, getp (VObj gs) k) \<in> set gs" "same_json x (getp (VObj gs) k)" by blast+
    with assms(2,4) \<open>(k, x) \<in> set fs\<close> Some show ?thesis by simp
  qed
  then show "meaning (VObj fs) = meaning (VObj gs)" by (auto simp: map_of_meaning)
next
  assume "meaning (VObj fs) = meaning (VObj gs)"
  then have eq: "map_option meaning (jget fs k) = map_option meaning (jget gs k)" for k
    by (simp add: map_of_meaning fun_eq_iff)
  then have "jget fs k = None \<longleftrightarrow> jget gs k = None" for k by (metis option.map_disc_iff)
  then have "set (map fst fs) = set (map fst gs)" by (auto simp: map_of_eq_None_iff)
  then have "length fs = length gs" using assms(1,2) by (metis distinct_card length_map)
  moreover have "same_json x (getp (VObj gs) k)" if "(k, x) \<in> set fs" for k x
  proof -
    have "jget fs k = Some x" using assms(1) that by simp
    then obtain y where y: "jget gs k = Some y" "meaning y = meaning x" using eq [of k] by (cases "jget gs k") auto
    with assms(4) [OF that map_of_SomeD [OF y(1)]] show ?thesis by (simp add: getp_def obj_fields_def)
  qed
  ultimately show "same_json (VObj fs) (VObj gs)" by (auto simp: same_fields_iff)
qed

lemma is_json_defined: "is_json x \<Longrightarrow> x \<noteq> VUndef"
  by auto

lemma same_json_meaning:
  "wf_val l \<Longrightarrow> wf_val r \<Longrightarrow> is_json l \<Longrightarrow> is_json r \<Longrightarrow> same_json l r \<longleftrightarrow> meaning l = meaning r"
proof (induction l arbitrary: r)
  case (VArr xs)
  show ?case
  proof (cases r)
    case r: (VArr ys)
    show ?thesis
    proof (cases "length xs = length ys")
      case True
      have "list_all2 same_json xs ys \<longleftrightarrow> map meaning xs = map meaning ys"
        unfolding list_all2_conv_all_nth list_eq_iff_nth_eq
        using VArr True r by (auto simp: list_all_iff)
      with True r show ?thesis by (simp add: same_items_iff)
    next
      case False
      with r show ?thesis by (auto dest: map_eq_imp_length_eq)
    qed
  qed (simp_all add: object_is_def)
next
  case (VObj fs)
  show ?case
  proof (cases r)
    case r: (VObj gs)
    show ?thesis unfolding r
    proof (rule object_meaning_iff)
      show "distinct (map fst fs)" "distinct (map fst gs)" using VObj r by simp_all
      show "(k, x) \<in> set fs \<Longrightarrow> x \<noteq> VUndef" for k x
        using VObj by (force simp: list_all_iff)
      show "same_json x y \<longleftrightarrow> meaning x = meaning y" if "(k, x) \<in> set fs" "(k, y) \<in> set gs" for k x y
        using VObj that r by (intro VObj.IH [of "(k, x)"]) (force simp: list_all_iff)+
    qed
  qed (simp_all add: object_is_def)
qed (case_tac r; simp add: object_is_def)+

text \<open>
  Two JSON values are the same for \<open>const\<close>, \<open>enum\<close> and \<open>uniqueItems\<close> exactly when they mean the
  same JSON value: arrays agree item by item, objects agree as maps whatever the order of their keys.
\<close>

theorem same_json_is_equality:
  assumes "wf_val l" and "wf_val r" and "is_json l" and "is_json r"
  shows "same_json l r \<longleftrightarrow> meaning l = meaning r"
  using assms by (rule same_json_meaning)

theorem same_json_is_equality_witness:
  "meaning (VObj [(''a'', VNum (Fin 1)), (''b'', VArr [VNull])]) =
   meaning (VObj [(''b'', VArr [VNull]), (''a'', VNum (Fin 1))])"
proof -
  have "same_json (VObj [(''a'', VNum (Fin 1)), (''b'', VArr [VNull])])
    (VObj [(''b'', VArr [VNull]), (''a'', VNum (Fin 1))])" by code_simp
  then show ?thesis by (subst (asm) same_json_is_equality) simp_all
qed

section \<open>What a schema accepts\<close>

text \<open>The meaning of each group of keywords, without budget, order of checks or reasons.\<close>

definition is_nullable :: "jsval \<Rightarrow> bool" where
  "is_nullable s \<longleftrightarrow> getp s ''nullable'' = VBool True"

definition type_spec :: "jsval \<Rightarrow> jsval \<Rightarrow> bool" where
  "type_spec s v \<longleftrightarrow> (\<exists>types. type_names s = Inr types \<and>
     (\<forall>ts. types = Some ts \<longrightarrow> (\<exists>t \<in> set ts. matches_type v t) \<or> is_nullable s \<and> v = VNull))"

definition null_shortcut :: "jsval \<Rightarrow> jsval \<Rightarrow> bool" where
  "null_shortcut s v \<longleftrightarrow> type_names s = Inr None \<and> is_nullable s \<and> v = VNull"

definition literal_spec :: "jsval \<Rightarrow> jsval \<Rightarrow> bool" where
  "literal_spec s v \<longleftrightarrow>
     (getp s ''const'' = VUndef \<or> same_json v (getp s ''const'')) \<and>
     (getp s ''enum'' = VUndef \<or> (\<exists>x \<in> set (arr_items (getp s ''enum'')). same_json v x))"

definition limit :: "jsval \<Rightarrow> string \<Rightarrow> (rat \<Rightarrow> bool) \<Rightarrow> bool" where
  "limit s k P \<longleftrightarrow> (\<forall>q. as_number (getp s k) = Some q \<longrightarrow> P q)"

definition count_spec :: "jsval \<Rightarrow> string \<Rightarrow> string \<Rightarrow> nat \<Rightarrow> bool" where
  "count_spec s lo hi n \<longleftrightarrow> limit s lo (\<lambda>q. q \<le> of_nat n) \<and> limit s hi (\<lambda>q. of_nat n \<le> q)"

definition number_spec :: "jsval \<Rightarrow> rat \<Rightarrow> bool" where
  "number_spec s x \<longleftrightarrow>
     limit s ''minimum'' (\<lambda>q. q \<le> x \<and> (getp s ''exclusiveMinimum'' = VBool True \<longrightarrow> q \<noteq> x)) \<and>
     limit s ''maximum'' (\<lambda>q. x \<le> q \<and> (getp s ''exclusiveMaximum'' = VBool True \<longrightarrow> q \<noteq> x)) \<and>
     limit s ''exclusiveMinimum'' (\<lambda>q. q < x) \<and> limit s ''exclusiveMaximum'' (\<lambda>q. x < q) \<and>
     limit s ''multipleOf'' (multiple_ok x)"

definition pairwise_distinct :: "jsval list \<Rightarrow> bool" where
  "pairwise_distinct xs \<longleftrightarrow> (\<forall>i < length xs. \<forall>j < length xs. i \<noteq> j \<longrightarrow> \<not> same_json (xs ! j) (xs ! i))"

definition leaf_spec :: "jsval \<Rightarrow> jsval \<Rightarrow> bool" where
  "leaf_spec s v \<longleftrightarrow> literal_spec s v \<and>
     (\<forall>t. v = VStr t \<longrightarrow> count_spec s ''minLength'' ''maxLength'' (length t)) \<and>
     (\<forall>x. as_number v = Some x \<longrightarrow> number_spec s x)"

definition array_spec :: "jsval \<Rightarrow> jsval list \<Rightarrow> bool" where
  "array_spec s xs \<longleftrightarrow> count_spec s ''minItems'' ''maxItems'' (length xs) \<and>
     (getp s ''uniqueItems'' = VBool True \<longrightarrow> int (length xs) \<le> MAX_UNIQUE_ITEMS \<and> pairwise_distinct xs)"

definition object_spec :: "jsval \<Rightarrow> (string \<times> jsval) list \<Rightarrow> bool" where
  "object_spec s fs \<longleftrightarrow> count_spec s ''minProperties'' ''maxProperties'' (length fs) \<and>
     set (required_keys s) \<subseteq> fst ` set fs"

text \<open>The schema that applies to a property: \<open>None\<close> where none does.\<close>

definition property_schema :: "jsval \<Rightarrow> string \<Rightarrow> jsval option" where
  "property_schema s k =
     (case jget (obj_fields (getp s ''properties'')) k of
        Some p \<Rightarrow> Some p
      | None \<Rightarrow>
          if getp s ''additionalProperties'' = VUndef then None else Some (getp s ''additionalProperties''))"

function conforms :: "jsval \<Rightarrow> jsval \<Rightarrow> bool" where
  "conforms s v \<longleftrightarrow> s = VBool True \<or>
     is_plain_object s \<and>
     (null_shortcut s v \<or>
      type_spec s v \<and> leaf_spec s v \<and>
      (case v of
         VArr xs \<Rightarrow> array_spec s xs \<and> (getp s ''items'' = VUndef \<or> (\<forall>x \<in> set xs. conforms (getp s ''items'') x))
       | VObj fs \<Rightarrow> object_spec s fs \<and>
           (\<forall>e \<in> set fs. case property_schema s (fst e) of None \<Rightarrow> True | Some p \<Rightarrow> conforms p (snd e))
       | _ \<Rightarrow> True))"
  by auto
termination
proof (relation "measure (\<lambda>(s, v). nodes v)", goal_cases)
  case (2 s v xs x)
  then have "nodes x \<le> sum_list (map nodes xs)" by (intro member_le_sum_list) simp_all
  with 2 show ?case by simp
next
  case (3 s v fs e p)
  then have "nodes (snd e) \<le> sum_list (map (\<lambda>f. nodes (snd f)) fs)"
    by (intro member_le_sum_list) force+
  with 3 show ?case by simp
qed simp

declare conforms.simps [simp del]

lemma matches_null [simp]: "matches_type v ''null'' \<longleftrightarrow> v = VNull"
  by (simp add: matches_type_def)

lemma check_type_spec: "check_type s v = Inr b \<longleftrightarrow>
    (if b then null_shortcut s v else type_spec s v \<and> \<not> null_shortcut s v)"
proof (cases "type_names s")
  case (Inl e)
  then show ?thesis by (simp add: check_type_def null_shortcut_def type_spec_def)
next
  case (Inr types)
  show ?thesis
  proof (cases types)
    case None
    with Inr show ?thesis
      by (cases b) (simp_all add: check_type_def null_shortcut_def type_spec_def is_nullable_def)
  next
    case (Some ts)
    have "list_ex (matches_type v) (if is_nullable s then ts @ [''null''] else ts) \<longleftrightarrow>
        (\<exists>t \<in> set ts. matches_type v t) \<or> is_nullable s \<and> v = VNull"
      by (auto simp: list_ex_iff)
    with Inr Some show ?thesis
      by (simp add: check_type_def null_shortcut_def type_spec_def Let_def is_nullable_def)
  qed
qed

lemma check_number_spec: "check_number s v = Inr u \<longleftrightarrow> (\<forall>x. as_number v = Some x \<longrightarrow> number_spec s x)"
proof (cases "as_number v")
  case (Some x)
  have c: "\<not> (case as_number (getp s k) of None \<Rightarrow> False | Some m \<Rightarrow> P m) \<longleftrightarrow> limit s k Q"
    if "\<And>q. P q \<longleftrightarrow> \<not> Q q" for k P Q
    using that by (simp add: limit_def split: option.split)
  have "check_number s v = Inr () \<longleftrightarrow>
      \<not> (case as_number (getp s ''minimum'') of None \<Rightarrow> False | Some m \<Rightarrow>
          if getp s ''exclusiveMinimum'' = VBool True then x \<le> m else x < m) \<and>
      \<not> (case as_number (getp s ''exclusiveMinimum'') of None \<Rightarrow> False | Some m \<Rightarrow> x \<le> m) \<and>
      \<not> (case as_number (getp s ''maximum'') of None \<Rightarrow> False | Some m \<Rightarrow>
          if getp s ''exclusiveMaximum'' = VBool True then m \<le> x else m < x) \<and>
      \<not> (case as_number (getp s ''exclusiveMaximum'') of None \<Rightarrow> False | Some m \<Rightarrow> m \<le> x) \<and>
      \<not> (case as_number (getp s ''multipleOf'') of None \<Rightarrow> False | Some m \<Rightarrow> \<not> multiple_ok x m)"
    by (simp only: check_number_def Some option.case Let_def if_False if_True simp_thms sum.distinct split: if_split)
      blast
  also have "\<dots> \<longleftrightarrow> number_spec s x"
  proof -
    have "\<not> (case as_number (getp s ''minimum'') of None \<Rightarrow> False | Some m \<Rightarrow>
          if getp s ''exclusiveMinimum'' = VBool True then x \<le> m else x < m) \<longleftrightarrow>
        limit s ''minimum'' (\<lambda>q. q \<le> x \<and> (getp s ''exclusiveMinimum'' = VBool True \<longrightarrow> q \<noteq> x))"
      by (rule c) auto
    moreover have "\<not> (case as_number (getp s ''exclusiveMinimum'') of None \<Rightarrow> False | Some m \<Rightarrow> x \<le> m) \<longleftrightarrow>
        limit s ''exclusiveMinimum'' (\<lambda>q. q < x)"
      by (rule c) auto
    moreover have "\<not> (case as_number (getp s ''maximum'') of None \<Rightarrow> False | Some m \<Rightarrow>
          if getp s ''exclusiveMaximum'' = VBool True then m \<le> x else m < x) \<longleftrightarrow>
        limit s ''maximum'' (\<lambda>q. x \<le> q \<and> (getp s ''exclusiveMaximum'' = VBool True \<longrightarrow> q \<noteq> x))"
      by (rule c) auto
    moreover have "\<not> (case as_number (getp s ''exclusiveMaximum'') of None \<Rightarrow> False | Some m \<Rightarrow> m \<le> x) \<longleftrightarrow>
        limit s ''exclusiveMaximum'' (\<lambda>q. x < q)"
      by (rule c) auto
    moreover have "\<not> (case as_number (getp s ''multipleOf'') of None \<Rightarrow> False | Some m \<Rightarrow> \<not> multiple_ok x m) \<longleftrightarrow>
        limit s ''multipleOf'' (multiple_ok x)"
      by (rule c) auto
    ultimately show ?thesis unfolding number_spec_def by argo
  qed
  finally show ?thesis by (simp add: Some)
qed (simp add: check_number_def)

lemma check_leaf_spec: "check_leaf s v = Inr u \<longleftrightarrow> leaf_spec s v"
proof -
  have l: "check_literals s v = Inr x \<longleftrightarrow> literal_spec s v" for x
    by (auto simp: check_literals_def literal_spec_def list_ex_iff)
  have n: "check_length s v = Inr x \<longleftrightarrow>
      (\<forall>t. v = VStr t \<longrightarrow> count_spec s ''minLength'' ''maxLength'' (length t))" for x
    by (auto simp: check_length_def count_spec_def limit_def at_least_def at_most_def split: jsval.split option.split)
  show ?thesis by (simp add: check_leaf_def rbind_Inr l n check_number_spec leaf_spec_def)
qed

lemma has_duplicates_iff: "has_duplicates xs \<longleftrightarrow> \<not> pairwise_distinct xs"
  unfolding has_duplicates_def pairwise_distinct_def list_ex_iff set_upt atLeast0LessThan Bex_def lessThan_iff
  by blast

lemma check_array_spec: "check_array s xs = Inr u \<longleftrightarrow> array_spec s xs"
  by (auto simp: check_array_def array_spec_def count_spec_def limit_def at_least_def at_most_def has_duplicates_iff
      split: option.split)

lemma check_object_spec: "check_object s fs = Inr u \<longleftrightarrow> object_spec s fs"
proof -
  have "(case filter (\<lambda>k. \<not> jhas fs k) ks of [] \<Rightarrow> Inr () | k # _ \<Rightarrow> Inl (MissingRequired k)) = Inr u \<longleftrightarrow>
      filter (\<lambda>k. \<not> jhas fs k) ks = []" for ks
    by (simp split: list.split)
  moreover have "filter (\<lambda>k. \<not> jhas fs k) ks = [] \<longleftrightarrow> set ks \<subseteq> fst ` set fs" for ks
    by (auto simp: filter_empty_conv map_of_eq_None_iff)
  ultimately have "(case filter (\<lambda>k. \<not> jhas fs k) ks of [] \<Rightarrow> Inr () | k # _ \<Rightarrow> Inl (MissingRequired k)) = Inr u \<longleftrightarrow>
      set ks \<subseteq> fst ` set fs" for ks
    by (simp only:)
  then show ?thesis
    by (auto simp: check_object_def object_spec_def count_spec_def limit_def at_least_def at_most_def split: option.split)
qed

section \<open>The validator accepts what conforms\<close>

lemma each_b_Inr:
  assumes "each_b f xs b = Inr b'"
    and "\<And>x n n'. x \<in> set xs \<Longrightarrow> f x n = Inr n' \<Longrightarrow> P x \<and> n - int (c x) \<le> n' \<and> n' \<le> n"
  shows "(\<forall>x \<in> set xs. P x) \<and> b - int (sum_list (map c xs)) \<le> b' \<and> b' \<le> b"
  using assms
proof (induction xs arbitrary: b)
  case (Cons x xs)
  from Cons.prems(1) obtain n where n: "f x b = Inr n" "each_b f xs n = Inr b'" by (auto simp: rbind_Inr)
  from Cons.prems(2) [OF _ n(1)] have "P x \<and> b - int (c x) \<le> n \<and> n \<le> b" by simp
  moreover have "(\<forall>x \<in> set xs. P x) \<and> n - int (sum_list (map c xs)) \<le> b' \<and> b' \<le> n"
    using Cons.IH [OF n(2)] Cons.prems(2) by auto
  ultimately show ?case by auto
qed simp

lemma each_b_ok:
  assumes "int (sum_list (map c xs)) \<le> b"
    and "\<And>x n. x \<in> set xs \<Longrightarrow> int (c x) \<le> n \<Longrightarrow> \<exists>n'. f x n = Inr n' \<and> n - int (c x) \<le> n'"
  shows "\<exists>b'. each_b f xs b = Inr b' \<and> b - int (sum_list (map c xs)) \<le> b'"
  using assms
proof (induction xs arbitrary: b)
  case (Cons x xs)
  have "int (c x) \<le> b" using Cons.prems(1) by simp
  then obtain n where n: "f x b = Inr n" "b - int (c x) \<le> n" using Cons.prems(2) [of x b] by auto
  have "int (sum_list (map c xs)) \<le> n" using n(2) Cons.prems(1) by simp
  then obtain b' where "each_b f xs n = Inr b'" "n - int (sum_list (map c xs)) \<le> b'"
    using Cons.IH [of n] Cons.prems(2) by auto
  with n show ?case by auto
qed simp

text \<open>The step for one property, and the schema that the specification gives it.\<close>

lemma property_step:
  "(case jget (obj_fields (getp s ''properties'')) k of
      Some p \<Rightarrow> validate_schema p x d n
    | None \<Rightarrow>
        if getp s ''additionalProperties'' = VBool False then Inl (UnexpectedProperty k)
        else if getp s ''additionalProperties'' = VUndef \<or> getp s ''additionalProperties'' = VBool True then Inr n
        else validate_schema (getp s ''additionalProperties'') x d n) =
   (case property_schema s k of
      None \<Rightarrow> Inr n
    | Some p \<Rightarrow>
        if jget (obj_fields (getp s ''properties'')) k = None \<and> p = VBool False then Inl (UnexpectedProperty k)
        else if jget (obj_fields (getp s ''properties'')) k = None \<and> p = VBool True then Inr n
        else validate_schema p x d n)"
  by (auto simp: property_schema_def split: option.split)

lemma not_plain_bool [simp]: "\<not> is_plain_object (VBool b)"
  by (simp add: is_plain_object_def)

lemma conforms_simps [simp]: "conforms (VBool True) v" "\<not> conforms (VBool False) v"
  by (subst conforms.simps, simp add: is_plain_object_def)+

definition validate_parts :: "jsval \<Rightarrow> jsval \<Rightarrow> nat \<Rightarrow> int \<Rightarrow> schema_error + int" where
  "validate_parts s v d b =
     (case v of
        VArr xs \<Rightarrow>
          rbind (check_array s xs) (\<lambda>_.
            if getp s ''items'' = VUndef then Inr b
            else each_b (\<lambda>x n. validate_schema (getp s ''items'') x (Suc d) n) xs b)
      | VObj fs \<Rightarrow>
          rbind (check_object s fs) (\<lambda>_.
            each_b (\<lambda>e n.
              case property_schema s (fst e) of
                None \<Rightarrow> Inr n
              | Some p \<Rightarrow>
                  if jget (obj_fields (getp s ''properties'')) (fst e) = None \<and> p = VBool False
                  then Inl (UnexpectedProperty (fst e))
                  else if jget (obj_fields (getp s ''properties'')) (fst e) = None \<and> p = VBool True then Inr n
                  else validate_schema p (snd e) (Suc d) n) fs b)
      | _ \<Rightarrow> Inr b)"

lemma validate_unfold:
  "validate_schema s v d b = Inr b' \<longleftrightarrow>
     d \<le> MAX_SCHEMA_DEPTH \<and> 1 \<le> b \<and>
     (s = VBool True \<and> b' = b - 1 \<or>
      is_plain_object s \<and>
      (null_shortcut s v \<and> b' = b - 1 \<or>
       type_spec s v \<and> \<not> null_shortcut s v \<and> leaf_spec s v \<and> validate_parts s v d (b - 1) = Inr b'))"
proof (cases "\<not> d \<le> MAX_SCHEMA_DEPTH \<or> b < 1 \<or> s = VBool True \<or> s = VBool False \<or> \<not> is_plain_object s")
  case True
  then show ?thesis by (subst validate_schema.simps) (auto simp: is_plain_object_def)
next
  case False
  have "validate_schema s v d b =
      rbind (check_type s v) (\<lambda>accepted.
        if accepted then Inr (b - 1) else rbind (check_leaf s v) (\<lambda>_. validate_parts s v d (b - 1)))"
    using False unfolding validate_parts_def by (subst validate_schema.simps) (unfold property_step, simp)
  then have "validate_schema s v d b = Inr b' \<longleftrightarrow>
      check_type s v = Inr True \<and> b' = b - 1 \<or>
      check_type s v = Inr False \<and> check_leaf s v = Inr () \<and> validate_parts s v d (b - 1) = Inr b'"
    by (auto simp: rbind_Inr split: if_splits)
  with False show ?thesis by (auto simp: check_type_spec check_leaf_spec)
qed

lemma conforms_unfold:
  "conforms s v \<longleftrightarrow> s = VBool True \<or>
     is_plain_object s \<and>
     (null_shortcut s v \<or> type_spec s v \<and> \<not> null_shortcut s v \<and> leaf_spec s v \<and>
      (case v of
         VArr xs \<Rightarrow> array_spec s xs \<and> (getp s ''items'' = VUndef \<or> (\<forall>x \<in> set xs. conforms (getp s ''items'') x))
       | VObj fs \<Rightarrow> object_spec s fs \<and>
           (\<forall>e \<in> set fs. case property_schema s (fst e) of None \<Rightarrow> True | Some p \<Rightarrow> conforms p (snd e))
       | _ \<Rightarrow> True))"
  by (subst conforms.simps) blast

lemma validate_sound:
  "validate_schema s v d b = Inr b' \<Longrightarrow> conforms s v \<and> b - int (nodes v) \<le> b' \<and> b' \<le> b"
proof (induction v arbitrary: s d b b')
  case (VArr xs)
  show ?case
  proof (cases "s = VBool True \<or> null_shortcut s (VArr xs) \<or> getp s ''items'' = VUndef")
    case True
    with VArr(2) show ?thesis
      by (auto simp: validate_unfold [of s] conforms_unfold [of s] validate_parts_def rbind_Inr check_array_spec)
  next
    case False
    with VArr(2) have spec: "is_plain_object s" "type_spec s (VArr xs)" "leaf_spec s (VArr xs)" "array_spec s xs"
      and e: "each_b (\<lambda>x n. validate_schema (getp s ''items'') x (Suc d) n) xs (b - 1) = Inr b'"
      by (auto simp: validate_unfold [of s] validate_parts_def rbind_Inr check_array_spec)
    have "(\<forall>x \<in> set xs. conforms (getp s ''items'') x) \<and> b - 1 - int (sum_list (map nodes xs)) \<le> b' \<and> b' \<le> b - 1"
      by (rule each_b_Inr [OF e]) (rule VArr.IH)
    with spec False show ?thesis by (auto simp: conforms_unfold [of s])
  qed
next
  case (VObj fs)
  show ?case
  proof (cases "s = VBool True \<or> null_shortcut s (VObj fs)")
    case True
    with VObj(2) show ?thesis
      by (auto simp: validate_unfold [of s] conforms_unfold [of s])
  next
    case False
    let ?f = "\<lambda>e n. case property_schema s (fst e) of
          None \<Rightarrow> Inr n
        | Some p \<Rightarrow>
            if jget (obj_fields (getp s ''properties'')) (fst e) = None \<and> p = VBool False
            then Inl (UnexpectedProperty (fst e))
            else if jget (obj_fields (getp s ''properties'')) (fst e) = None \<and> p = VBool True then Inr n
            else validate_schema p (snd e) (Suc d) n"
    from False VObj(2) have spec: "is_plain_object s" "type_spec s (VObj fs)" "leaf_spec s (VObj fs)" "object_spec s fs"
      and e: "each_b ?f fs (b - 1) = Inr b'"
      by (auto simp: validate_unfold [of s] validate_parts_def rbind_Inr check_object_spec)
    have "(\<forall>e \<in> set fs. case property_schema s (fst e) of None \<Rightarrow> True | Some p \<Rightarrow> conforms p (snd e)) \<and>
        b - 1 - int (sum_list (map (\<lambda>f. nodes (snd f)) fs)) \<le> b' \<and> b' \<le> b - 1"
    proof (rule each_b_Inr [OF e])
      fix e n n' assume "e \<in> set fs" and r: "?f e n = Inr n'"
      then have ih: "validate_schema p (snd e) (Suc d) n = Inr n' \<Longrightarrow>
          conforms p (snd e) \<and> n - int (nodes (snd e)) \<le> n' \<and> n' \<le> n" for p
        using VObj.IH [OF \<open>e \<in> set fs\<close> Basic_BNFs.snds.intros] by blast
      show "(case property_schema s (fst e) of None \<Rightarrow> True | Some p \<Rightarrow> conforms p (snd e)) \<and>
          n - int (nodes (snd e)) \<le> n' \<and> n' \<le> n"
        using r ih by (cases "property_schema s (fst e)") (auto split: if_splits)
    qed
    with spec False show ?thesis by (auto simp: conforms_unfold [of s])
  qed
qed (auto simp: validate_unfold [of s for s] conforms_unfold [of s for s] validate_parts_def)

lemma foldr_max_le: "x \<in> set xs \<Longrightarrow> (f x :: nat) \<le> foldr (\<lambda>x m. max (f x) m) xs 0"
  by (induction xs) (auto simp: le_max_iff_disj)

lemma validate_complete:
  "conforms s v \<Longrightarrow> d + depth v \<le> MAX_SCHEMA_DEPTH \<Longrightarrow> int (nodes v) \<le> b \<Longrightarrow>
   \<exists>b'. validate_schema s v d b = Inr b' \<and> b - int (nodes v) \<le> b'"
proof (induction v arbitrary: s d b)
  case (VArr xs)
  show ?case
  proof (cases "s = VBool True \<or> null_shortcut s (VArr xs) \<or> getp s ''items'' = VUndef")
    case True
    with VArr show ?thesis
      by (auto simp: validate_unfold [of s] conforms_unfold [of s] validate_parts_def check_array_spec
          rbind_Inr)
  next
    case False
    with VArr(2) have spec: "is_plain_object s" "type_spec s (VArr xs)" "leaf_spec s (VArr xs)" "array_spec s xs"
      "\<forall>x \<in> set xs. conforms (getp s ''items'') x"
      by (auto simp: conforms_unfold [of s])
    have "\<exists>b'. each_b (\<lambda>x n. validate_schema (getp s ''items'') x (Suc d) n) xs (b - 1) = Inr b' \<and>
        b - 1 - int (sum_list (map nodes xs)) \<le> b'"
    proof (rule each_b_ok)
      show "int (sum_list (map nodes xs)) \<le> b - 1" using VArr(4) by simp
      fix x n assume x: "x \<in> set xs" "int (nodes x) \<le> n"
      then have "Suc d + depth x \<le> MAX_SCHEMA_DEPTH" using VArr(3) foldr_max_le [of x xs depth] by simp
      with VArr.IH [OF x(1)] spec(5) x show "\<exists>n'. validate_schema (getp s ''items'') x (Suc d) n = Inr n' \<and>
          n - int (nodes x) \<le> n'" by blast
    qed
    with spec False VArr(3,4) show ?thesis
      by (auto simp: validate_unfold [of s] validate_parts_def rbind_Inr check_array_spec)
  qed
next
  case (VObj fs)
  show ?case
  proof (cases "s = VBool True \<or> null_shortcut s (VObj fs)")
    case True
    with VObj show ?thesis
      by (auto simp: validate_unfold [of s] conforms_unfold [of s])
  next
    case False
    let ?f = "\<lambda>e n. case property_schema s (fst e) of
          None \<Rightarrow> Inr n
        | Some p \<Rightarrow>
            if jget (obj_fields (getp s ''properties'')) (fst e) = None \<and> p = VBool False
            then Inl (UnexpectedProperty (fst e))
            else if jget (obj_fields (getp s ''properties'')) (fst e) = None \<and> p = VBool True then Inr n
            else validate_schema p (snd e) (Suc d) n"
    let ?c = "\<lambda>f. nodes (snd f)"
    from False VObj(2) have spec: "is_plain_object s" "type_spec s (VObj fs)" "leaf_spec s (VObj fs)" "object_spec s fs"
      and all: "\<forall>e \<in> set fs. case property_schema s (fst e) of None \<Rightarrow> True | Some p \<Rightarrow> conforms p (snd e)"
      by (auto simp: conforms_unfold [of s])
    have "\<exists>b'. each_b ?f fs (b - 1) = Inr b' \<and> b - 1 - int (sum_list (map ?c fs)) \<le> b'"
    proof (rule each_b_ok)
      show "int (sum_list (map ?c fs)) \<le> b - 1" using VObj(4) by simp
      fix e n assume e: "e \<in> set fs" "int (?c e) \<le> n"
      then have d: "Suc d + depth (snd e) \<le> MAX_SCHEMA_DEPTH"
        using VObj(3) foldr_max_le [of e fs "\<lambda>f. depth (snd f)"] by simp
      show "\<exists>n'. ?f e n = Inr n' \<and> n - int (?c e) \<le> n'"
      proof (cases "property_schema s (fst e)")
        case (Some p)
        then have "conforms p (snd e)" using all e(1) by force
        then show ?thesis
          using VObj.IH [OF e(1) Basic_BNFs.snds.intros _ d e(2)] Some by (auto split: if_split)
      qed simp
    qed
    with spec False VObj(3,4) show ?thesis
      by (auto simp: validate_unfold [of s] validate_parts_def rbind_Inr check_object_spec)
  qed
qed (auto simp: validate_unfold [of s for s] conforms_unfold [of s for s] validate_parts_def)

text \<open>
  C22: for a schema the validator admits and a value within its limits on depth and size, validation
  accepts exactly the values that conform to the schema by the declarative semantics; beyond the
  limits it only ever refuses.
\<close>

theorem accepts_iff_conforms:
  assumes "assert_bounded_json_schema s 0 MAX_SCHEMA_NODES = Inr b"
    and "depth v \<le> MAX_SCHEMA_DEPTH" and "int (nodes v) \<le> MAX_SCHEMA_NODES"
  shows "validate_against_json_schema s v = Inr v \<longleftrightarrow> conforms s v"
proof
  assume "validate_against_json_schema s v = Inr v"
  then obtain b' where "validate_schema s v 0 MAX_SCHEMA_NODES = Inr b'"
    by (auto simp: validate_against_json_schema_def rbind_Inr)
  then show "conforms s v" by (rule validate_sound [THEN conjunct1])
next
  assume "conforms s v"
  then have "\<exists>b'. validate_schema s v 0 MAX_SCHEMA_NODES = Inr b'"
    using validate_complete [of s v 0] assms by auto
  then show "validate_against_json_schema s v = Inr v"
    using assms(1) by (auto simp: validate_against_json_schema_def)
qed

definition demo_schema :: jsval where
  "demo_schema = VObj [(''type'', VStr ''object''),
     (''properties'', VObj [(''n'', VObj [(''type'', VStr ''integer''), (''minimum'', VNum (Fin 1))])]),
     (''required'', VArr [VStr ''n'']), (''additionalProperties'', VBool False)]"

theorem accepts_iff_conforms_witness:
  "conforms demo_schema (VObj [(''n'', VNum (Fin 4))]) \<and>
   \<not> conforms demo_schema (VObj [(''n'', VNum (Fin 0))]) \<and>
   \<not> conforms demo_schema (VObj [(''n'', VNum (Fin 4)), (''m'', VNull)])"
proof -
  have s: "assert_bounded_json_schema demo_schema 0 MAX_SCHEMA_NODES = Inr 9998" by code_simp
  have "conforms demo_schema v \<longleftrightarrow> validate_against_json_schema demo_schema v = Inr v"
    if "depth v \<le> MAX_SCHEMA_DEPTH" "int (nodes v) \<le> MAX_SCHEMA_NODES" for v
    using accepts_iff_conforms [OF s that] by simp
  moreover have "validate_against_json_schema demo_schema (VObj [(''n'', VNum (Fin 4))]) = Inr (VObj [(''n'', VNum (Fin 4))])"
    "validate_against_json_schema demo_schema (VObj [(''n'', VNum (Fin 0))]) = Inl BelowMinimum"
    "validate_against_json_schema demo_schema (VObj [(''n'', VNum (Fin 4)), (''m'', VNull)]) =
       Inl (UnexpectedProperty ''m'')"
    by code_simp+
  ultimately show ?thesis by (simp add: MAX_SCHEMA_DEPTH_def MAX_SCHEMA_NODES_def)
qed

end
