(* ===== verification/Command_Bus.thy ===== *)
theory Command_Bus
  imports Json
begin

text \<open>
  \<open>CommandEventBus\<close> (\<open>packages/kernel/src/command-event-bus.ts\<close>). Schemas and handlers are
  functions of the command and event definitions. What the race between a handler, its timer and
  the caller's signal comes to is the handler's outcome. The map of the subscribers of an event is
  an object that handles keep a reference to, so the model has a store of such maps.
\<close>

datatype command_error_code = Unavailable | InvalidInput | InvalidOutput | Forbidden | TimeoutC | FailedC

record command_error =
  ce_code :: command_error_code
  ce_message :: string

datatype source_kind = KernelSource | PluginSource | RendererSource

record bus_source =
  bs_kind :: source_kind
  bs_id :: string

record bus_envelope =
  be_correlation :: string
  be_causation :: "string option"
  be_source :: bus_source
  be_at :: string
  be_grant :: "nat option"

record correlation_context =
  cx_correlation :: string
  cx_operation :: string
  cx_grant :: "nat option"

text \<open>
  \<open>Returned v (Some e)\<close>: the handler won the race, but its signal was aborted with \<open>e\<close> before
  the bus looked at it.
\<close>

datatype handler_outcome =
    Returned jsval "command_error option"
  | ThrewCommand command_error
  | ThrewOther "string option"
  | RaceTimedOut
  | RaceCancelled

record command_def =
  cm_id :: string
  cm_input :: "jsval \<Rightarrow> jsval option"
  cm_output :: "jsval \<Rightarrow> jsval option"
  cm_timeout :: "int option"

record command_handler =
  ch_plugin :: string
  ch_command :: command_def
  ch_run :: "jsval \<Rightarrow> bus_envelope \<Rightarrow> correlation_context \<Rightarrow> handler_outcome"

record event_def =
  ev_id :: string
  ev_payload :: "jsval \<Rightarrow> jsval option"

record subscriber =
  sb_plugin :: string

record delivery =
  dl_plugin :: string
  dl_token :: nat
  dl_event :: string
  dl_payload :: jsval
  dl_envelope :: bus_envelope

type_synonym subscribers = "(nat, subscriber) jmap"

text \<open>\<open>cb_delivered\<close> are the calls of event handlers, in order; \<open>cb_next\<close> supplies identities.\<close>

record command_bus =
  cb_handlers :: "(string, nat \<times> command_handler) jmap"
  cb_events :: "(string, nat) jmap"
  cb_maps :: "(nat, subscribers) jmap"
  cb_delivered :: "delivery list"
  cb_next :: nat

definition new_bus :: command_bus where
  "new_bus = \<lparr>cb_handlers = [], cb_events = [], cb_maps = [], cb_delivered = [], cb_next = 0\<rparr>"

datatype bus_error = NotDeclared string | AlreadyHandled string | ReservedEvent | PayloadRejected

section \<open>Commands\<close>

definition handle_command ::
  "string \<Rightarrow> string set \<Rightarrow> command_def \<Rightarrow> (jsval \<Rightarrow> bus_envelope \<Rightarrow> correlation_context \<Rightarrow> handler_outcome)
    \<Rightarrow> command_bus \<Rightarrow> bus_error + nat \<times> command_bus" where
  "handle_command plugin declared cmd run s =
     (if cm_id cmd \<notin> declared then Inl (NotDeclared (cm_id cmd))
      else
        (case jget (cb_handlers s) (cm_id cmd) of
           Some (_, h) \<Rightarrow> Inl (AlreadyHandled (ch_plugin h))
         | None \<Rightarrow>
             let t = cb_next s in
             Inr (t, s\<lparr>cb_handlers := jset (cm_id cmd)
                         (t, \<lparr>ch_plugin = plugin, ch_command = cmd, ch_run = run\<rparr>) (cb_handlers s),
                       cb_next := Suc t\<rparr>)))"

definition dispose_handler :: "string \<Rightarrow> nat \<Rightarrow> command_bus \<Rightarrow> command_bus" where
  "dispose_handler cid t s =
     (case jget (cb_handlers s) cid of
        None \<Rightarrow> s
      | Some (t', _) \<Rightarrow> if t' = t then s\<lparr>cb_handlers := jdel cid (cb_handlers s)\<rparr> else s)"

definition provides :: "string \<Rightarrow> command_bus \<Rightarrow> bool" where
  "provides cid s = jhas (cb_handlers s) cid"

definition cmd_err :: "command_error_code \<Rightarrow> string \<Rightarrow> command_error" where
  "cmd_err c m = \<lparr>ce_code = c, ce_message = m\<rparr>"

definition cancelled_error :: "string \<Rightarrow> command_error" where
  "cancelled_error cid = cmd_err FailedC (''Command '' @ cid @ '' was cancelled'')"

definition DEFAULT_COMMAND_TIMEOUT_MS :: int where
  "DEFAULT_COMMAND_TIMEOUT_MS = 30000"

definition show_int :: "int \<Rightarrow> string" where
  "show_int i = (if i < 0 then CHR ''-'' # show_nat (nat (- i)) else show_nat (nat i))"

definition command_envelope ::
  "correlation_context option \<Rightarrow> bus_source option \<Rightarrow> nat option \<Rightarrow> string \<Rightarrow> string \<Rightarrow> bus_envelope" where
  "command_envelope parent src grant uuid now =
     \<lparr>be_correlation = (case parent of None \<Rightarrow> uuid | Some p \<Rightarrow> cx_correlation p),
      be_causation = map_option cx_operation parent,
      be_source = (case src of None \<Rightarrow> \<lparr>bs_kind = KernelSource, bs_id = ''kernel''\<rparr> | Some x \<Rightarrow> x),
      be_at = now,
      be_grant = (case grant of Some g \<Rightarrow> Some g | None \<Rightarrow> (case parent of None \<Rightarrow> None | Some p \<Rightarrow> cx_grant p))\<rparr>"

definition invoke_by_id ::
  "string \<Rightarrow> jsval \<Rightarrow> bool \<Rightarrow> bus_source option \<Rightarrow> nat option \<Rightarrow> correlation_context option
    \<Rightarrow> string \<Rightarrow> string \<Rightarrow> command_bus \<Rightarrow> command_error + jsval" where
  "invoke_by_id cid input aborted src grant parent uuid now s =
     (case jget (cb_handlers s) cid of
        None \<Rightarrow> Inl (cmd_err Unavailable (''No active plugin handles command '' @ cid))
      | Some (_, h) \<Rightarrow>
          (case cm_input (ch_command h) input of
             None \<Rightarrow> Inl (cmd_err InvalidInput (''Input for command '' @ cid @ '' did not match its contract''))
           | Some parsed \<Rightarrow>
               if aborted then Inl (cancelled_error cid)
               else
                 let timeout = (case cm_timeout (ch_command h) of None \<Rightarrow> DEFAULT_COMMAND_TIMEOUT_MS | Some t \<Rightarrow> t);
                     envelope = command_envelope parent src grant uuid now;
                     context = \<lparr>cx_correlation = be_correlation envelope, cx_operation = cid,
                                cx_grant = be_grant envelope\<rparr>
                 in case ch_run h parsed envelope context of
                      Returned v None \<Rightarrow>
                        (case cm_output (ch_command h) v of
                           None \<Rightarrow> Inl (cmd_err InvalidOutput
                                    (''Output for command '' @ cid @ '' did not match its contract''))
                         | Some out \<Rightarrow> Inr out)
                    | Returned _ (Some e) \<Rightarrow> Inl e
                    | ThrewCommand e \<Rightarrow> Inl e
                    | ThrewOther m \<Rightarrow>
                        Inl (cmd_err FailedC
                          (case m of None \<Rightarrow> ''The request failed.''
                           | Some msg \<Rightarrow> if js_trim msg \<noteq> [] then msg else ''The request failed.''))
                    | RaceTimedOut \<Rightarrow>
                        Inl (cmd_err TimeoutC (''Command '' @ cid @ '' exceeded its '' @ show_int timeout @ ''ms timeout''))
                    | RaceCancelled \<Rightarrow> Inl (cancelled_error cid)))"

section \<open>Events\<close>

definition subscribers_at :: "nat \<Rightarrow> command_bus \<Rightarrow> subscribers" where
  "subscribers_at r s = (case jget (cb_maps s) r of None \<Rightarrow> [] | Some m \<Rightarrow> m)"

text \<open>The subscribers that a publication of the event reaches.\<close>

definition live :: "string \<Rightarrow> command_bus \<Rightarrow> subscribers" where
  "live eid s = (case jget (cb_events s) eid of None \<Rightarrow> [] | Some r \<Rightarrow> subscribers_at r s)"

text \<open>The handle of a subscription: its event, the map it was put in, and its token.\<close>

type_synonym subscription = "string \<times> nat \<times> nat"

definition on_by_id :: "string \<Rightarrow> string \<Rightarrow> command_bus \<Rightarrow> subscription \<times> command_bus" where
  "on_by_id plugin eid s =
     (let t = cb_next s;
          r = (case jget (cb_events s) eid of None \<Rightarrow> Suc t | Some r \<Rightarrow> r);
          m = jset t \<lparr>sb_plugin = plugin\<rparr> (live eid s)
      in ((eid, r, t),
          s\<lparr>cb_maps := jset r m (cb_maps s), cb_events := jset eid r (cb_events s), cb_next := Suc (Suc t)\<rparr>))"

definition dispose_subscription :: "subscription \<Rightarrow> command_bus \<Rightarrow> command_bus" where
  "dispose_subscription h s =
     (case h of (eid, r, t) \<Rightarrow>
        let m = jdel t (subscribers_at r s) in
        s\<lparr>cb_maps := jset r m (cb_maps s),
          cb_events := (if m = [] then jdel eid (cb_events s) else cb_events s)\<rparr>)"

definition KERNEL_ONLY_EVENT_IDS :: "string list" where
  "KERNEL_ONLY_EVENT_IDS = [''borg.channel.inboundMessage'']"

definition is_kernel_only_event :: "string \<Rightarrow> bool" where
  "is_kernel_only_event e = List.member KERNEL_ONLY_EVENT_IDS e"

definition event_envelope :: "correlation_context option \<Rightarrow> bus_source \<Rightarrow> string \<Rightarrow> string \<Rightarrow> bus_envelope" where
  "event_envelope parent src uuid now =
     \<lparr>be_correlation = (case parent of None \<Rightarrow> uuid | Some p \<Rightarrow> cx_correlation p),
      be_causation = map_option cx_operation parent, be_source = src, be_at = now, be_grant = None\<rparr>"

text \<open>
  A publication reaches the subscribers it found when it began: the code copies them before the first
  handler runs. The loop over them is one step; what a handler does to the bus while it runs comes after
  the step.
\<close>

definition publish_event ::
  "event_def \<Rightarrow> jsval \<Rightarrow> bus_source \<Rightarrow> correlation_context option \<Rightarrow> string \<Rightarrow> string
    \<Rightarrow> command_bus \<Rightarrow> bus_error + command_bus" where
  "publish_event ev payload src parent uuid now s =
     (case ev_payload ev payload of
        None \<Rightarrow> Inl PayloadRejected
      | Some p \<Rightarrow>
          let envelope = event_envelope parent src uuid now in
          Inr (s\<lparr>cb_delivered := cb_delivered s @
                   map (\<lambda>(t, sb). \<lparr>dl_plugin = sb_plugin sb, dl_token = t, dl_event = ev_id ev,
                                   dl_payload = p, dl_envelope = envelope\<rparr>) (live (ev_id ev) s)\<rparr>))"

definition emit_event ::
  "string \<Rightarrow> string set \<Rightarrow> event_def \<Rightarrow> jsval \<Rightarrow> correlation_context option \<Rightarrow> string \<Rightarrow> string
    \<Rightarrow> command_bus \<Rightarrow> bus_error + command_bus" where
  "emit_event plugin declared ev payload parent uuid now s =
     (if is_kernel_only_event (ev_id ev) then Inl ReservedEvent
      else if ev_id ev \<notin> declared then Inl (NotDeclared (ev_id ev))
      else publish_event ev payload \<lparr>bs_kind = PluginSource, bs_id = plugin\<rparr> parent uuid now s)"

definition emit_kernel ::
  "event_def \<Rightarrow> jsval \<Rightarrow> correlation_context option \<Rightarrow> string \<Rightarrow> string \<Rightarrow> command_bus \<Rightarrow> bus_error + command_bus" where
  "emit_kernel ev payload parent uuid now s =
     publish_event ev payload \<lparr>bs_kind = KernelSource, bs_id = ''kernel''\<rparr> parent uuid now s"

text \<open>The loop of \<open>removePlugin\<close> over the events.\<close>

fun remove_from_events :: "string \<Rightarrow> (string \<times> nat) list \<Rightarrow> command_bus \<Rightarrow> command_bus" where
  "remove_from_events plugin [] s = s"
| "remove_from_events plugin ((eid, r) # es) s =
     (let m = jfilter (\<lambda>t sb. sb_plugin sb \<noteq> plugin) (subscribers_at r s) in
      remove_from_events plugin es
        (s\<lparr>cb_maps := jset r m (cb_maps s),
           cb_events := (if m = [] then jdel eid (cb_events s) else cb_events s)\<rparr>))"

definition remove_plugin_bus :: "string \<Rightarrow> command_bus \<Rightarrow> command_bus" where
  "remove_plugin_bus plugin s =
     remove_from_events plugin (cb_events s)
       (s\<lparr>cb_handlers := jfilter (\<lambda>_ (_, h). ch_plugin h \<noteq> plugin) (cb_handlers s)\<rparr>)"

section \<open>Command handlers are a registry\<close>

definition handler_owner :: "command_bus \<Rightarrow> string \<Rightarrow> nat option" where
  "handler_owner s cid = map_option fst (jget (cb_handlers s) cid)"

definition handlers_inv :: "command_bus \<Rightarrow> bool" where
  "handlers_inv s \<longleftrightarrow> (\<forall>c t h. jget (cb_handlers s) c = Some (t, h) \<longrightarrow> t < cb_next s)"

lemma handle_command_cases:
  assumes "handle_command plugin declared cmd run s = Inr (t, s')"
  shows "cm_id cmd \<in> declared \<and> jget (cb_handlers s) (cm_id cmd) = None \<and> t = cb_next s \<and>
    s' = s\<lparr>cb_handlers := jset (cm_id cmd) (t, \<lparr>ch_plugin = plugin, ch_command = cmd, ch_run = run\<rparr>) (cb_handlers s),
           cb_next := Suc t\<rparr>"
  using assms by (cases "jget (cb_handlers s) (cm_id cmd)") (auto simp: handle_command_def Let_def split: if_splits)

type_synonym handler_spec =
  "string \<times> string set \<times> command_def \<times> (jsval \<Rightarrow> bus_envelope \<Rightarrow> correlation_context \<Rightarrow> handler_outcome)"

definition register_handler :: "string \<Rightarrow> handler_spec \<Rightarrow> command_bus \<Rightarrow> bus_error + nat \<times> command_bus" where
  "register_handler cid a s = (case a of (p, d, c, f) \<Rightarrow> handle_command p d (c\<lparr>cm_id := cid\<rparr>) f s)"

lemma register_handler_cases:
  assumes "register_handler cid a s = Inr (t, s')"
  obtains h where "jget (cb_handlers s) cid = None" "t = cb_next s"
    "s' = s\<lparr>cb_handlers := jset cid (t, h) (cb_handlers s), cb_next := Suc t\<rparr>"
  using assms handle_command_cases by (force simp: register_handler_def split: prod.splits)

interpretation handlers: token_registry handler_owner "\<lambda>s. {..<cb_next s}" register_handler dispose_handler handlers_inv
proof (unfold_locales, goal_cases)
  case (1 s k a t s') then show ?case by (auto elim: register_handler_cases simp: handler_owner_def)
next
  case (2 s k a t s') then show ?case by (auto elim!: register_handler_cases simp: handler_owner_def fun_eq_iff)
next
  case (3 s k a t s') then show ?case by (auto elim: register_handler_cases)
next
  case (4 s k a t s') then show ?case by (auto elim!: register_handler_cases)
next
  case (5 s k a t s') then show ?case
    by (auto elim!: register_handler_cases simp: handlers_inv_def split: if_splits) (blast intro: less_SucI)
next
  case (6 s k t) then show ?case
    by (auto simp: dispose_handler_def handler_owner_def fun_eq_iff split: option.split)
next
  case (7 s k t) then show ?case by (simp add: dispose_handler_def split: option.split)
next
  case (8 s k t) then show ?case
    by (auto simp: dispose_handler_def handlers_inv_def split: option.split)
qed

section \<open>A result that meets its contract\<close>

text \<open>
  What a command invocation returns is what the registered handler returned for an input that
  its contract accepted, as parsed by the command's output contract; the handler ran under the
  caller's correlation id and parent grant, and its signal had not been aborted.
\<close>

theorem invoke_returns_contract:
  assumes "invoke_by_id cid input aborted src grant parent uuid now s = Inr out"
  shows "\<exists>t h x v. jget (cb_handlers s) cid = Some (t, h) \<and> cm_input (ch_command h) input = Some x \<and>
    ch_run h x (command_envelope parent src grant uuid now)
      \<lparr>cx_correlation = (case parent of None \<Rightarrow> uuid | Some p \<Rightarrow> cx_correlation p), cx_operation = cid,
       cx_grant = (case grant of Some g \<Rightarrow> Some g | None \<Rightarrow> (case parent of None \<Rightarrow> None | Some p \<Rightarrow> cx_grant p))\<rparr>
      = Returned v None \<and>
    cm_output (ch_command h) v = Some out \<and> \<not> aborted"
  using assms
  by (auto simp: invoke_by_id_def command_envelope_def Let_def
      split: option.splits prod.splits if_splits handler_outcome.splits)

definition echo_command :: command_def where
  "echo_command = \<lparr>cm_id = ''p.echo'', cm_input = (\<lambda>v. if is_plain_object v then Some v else None),
     cm_output = (\<lambda>v. case v of VNum n \<Rightarrow> Some v | _ \<Rightarrow> None), cm_timeout = None\<rparr>"

definition echo_bus :: command_bus where
  "echo_bus = snd (projr (handle_command ''p'' {''p.echo''} echo_command
     (\<lambda>v e c. Returned (getp v ''n'') None) new_bus))"

theorem invoke_returns_contract_witness:
  "\<exists>t h x v. jget (cb_handlers echo_bus) ''p.echo'' = Some (t, h) \<and>
     cm_input (ch_command h) (VObj [(''n'', VNum (Fin 3))]) = Some x \<and>
     cm_output (ch_command h) v = Some (VNum (Fin 3))"
proof -
  have "invoke_by_id ''p.echo'' (VObj [(''n'', VNum (Fin 3))]) False None None None ''u'' ''t'' echo_bus =
      Inr (VNum (Fin 3))"
    by (simp add: invoke_by_id_def echo_bus_def handle_command_def echo_command_def new_bus_def Let_def
        is_plain_object_def getp_def obj_fields_def)
  from invoke_returns_contract [OF this] show ?thesis by blast
qed

section \<open>Traces\<close>

datatype bus_op =
    BHandle string "string set" command_def "jsval \<Rightarrow> bus_envelope \<Rightarrow> correlation_context \<Rightarrow> handler_outcome"
  | BUnhandle string nat
  | BOn string string
  | BOff subscription
  | BEmit string "string set" event_def jsval "correlation_context option" string string
  | BEmitKernel event_def jsval "correlation_context option" string string
  | BRemove string

definition bus_keep :: "command_bus \<Rightarrow> 'e + command_bus \<Rightarrow> command_bus" where
  "bus_keep s r = (case r of Inl _ \<Rightarrow> s | Inr s' \<Rightarrow> s')"

fun bus_apply :: "bus_op \<Rightarrow> command_bus \<Rightarrow> command_bus" where
  "bus_apply (BHandle p d c f) s = (case handle_command p d c f s of Inl _ \<Rightarrow> s | Inr (_, s') \<Rightarrow> s')"
| "bus_apply (BUnhandle c t) s = dispose_handler c t s"
| "bus_apply (BOn p e) s = snd (on_by_id p e s)"
| "bus_apply (BOff h) s = dispose_subscription h s"
| "bus_apply (BEmit p d ev v c u n) s = bus_keep s (emit_event p d ev v c u n s)"
| "bus_apply (BEmitKernel ev v c u n) s = bus_keep s (emit_kernel ev v c u n s)"
| "bus_apply (BRemove p) s = remove_plugin_bus p s"

definition bus_trace :: "bus_op list \<Rightarrow> command_bus \<Rightarrow> command_bus" where
  "bus_trace ops s = fold bus_apply ops s"

fun bus_registers :: "string \<Rightarrow> bus_op \<Rightarrow> bool" where
  "bus_registers p (BHandle q _ _ _) = (q = p)"
| "bus_registers p (BOn q _) = (q = p)"
| "bus_registers p _ = False"

text \<open>
  Maps of different events are different objects. A plugin is silent when no command is handled by
  it and no live subscriber belongs to it.
\<close>

definition events_inv :: "command_bus \<Rightarrow> bool" where
  "events_inv s \<longleftrightarrow> jkeys_distinct (cb_events s) \<and> jkeys_distinct (cb_handlers s) \<and>
     (\<forall>e r. jget (cb_events s) e = Some r \<longrightarrow> r < cb_next s \<and> jkeys_distinct (subscribers_at r s)) \<and>
     (\<forall>e e' r. jget (cb_events s) e = Some r \<and> jget (cb_events s) e' = Some r \<longrightarrow> e = e')"

definition plugin_silent :: "string \<Rightarrow> command_bus \<Rightarrow> bool" where
  "plugin_silent p s \<longleftrightarrow>
     (\<forall>c t h. jget (cb_handlers s) c = Some (t, h) \<longrightarrow> ch_plugin h \<noteq> p) \<and>
     (\<forall>e t sb. (t, sb) \<in> set (live e s) \<longrightarrow> sb_plugin sb \<noteq> p)"

definition deliveries_to :: "string \<Rightarrow> command_bus \<Rightarrow> delivery list" where
  "deliveries_to p s = filter (\<lambda>d. dl_plugin d = p) (cb_delivered s)"

lemma live_simp: "jget (cb_events s) e = Some r \<Longrightarrow> live e s = subscribers_at r s"
  "jget (cb_events s) e = None \<Longrightarrow> live e s = []"
  by (simp_all add: live_def)

lemma set_jset_subset: "set (jset k v m) \<subseteq> insert (k, v) (set m)"
  by (induction m) auto

lemma set_jdel_subset: "set (jdel k m) \<subseteq> set m"
  by (auto simp: AList.delete_eq)

lemma subscribers_at_put [simp]:
  "subscribers_at r' (s\<lparr>cb_maps := jset r m (cb_maps s), cb_events := es\<rparr>) = (if r' = r then m else subscribers_at r' s)"
  "subscribers_at r' (s\<lparr>cb_maps := jset r m (cb_maps s), cb_events := es, cb_next := n\<rparr>) =
     (if r' = r then m else subscribers_at r' s)"
  "subscribers_at r' (s\<lparr>cb_handlers := hs\<rparr>) = subscribers_at r' s"
  by (simp_all add: subscribers_at_def)

lemma events_inv_iff: "events_inv s \<longleftrightarrow>
    jkeys_distinct (cb_events s) \<and> jkeys_distinct (cb_handlers s) \<and>
    (\<forall>e r. jget (cb_events s) e = Some r \<longrightarrow> r < cb_next s) \<and>
    (\<forall>e r. jget (cb_events s) e = Some r \<longrightarrow> jkeys_distinct (subscribers_at r s)) \<and>
    (\<forall>e e' r. jget (cb_events s) e = Some r \<longrightarrow> jget (cb_events s) e' = Some r \<longrightarrow> e = e')"
  unfolding events_inv_def by blast

lemma events_ref_less: "events_inv s \<Longrightarrow> jget (cb_events s) e = Some r \<Longrightarrow> r < cb_next s"
  unfolding events_inv_def by blast

lemma events_ref_fresh: "events_inv s \<Longrightarrow> jget (cb_events s) e \<noteq> Some (Suc (cb_next s))"
  using events_ref_less by force

lemma on_by_id_cases:
  assumes "events_inv s"
  obtains r where "on_by_id p e s = ((e, r, cb_next s),
      s\<lparr>cb_maps := jset r (jset (cb_next s) \<lparr>sb_plugin = p\<rparr> (live e s)) (cb_maps s),
        cb_events := jset e r (cb_events s), cb_next := Suc (Suc (cb_next s))\<rparr>)"
    and "r < Suc (Suc (cb_next s))" and "\<And>e'. e' \<noteq> e \<Longrightarrow> jget (cb_events s) e' \<noteq> Some r"
proof (cases "jget (cb_events s) e")
  case None
  then show thesis
    using events_ref_fresh [OF assms] by (intro that [of "Suc (cb_next s)"]) (simp_all add: on_by_id_def Let_def)
next
  case (Some r)
  have "e' \<noteq> e \<Longrightarrow> jget (cb_events s) e' \<noteq> Some r" for e'
    using assms Some unfolding events_inv_iff by blast
  then show thesis
    using Some events_ref_less [OF assms Some] by (intro that [of r]) (simp_all add: on_by_id_def Let_def)
qed

lemma live_distinct: "events_inv s \<Longrightarrow> jkeys_distinct (live e s)"
  unfolding events_inv_iff live_def by (simp split: option.split)

lemma events_inv_on: "events_inv s \<Longrightarrow> events_inv (snd (on_by_id p e s))"
proof -
  assume i: "events_inv s"
  from i obtain r where o: "on_by_id p e s = ((e, r, cb_next s),
      s\<lparr>cb_maps := jset r (jset (cb_next s) \<lparr>sb_plugin = p\<rparr> (live e s)) (cb_maps s),
        cb_events := jset e r (cb_events s), cb_next := Suc (Suc (cb_next s))\<rparr>)"
    and r: "r < Suc (Suc (cb_next s))" "\<And>e'. e' \<noteq> e \<Longrightarrow> jget (cb_events s) e' \<noteq> Some r"
    by (rule on_by_id_cases) blast
  have "jget (cb_events s) e' = Some r' \<Longrightarrow> r' < Suc (Suc (cb_next s))" for e' r'
    using events_ref_less [OF i] by force
  then show ?thesis
    using i r live_distinct [OF i, of e] unfolding o events_inv_iff
    by (auto simp: jset_distinct split: if_splits)
qed

lemma live_on:
  assumes "events_inv s"
  shows "live e' (snd (on_by_id p e s)) = (if e' = e then jset (cb_next s) \<lparr>sb_plugin = p\<rparr> (live e s) else live e' s)"
proof -
  from assms obtain r where o: "on_by_id p e s = ((e, r, cb_next s),
      s\<lparr>cb_maps := jset r (jset (cb_next s) \<lparr>sb_plugin = p\<rparr> (live e s)) (cb_maps s),
        cb_events := jset e r (cb_events s), cb_next := Suc (Suc (cb_next s))\<rparr>)"
    and r: "\<And>e'. e' \<noteq> e \<Longrightarrow> jget (cb_events s) e' \<noteq> Some r"
    by (rule on_by_id_cases) blast
  show ?thesis
    unfolding o using r [of e'] by (cases "jget (cb_events s) e'") (auto simp: live_def)
qed

lemma events_inv_off:
  assumes "events_inv s"
  shows "events_inv (dispose_subscription h s)"
proof -
  obtain e r t where h: "h = (e, r, t)" by (cases h)
  have "jkeys_distinct (jdel t (subscribers_at r s))" if "jget (cb_events s) e' = Some r" for e'
    using assms that unfolding events_inv_iff by (blast intro: jdel_distinct)
  with assms show ?thesis
    unfolding h dispose_subscription_def Let_def events_inv_iff
    by (auto simp: jdel_distinct split: if_splits)
qed

lemma live_off: "set (live e (dispose_subscription h s)) \<subseteq> set (live e s)"
proof -
  obtain e' r t where h: "h = (e', r, t)" by (cases h)
  show ?thesis
  proof (cases "jget (cb_events s) e")
    case None
    then show ?thesis unfolding h by (simp add: dispose_subscription_def Let_def live_def)
  next
    case (Some r')
    then show ?thesis
      using set_jdel_subset [of t "subscribers_at r s"] unfolding h
      by (auto simp: dispose_subscription_def Let_def live_def split: if_splits)
  qed
qed

text \<open>One step of the loop of \<open>removePlugin\<close>.\<close>

definition drop_from :: "string \<Rightarrow> string \<Rightarrow> nat \<Rightarrow> command_bus \<Rightarrow> command_bus" where
  "drop_from plugin e r s =
     (let m = jfilter (\<lambda>t sb. sb_plugin sb \<noteq> plugin) (subscribers_at r s) in
      s\<lparr>cb_maps := jset r m (cb_maps s), cb_events := (if m = [] then jdel e (cb_events s) else cb_events s)\<rparr>)"

lemma drop_from_props:
  assumes "events_inv s" and "jget (cb_events s) e = Some r"
  shows "events_inv (drop_from p e r s)"
    and "live e' (drop_from p e r s) = (if e' = e then jfilter (\<lambda>t sb. sb_plugin sb \<noteq> p) (live e s) else live e' s)"
    and "e' \<noteq> e \<Longrightarrow> jget (cb_events (drop_from p e r s)) e' = jget (cb_events s) e'"
    and "cb_handlers (drop_from p e r s) = cb_handlers s" "cb_delivered (drop_from p e r s) = cb_delivered s"
proof -
  show "events_inv (drop_from p e r s)"
    using assms unfolding events_inv_iff drop_from_def Let_def
    by (simp add: jdel_distinct jfilter_distinct)
  have "e' \<noteq> e \<Longrightarrow> jget (cb_events s) e' \<noteq> Some r"
    using assms unfolding events_inv_def by blast
  then show "live e' (drop_from p e r s) =
      (if e' = e then jfilter (\<lambda>t sb. sb_plugin sb \<noteq> p) (live e s) else live e' s)"
    using assms(2) by (cases "e' = e"; cases "jget (cb_events s) e'") (simp_all add: drop_from_def Let_def live_def subscribers_at_def)
qed (simp_all add: drop_from_def Let_def)

lemma remove_from_events_props:
  assumes "events_inv s" and "distinct (map fst es)" and "\<forall>(e, r) \<in> set es. jget (cb_events s) e = Some r"
  shows "events_inv (remove_from_events p es s) \<and>
    (\<forall>e. live e (remove_from_events p es s) =
       (if e \<in> fst ` set es then jfilter (\<lambda>t sb. sb_plugin sb \<noteq> p) (live e s) else live e s)) \<and>
    cb_handlers (remove_from_events p es s) = cb_handlers s \<and>
    cb_delivered (remove_from_events p es s) = cb_delivered s"
  using assms
proof (induction es arbitrary: s)
  case (Cons x es)
  obtain e r where x: "x = (e, r)" by (cases x)
  have e: "jget (cb_events s) e = Some r" using Cons.prems x by simp
  note d = drop_from_props [OF Cons.prems(1) e, where p = p]
  have "remove_from_events p (x # es) s = remove_from_events p es (drop_from p e r s)"
    by (simp add: x drop_from_def Let_def)
  moreover have n: "distinct (map fst es)" "e \<notin> fst ` set es" using Cons.prems(2) x by simp_all
  moreover have "\<forall>(e', r') \<in> set es. jget (cb_events (drop_from p e r s)) e' = Some r'"
  proof clarify
    fix e' r' assume i: "(e', r') \<in> set es"
    then have "e' \<noteq> e" using n(2) by force
    moreover have "jget (cb_events s) e' = Some r'" using i Cons.prems(3) by auto
    ultimately show "jget (cb_events (drop_from p e r s)) e' = Some r'" using d(3) [of e'] by simp
  qed
  ultimately have ih: "remove_from_events p (x # es) s = remove_from_events p es (drop_from p e r s)"
    "events_inv (remove_from_events p es (drop_from p e r s))"
    "cb_handlers (remove_from_events p es (drop_from p e r s)) = cb_handlers s"
    "cb_delivered (remove_from_events p es (drop_from p e r s)) = cb_delivered s"
    "live e' (remove_from_events p es (drop_from p e r s)) =
       (if e' \<in> fst ` set es then jfilter (\<lambda>t sb. sb_plugin sb \<noteq> p) (live e' (drop_from p e r s))
        else live e' (drop_from p e r s))"
    "e \<notin> fst ` set es" for e'
    using Cons.IH [OF d(1)] d(4,5) by simp_all
  then show ?case
    using d(2) by (simp add: x)
qed simp

lemma live_remove:
  assumes "events_inv s"
  shows "events_inv (remove_plugin_bus p s)"
    and "live e (remove_plugin_bus p s) = filter (\<lambda>(t, sb). sb_plugin sb \<noteq> p) (live e s)"
    and "cb_handlers (remove_plugin_bus p s) = jfilter (\<lambda>_ (_, h). ch_plugin h \<noteq> p) (cb_handlers s)"
    and "cb_delivered (remove_plugin_bus p s) = cb_delivered s"
proof -
  let ?s = "s\<lparr>cb_handlers := jfilter (\<lambda>_ (_, h). ch_plugin h \<noteq> p) (cb_handlers s)\<rparr>"
  have i: "events_inv ?s" using assms by (auto simp: events_inv_def jfilter_distinct)
  have l: "live e ?s = live e s" for e by (simp add: live_def split: option.split)
  have "distinct (map fst (cb_events s))" "\<forall>(e, r) \<in> set (cb_events s). jget (cb_events ?s) e = Some r"
    using assms by (auto simp: events_inv_def)
  note p = remove_from_events_props [OF i this, of p]
  show "events_inv (remove_plugin_bus p s)"
    "cb_handlers (remove_plugin_bus p s) = jfilter (\<lambda>_ (_, h). ch_plugin h \<noteq> p) (cb_handlers s)"
    "cb_delivered (remove_plugin_bus p s) = cb_delivered s"
    using p by (simp_all add: remove_plugin_bus_def)
  have "live e s = []" if "e \<notin> fst ` set (cb_events s)"
    using that by (simp add: live_def map_of_eq_None_iff [THEN iffD2])
  then show "live e (remove_plugin_bus p s) = filter (\<lambda>(t, sb). sb_plugin sb \<noteq> p) (live e s)"
    using p l by (simp add: remove_plugin_bus_def jfilter_def)
qed

text \<open>What every operation keeps.\<close>

lemma publish_cases:
  assumes "publish_event ev payload src parent uuid now s = Inr s'"
  obtains q where "s' = s\<lparr>cb_delivered := cb_delivered s @
     map (\<lambda>(t, sb). \<lparr>dl_plugin = sb_plugin sb, dl_token = t, dl_event = ev_id ev, dl_payload = q,
       dl_envelope = event_envelope parent src uuid now\<rparr>) (live (ev_id ev) s)\<rparr>"
  using assms by (auto simp: publish_event_def Let_def split: option.splits)

lemma events_inv_delivered [simp]: "events_inv (s\<lparr>cb_delivered := d\<rparr>) = events_inv s"
  "live e (s\<lparr>cb_delivered := d\<rparr>) = live e s"
  by (simp_all add: events_inv_def subscribers_at_def live_def split: option.split)

lemma publish_silent:
  assumes "plugin_silent p s" and "publish_event ev payload src parent uuid now s = Inr s'"
  shows "plugin_silent p s' \<and> deliveries_to p s' = deliveries_to p s"
proof -
  obtain q where s': "s' = s\<lparr>cb_delivered := cb_delivered s @
     map (\<lambda>(t, sb). \<lparr>dl_plugin = sb_plugin sb, dl_token = t, dl_event = ev_id ev, dl_payload = q,
       dl_envelope = event_envelope parent src uuid now\<rparr>) (live (ev_id ev) s)\<rparr>"
    using assms(2) by (rule publish_cases)
  have "filter (\<lambda>d. dl_plugin d = p) (map (\<lambda>(t, sb). \<lparr>dl_plugin = sb_plugin sb, dl_token = t, dl_event = ev_id ev,
      dl_payload = q, dl_envelope = event_envelope parent src uuid now\<rparr>) (live (ev_id ev) s)) = []"
    using assms(1) unfolding plugin_silent_def filter_empty_conv by fastforce
  with assms(1) show ?thesis unfolding s' by (simp add: plugin_silent_def deliveries_to_def)
qed

lemma publish_inv: "events_inv s \<Longrightarrow> publish_event ev payload src parent uuid now s = Inr s' \<Longrightarrow> events_inv s'"
  by (erule publish_cases) simp

lemma events_inv_handlers:
  "events_inv (s\<lparr>cb_handlers := hs, cb_next := Suc (cb_next s)\<rparr>)" if "events_inv s" "jkeys_distinct hs"
proof -
  have "jget (cb_events s) e = Some r \<Longrightarrow> r < Suc (cb_next s)" for e r
    using events_ref_less [OF that(1)] by (rule less_SucI)
  with that show ?thesis unfolding events_inv_iff by (simp add: subscribers_at_def)
qed

lemma live_handlers [simp]: "live e (s\<lparr>cb_handlers := hs\<rparr>) = live e s"
  "live e (s\<lparr>cb_handlers := hs, cb_next := n\<rparr>) = live e s"
  by (simp_all add: live_def subscribers_at_def split: option.split)

lemma handle_silent:
  assumes "events_inv s" and "plugin_silent p s" and "q \<noteq> p" and "handle_command q d c f s = Inr (t, s')"
  shows "events_inv s' \<and> plugin_silent p s' \<and> deliveries_to p s' = deliveries_to p s"
proof -
  have s': "s' = s\<lparr>cb_handlers := jset (cm_id c) (t, \<lparr>ch_plugin = q, ch_command = c, ch_run = f\<rparr>) (cb_handlers s),
      cb_next := Suc (cb_next s)\<rparr>"
    using handle_command_cases [OF assms(4)] by simp
  have "jkeys_distinct (cb_handlers s)" using assms(1) by (simp add: events_inv_iff)
  then have "events_inv s'" unfolding s' by (intro events_inv_handlers [OF assms(1)] jset_distinct)
  moreover have "plugin_silent p s'"
    using assms(2,3) unfolding plugin_silent_def s' by (auto split: if_splits)
  ultimately show ?thesis by (simp add: s' deliveries_to_def)
qed

lemma dispose_handler_silent:
  assumes "events_inv s" and "plugin_silent p s"
  shows "events_inv (dispose_handler c t s) \<and> plugin_silent p (dispose_handler c t s) \<and>
    deliveries_to p (dispose_handler c t s) = deliveries_to p s"
proof -
  have "events_inv (s\<lparr>cb_handlers := jdel c (cb_handlers s)\<rparr>)"
    using assms(1) by (simp add: events_inv_iff jdel_distinct)
  moreover have "plugin_silent p (s\<lparr>cb_handlers := jdel c (cb_handlers s)\<rparr>)"
    using assms(2) by (auto simp: plugin_silent_def)
  ultimately show ?thesis using assms
    by (auto simp: dispose_handler_def deliveries_to_def split: option.split)
qed

lemma bus_step_silent:
  assumes "events_inv s" and "plugin_silent p s" and "\<not> bus_registers p op"
  shows "events_inv (bus_apply op s) \<and> plugin_silent p (bus_apply op s) \<and>
    deliveries_to p (bus_apply op s) = deliveries_to p s"
proof (cases op)
  case (BHandle q d c f)
  with assms handle_silent [OF assms(1,2)] show ?thesis by (auto split: sum.split)
next
  case (BUnhandle c t)
  with dispose_handler_silent [OF assms(1,2)] show ?thesis by simp
next
  case (BOn q e)
  have s: "cb_handlers (snd (on_by_id q e s)) = cb_handlers s"
    "cb_delivered (snd (on_by_id q e s)) = cb_delivered s" by (simp_all add: on_by_id_def Let_def)
  have "set (live e' (snd (on_by_id q e s))) \<subseteq> insert (cb_next s, \<lparr>sb_plugin = q\<rparr>) (set (live e' s))" for e'
    unfolding live_on [OF assms(1)] using set_jset_subset [of "cb_next s" _ "live e s"] by auto
  with assms(2,3) have "plugin_silent p (snd (on_by_id q e s))"
    unfolding plugin_silent_def s BOn by fastforce
  with s show ?thesis using events_inv_on [OF assms(1)] BOn by (simp add: deliveries_to_def)
next
  case (BOff h)
  have s: "cb_handlers (dispose_subscription h s) = cb_handlers s"
    "cb_delivered (dispose_subscription h s) = cb_delivered s"
    by (simp_all add: dispose_subscription_def Let_def split: prod.split)
  have "plugin_silent p (dispose_subscription h s)"
    using assms(2) live_off [of _ h s] unfolding plugin_silent_def s by blast
  with s show ?thesis using events_inv_off [OF assms(1)] BOff by (simp add: deliveries_to_def)
next
  case (BEmit q d ev v c u n)
  then show ?thesis
    using assms(1,2) publish_silent [OF assms(2)] publish_inv [OF assms(1)]
    by (auto simp: bus_keep_def emit_event_def split: sum.split)
next
  case (BEmitKernel ev v c u n)
  then show ?thesis
    using assms(1,2) publish_silent [OF assms(2)] publish_inv [OF assms(1)]
    by (auto simp: bus_keep_def emit_kernel_def split: sum.split)
next
  case (BRemove q)
  note r = live_remove [OF assms(1), of q]
  have h: "jget (cb_handlers (remove_plugin_bus q s)) c = Some x \<Longrightarrow> jget (cb_handlers s) c = Some x" for c x
    using assms(1) unfolding r(3) by (auto simp: jget_jfilter events_inv_iff split: option.splits if_splits)
  have l: "set (live e (remove_plugin_bus q s)) \<subseteq> set (live e s)" for e
    unfolding live_remove(2) [OF assms(1)] by auto
  have "plugin_silent p (remove_plugin_bus q s)"
    using assms(2) h l unfolding plugin_silent_def by blast
  with r show ?thesis using BRemove by (simp add: deliveries_to_def)
qed

lemma bus_trace_silent:
  assumes "events_inv s" and "plugin_silent p s" and "list_all (\<lambda>op. \<not> bus_registers p op) ops"
  shows "plugin_silent p (bus_trace ops s) \<and> deliveries_to p (bus_trace ops s) = deliveries_to p s"
  using assms
proof (induction ops arbitrary: s)
  case (Cons op ops)
  have "events_inv (bus_apply op s) \<and> plugin_silent p (bus_apply op s) \<and>
      deliveries_to p (bus_apply op s) = deliveries_to p s"
    using Cons.prems by (intro bus_step_silent) simp_all
  then show ?case using Cons.IH [of "bus_apply op s"] Cons.prems(3) by (simp add: bus_trace_def)
qed (simp add: bus_trace_def)

lemma bus_step_inv: "events_inv s \<Longrightarrow> events_inv (bus_apply op s)"
proof (cases op)
  case (BHandle q d c f)
  assume i: "events_inv s"
  show ?thesis
  proof (cases "handle_command q d c f s")
    case (Inr x)
    obtain t s' where x: "x = (t, s')" by (cases x)
    have s': "s' = s\<lparr>cb_handlers := jset (cm_id c) (t, \<lparr>ch_plugin = q, ch_command = c, ch_run = f\<rparr>) (cb_handlers s),
        cb_next := Suc (cb_next s)\<rparr>"
      using handle_command_cases [of q d c f s t s'] Inr x by simp
    have "jkeys_distinct (cb_handlers s)" using i by (simp add: events_inv_iff)
    then have "events_inv s'" unfolding s' by (intro events_inv_handlers [OF i] jset_distinct)
    with Inr x BHandle show ?thesis by simp
  qed (use i BHandle in simp)
next
  case (BUnhandle c t)
  assume "events_inv s"
  moreover from this have "events_inv (s\<lparr>cb_handlers := jdel c (cb_handlers s)\<rparr>)"
    by (simp add: events_inv_iff jdel_distinct)
  ultimately show ?thesis using BUnhandle by (simp add: dispose_handler_def split: option.split)
qed (auto simp: events_inv_on events_inv_off live_remove(1) bus_keep_def emit_event_def emit_kernel_def
    intro: publish_inv split: sum.split)

lemma bus_trace_inv: "events_inv s \<Longrightarrow> events_inv (bus_trace ops s)"
  by (induction ops arbitrary: s) (simp_all add: bus_trace_def bus_step_inv)

lemma events_inv_new: "events_inv new_bus"
  by (simp add: events_inv_def new_bus_def)

text \<open>
  C23: deactivating a plugin silences it. After \<open>removePlugin\<close>, however the bus is used, stale
  handles included, no event is delivered to the plugin and none of its commands is provided, until
  it registers again.
\<close>

theorem removed_plugin_silent:
  assumes "list_all (\<lambda>op. \<not> bus_registers p op) later"
  shows "deliveries_to p (bus_trace later (remove_plugin_bus p (bus_trace ops new_bus))) =
      deliveries_to p (bus_trace ops new_bus) \<and>
    (jget (cb_handlers (bus_trace later (remove_plugin_bus p (bus_trace ops new_bus)))) c = None \<or>
     ch_plugin (snd (the (jget (cb_handlers (bus_trace later (remove_plugin_bus p (bus_trace ops new_bus)))) c))) \<noteq> p)"
proof -
  let ?s = "bus_trace ops new_bus"
  have i: "events_inv ?s" by (rule bus_trace_inv [OF events_inv_new])
  have "ch_plugin h \<noteq> p" if "jget (cb_handlers (remove_plugin_bus p ?s)) c = Some (t, h)" for c t h
    using i that unfolding live_remove(3) [OF i] by (auto simp: jget_jfilter events_inv_iff split: option.splits if_splits)
  then have "plugin_silent p (remove_plugin_bus p ?s)"
    unfolding plugin_silent_def live_remove(2) [OF i] by auto
  from bus_trace_silent [OF live_remove(1) [OF i] this assms]
  have "plugin_silent p (bus_trace later (remove_plugin_bus p ?s))"
    "deliveries_to p (bus_trace later (remove_plugin_bus p ?s)) = deliveries_to p ?s"
    using live_remove(4) [OF i] by (simp_all add: deliveries_to_def)
  then show ?thesis unfolding plugin_silent_def
    by (metis not_None_eq option.sel prod.collapse)
qed

definition ping :: event_def where
  "ping = \<lparr>ev_id = ''a.ping'', ev_payload = Some\<rparr>"

definition ping_ops :: "bus_op list" where
  "ping_ops = [BOn ''a'' ''a.ping'', BOn ''b'' ''a.ping'', BEmit ''b'' {''a.ping''} ping VNull None ''u'' ''t'']"

theorem removed_plugin_silent_witness:
  "length (deliveries_to ''a'' (bus_trace [BOn ''c'' ''a.ping'', BEmit ''b'' {''a.ping''} ping VNull None ''v'' ''t2'']
     (remove_plugin_bus ''a'' (bus_trace ping_ops new_bus)))) = 1"
proof -
  have "list_all (\<lambda>op. \<not> bus_registers ''a'' op)
      [BOn ''c'' ''a.ping'', BEmit ''b'' {''a.ping''} ping VNull None ''v'' ''t2'']" by simp
  moreover have "length (deliveries_to ''a'' (bus_trace ping_ops new_bus)) = 1" by code_simp
  ultimately show ?thesis using removed_plugin_silent [where p = "''a''" and ops = ping_ops] by simp
qed

section \<open>A stale handle\<close>

lemma remove_from_events_other:
  "e \<notin> fst ` set es \<Longrightarrow> jget (cb_events (remove_from_events p es s)) e = jget (cb_events s) e"
  "r \<notin> snd ` set es \<Longrightarrow> subscribers_at r (remove_from_events p es s) = subscribers_at r s"
  "cb_next (remove_from_events p es s) = cb_next s"
  by (induction es arbitrary: s; force simp: Let_def)+

lemma remove_from_events_last:
  assumes "distinct (map fst es)" and "distinct (map snd es)" and "(e, r) \<in> set es"
    and "jfilter (\<lambda>t sb. sb_plugin sb \<noteq> p) (subscribers_at r s) = []"
  shows "jget (cb_events (remove_from_events p es s)) e = None \<and> subscribers_at r (remove_from_events p es s) = []"
  using assms
proof (induction es arbitrary: s)
  case (Cons x es)
  obtain e0 r0 where x: "x = (e0, r0)" by (cases x)
  have step: "remove_from_events p (x # es) s = remove_from_events p es (drop_from p e0 r0 s)"
    by (simp add: x drop_from_def Let_def)
  show ?case
  proof (cases "(e, r) = x")
    case True
    then have "e \<notin> fst ` set es" "r \<notin> snd ` set es" using Cons.prems(1,2) x by force+
    moreover have "jget (cb_events (drop_from p e r s)) e = None" "subscribers_at r (drop_from p e r s) = []"
      using Cons.prems(4) by (simp_all add: drop_from_def Let_def)
    ultimately show ?thesis
      unfolding step using True x by (simp add: remove_from_events_other)
  next
    case False
    then have m: "(e, r) \<in> set es" using Cons.prems(3) by simp
    then have "r \<noteq> r0" using Cons.prems(2) x by force
    then have "subscribers_at r (drop_from p e0 r0 s) = subscribers_at r s"
      by (simp add: drop_from_def Let_def subscribers_at_def)
    with Cons m show ?thesis unfolding step by simp
  qed
qed simp

text \<open>A map that no event holds any more stays empty: no operation can reach it but through a stale handle.\<close>

definition detached :: "nat \<Rightarrow> command_bus \<Rightarrow> bool" where
  "detached r s \<longleftrightarrow> subscribers_at r s = [] \<and> r < cb_next s \<and> (\<forall>e. jget (cb_events s) e \<noteq> Some r)"

lemma detached_remove:
  assumes "detached r s" and "events_inv s"
  shows "detached r (remove_plugin_bus p s)"
proof -
  let ?s = "s\<lparr>cb_handlers := jfilter (\<lambda>_ (_, h). ch_plugin h \<noteq> p) (cb_handlers s)\<rparr>"
  have keys: "jkeys_distinct (cb_events s)" using assms(2) by (simp add: events_inv_iff)
  then have r: "r \<notin> snd ` set (cb_events s)"
    using assms(1) unfolding detached_def by (auto simp: in_set_conv_nth dest: map_of_is_SomeI)
  have sub: "jget (cb_events (remove_from_events p es s')) e = Some r \<Longrightarrow> jget (cb_events s') e = Some r" for es s' e
    by (induction es arbitrary: s') (fastforce simp: Let_def split: if_splits)+
  have "subscribers_at r (remove_plugin_bus p s) = []" "cb_next (remove_plugin_bus p s) = cb_next s"
    using remove_from_events_other(2) [OF r, of p ?s] remove_from_events_other(3) [of p "cb_events s" ?s] assms(1)
    by (simp_all add: remove_plugin_bus_def detached_def)
  moreover have "jget (cb_events (remove_plugin_bus p s)) e \<noteq> Some r" for e
    using sub [of "cb_events s" ?s e] assms(1) by (auto simp: remove_plugin_bus_def detached_def)
  ultimately show ?thesis using assms(1) by (simp add: detached_def)
qed

lemma detached_step:
  assumes "detached r s" and "events_inv s"
  shows "detached r (bus_apply op s)"
proof (cases op)
  case (BHandle q d c f)
  show ?thesis
  proof (cases "handle_command q d c f s")
    case (Inr x)
    then show ?thesis
      using assms(1) handle_command_cases [of q d c f s "fst x" "snd x"] BHandle
      by (cases x) (simp add: detached_def subscribers_at_def)
  qed (use assms BHandle in simp)
next
  case (BUnhandle c t)
  then show ?thesis using assms(1) by (auto simp: dispose_handler_def detached_def subscribers_at_def split: option.splits)
next
  case (BOn q e)
  then show ?thesis using assms(1) by (auto simp: on_by_id_def Let_def detached_def split: option.splits)
next
  case (BOff h)
  then show ?thesis
    using assms(1) by (cases h) (auto simp: dispose_subscription_def Let_def detached_def split: if_splits)
next
  case (BRemove q)
  then show ?thesis using detached_remove [OF assms] by simp
next
  case (BEmit q d ev v c u n)
  then show ?thesis
    using assms(1) by (auto simp: bus_keep_def emit_event_def detached_def subscribers_at_def elim!: publish_cases split: sum.split)
next
  case (BEmitKernel ev v c u n)
  then show ?thesis
    using assms(1) by (auto simp: bus_keep_def emit_kernel_def detached_def subscribers_at_def elim!: publish_cases split: sum.split)
qed

lemma detached_trace: "detached r s \<Longrightarrow> events_inv s \<Longrightarrow> detached r (bus_trace ops s)"
  by (induction ops arbitrary: s) (simp_all add: bus_trace_def detached_step bus_step_inv)

text \<open>Removing the plugin that holds every subscription of an event detaches the map of the event.\<close>

lemma remove_detaches:
  assumes i: "events_inv s" and e: "jget (cb_events s) e = Some r"
    and own: "list_all (\<lambda>(t, sb). sb_plugin sb = p) (live e s)"
  shows "detached r (remove_plugin_bus p s)"
proof -
  let ?s = "s\<lparr>cb_handlers := jfilter (\<lambda>_ (_, h). ch_plugin h \<noteq> p) (cb_handlers s)\<rparr>"
  have keys: "jkeys_distinct (cb_events s)" using i by (simp add: events_inv_iff)
  have inj: "e' = e" if "jget (cb_events s) e' = Some r" for e'
    using i e that unfolding events_inv_iff by blast
  have "inj_on snd (set (cb_events s))"
  proof (rule inj_onI, clarsimp)
    fix k k' r assume "(k, r) \<in> set (cb_events s)" and "(k', r) \<in> set (cb_events s)"
    then have "jget (cb_events s) k = Some r" "jget (cb_events s) k' = Some r" using keys by simp_all
    with i show "k = k'" unfolding events_inv_iff by blast
  qed
  moreover have "distinct (cb_events s)" using keys by (simp add: distinct_map)
  ultimately have "distinct (map snd (cb_events s))" by (simp add: distinct_map)
  moreover have "jfilter (\<lambda>t sb. sb_plugin sb \<noteq> p) (subscribers_at r ?s) = []"
    using own e by (auto simp: live_def jfilter_def list_all_iff filter_empty_conv)
  ultimately have gone: "jget (cb_events (remove_plugin_bus p s)) e = None" "subscribers_at r (remove_plugin_bus p s) = []"
    using remove_from_events_last [of "cb_events s" e r p ?s] keys map_of_SomeD [OF e]
    by (simp_all add: remove_plugin_bus_def)
  have sub: "jget (cb_events (remove_from_events p es s')) k = Some r \<Longrightarrow> jget (cb_events s') k = Some r" for es s' k
    by (induction es arbitrary: s') (fastforce simp: Let_def split: if_splits)+
  have "jget (cb_events (remove_plugin_bus p s)) k \<noteq> Some r" for k
    using sub [of "cb_events s" ?s k] inj [of k] gone(1) by (auto simp: remove_plugin_bus_def)
  moreover have "cb_next (remove_plugin_bus p s) = cb_next s"
    by (simp add: remove_plugin_bus_def remove_from_events_other(3))
  ultimately show ?thesis using gone(2) events_ref_less [OF i e] by (simp add: detached_def)
qed

text \<open>
  C24: disposing a stale subscription drops the subscriptions of others. When a plugin that held all
  subscriptions to an event is removed, and others subscribe to the event later, however many and
  whatever else happens, then disposing any of the plugin's old handles (its map is \<open>r\<close>) leaves the
  event without subscribers.
\<close>

theorem stale_unsubscribe_drops_others:
  assumes "jget (cb_events (bus_trace ops new_bus)) e = Some r"
    and "list_all (\<lambda>(t, sb). sb_plugin sb = a) (live e (bus_trace ops new_bus))"
  shows "live e (dispose_subscription (e, r, t) (bus_trace later (remove_plugin_bus a (bus_trace ops new_bus)))) = []"
proof -
  let ?s = "bus_trace ops new_bus"
  have i: "events_inv ?s" by (rule bus_trace_inv [OF events_inv_new])
  have "detached r (bus_trace later (remove_plugin_bus a ?s))"
    by (rule detached_trace [OF remove_detaches [OF i assms] live_remove(1) [OF i]])
  then show ?thesis by (simp add: detached_def dispose_subscription_def Let_def live_def)
qed

theorem stale_unsubscribe_drops_others_witness:
  "length (live ''a.ping'' (bus_trace [BOn ''b'' ''a.ping'', BOn ''c'' ''a.ping'']
     (remove_plugin_bus ''a'' (bus_trace [BOn ''a'' ''a.ping''] new_bus)))) = 2 \<and>
   live ''a.ping'' (dispose_subscription (fst (on_by_id ''a'' ''a.ping'' new_bus))
     (bus_trace [BOn ''b'' ''a.ping'', BOn ''c'' ''a.ping'']
       (remove_plugin_bus ''a'' (bus_trace [BOn ''a'' ''a.ping''] new_bus)))) = []"
proof -
  have h: "fst (on_by_id ''a'' ''a.ping'' new_bus) = (''a.ping'', 1, 0)" by code_simp
  have r: "jget (cb_events (bus_trace [BOn ''a'' ''a.ping''] new_bus)) ''a.ping'' = Some 1" by code_simp
  have o: "list_all (\<lambda>(t, sb). sb_plugin sb = ''a'') (live ''a.ping'' (bus_trace [BOn ''a'' ''a.ping''] new_bus))" by code_simp
  have l: "length (live ''a.ping'' (bus_trace [BOn ''b'' ''a.ping'', BOn ''c'' ''a.ping'']
     (remove_plugin_bus ''a'' (bus_trace [BOn ''a'' ''a.ping''] new_bus)))) = 2" by code_simp
  show ?thesis unfolding h using l stale_unsubscribe_drops_others [OF r o] by blast
qed

end
