(* ===== verification/Tool_Registry.thy ===== *)
theory Tool_Registry
  imports Trust Json_Schema Execution_Security
begin

text \<open>
  The registries of \<open>ToolService\<close> (\<open>packages/kernel/src/tool-service.ts\<close>): static tools, tool
  providers, and the policies of runs with the dynamic tools that providers prepared for them.
  Registrations, policies, bindings and abort controllers are identities (tokens); a registration
  and its controller share one. Preparing a run awaits each provider, so it is a sequence of steps.
  Tool contributions come from plugins: their fields are untyped values. Ids of dynamic tools are
  strings (a number that prints like an id is not modelled).
\<close>

section \<open>Values\<close>

definition MAX_JSON_DEPTH :: nat where
  "MAX_JSON_DEPTH = 32"

definition MAX_JSON_NODES :: int where
  "MAX_JSON_NODES = 100000"

definition MAX_PROVENANCE_ID_LENGTH :: nat where
  "MAX_PROVENANCE_ID_LENGTH = 240"

datatype tool_code = UnavailableT | ForbiddenT | DeniedT | InvalidT | FailedT

record tool_error =
  te_code :: tool_code
  te_message :: string
  te_reasons :: "string list"

definition tool_err :: "tool_code \<Rightarrow> string \<Rightarrow> tool_error" where
  "tool_err c m = \<lparr>te_code = c, te_message = m, te_reasons = []\<rparr>"

text \<open>Values are trees, so the check for a cycle never fires.\<close>

fun clone_json_value :: "jsval \<Rightarrow> nat \<Rightarrow> int \<Rightarrow> tool_error + jsval \<times> int"
  and clone_items :: "jsval list \<Rightarrow> nat \<Rightarrow> int \<Rightarrow> tool_error + jsval list \<times> int"
  and clone_fields :: "(string \<times> jsval) list \<Rightarrow> nat \<Rightarrow> int \<Rightarrow> tool_error + (string \<times> jsval) list \<times> int" where
  "clone_json_value v d b =
     (if MAX_JSON_DEPTH < d \<or> b - 1 < 0
      then Inl (tool_err InvalidT ''Tool value exceeds JSON complexity limits'')
      else
        case v of
          VNull \<Rightarrow> Inr (v, b - 1)
        | VStr _ \<Rightarrow> Inr (v, b - 1)
        | VBool _ \<Rightarrow> Inr (v, b - 1)
        | VNum n \<Rightarrow>
            if num_finite n then Inr (v, b - 1)
            else Inl (tool_err InvalidT ''Tool output is not JSON-serializable'')
        | VArr xs \<Rightarrow> rbind (clone_items xs (Suc d) (b - 1)) (\<lambda>(ys, b'). Inr (VArr ys, b'))
        | VObj fs \<Rightarrow> rbind (clone_fields fs (Suc d) (b - 1)) (\<lambda>(gs, b'). Inr (VObj gs, b'))
        | _ \<Rightarrow> Inl (tool_err InvalidT ''Tool output is not JSON-serializable''))"
| "clone_items [] d b = Inr ([], b)"
| "clone_items (x # xs) d b =
     rbind (clone_json_value x d b) (\<lambda>(y, b'). rbind (clone_items xs d b') (\<lambda>(ys, b''). Inr (y # ys, b'')))"
| "clone_fields [] d b = Inr ([], b)"
| "clone_fields ((k, x) # fs) d b =
     rbind (clone_json_value x d b) (\<lambda>(y, b'). rbind (clone_fields fs d b') (\<lambda>(gs, b''). Inr ((k, y) # gs, b'')))"

definition as_json_value :: "jsval \<Rightarrow> tool_error + jsval" where
  "as_json_value v = rbind (clone_json_value v 0 MAX_JSON_NODES) (\<lambda>(x, _). Inr x)"

definition is_allowed :: "string \<Rightarrow> string list \<Rightarrow> bool" where
  "is_allowed tool patterns =
     list_ex (\<lambda>p.
       if p = ''*'' then True
       else if js_ends_with ''*'' p then js_starts_with (butlast p) tool
       else tool = p) patterns"

definition is_allowed_by_all :: "string \<Rightarrow> string list list \<Rightarrow> bool" where
  "is_allowed_by_all tool groups = list_all (is_allowed tool) groups"

text \<open>\<open>sha\<close> is the hexadecimal SHA-256 of a string.\<close>

definition tool_provenance_id :: "(string \<Rightarrow> string) \<Rightarrow> string \<Rightarrow> string" where
  "tool_provenance_id sha tool =
     (let readable = ''tool:'' @ tool in
      if length readable \<le> MAX_PROVENANCE_ID_LENGTH then readable else ''tool-sha256:'' @ sha tool)"

section \<open>Security metadata\<close>

datatype output_provenance = TrustedP | ExternalP

record resolved_security =
  rs_input :: "data_classification option"
  rs_output :: data_classification
  rs_provenance :: output_provenance
  rs_capacity :: "channel_capacity option"

definition DEFAULT_OUTPUT_CLASSIFICATION :: data_classification where
  "DEFAULT_OUTPUT_CLASSIFICATION = Internal"

datatype registry_error =
    InvalidTool
  | ToolTaken
  | BadSchemaValue tool_error
  | SecurityNotObject
  | SecurityFieldInvalid string
  | InvalidProvider
  | ProviderTaken
  | PolicyTaken
  | ClassificationFailed classification_error
  | CannotBind
  | PolicyUnavailable
  | PolicyReleased
  | CatalogInvalid
  | DynamicInvalid
  | SchemaRejected schema_error
  | StaticCollision
  | AlreadyPrepared
  | OutsideNamespace

text \<open>\<open>parseSecurityField\<close>: an absent field is fine, a present one must parse.\<close>

definition parse_security_field :: "string \<Rightarrow> jsval \<Rightarrow> (string \<Rightarrow> 'a option) \<Rightarrow> registry_error + 'a option" where
  "parse_security_field field candidate parse =
     (if candidate = VUndef then Inr None
      else
        (case candidate of
           VStr s \<Rightarrow> (case parse s of None \<Rightarrow> Inl (SecurityFieldInvalid field) | Some x \<Rightarrow> Inr (Some x))
         | _ \<Rightarrow> Inl (SecurityFieldInvalid field)))"

definition parse_provenance :: "string \<Rightarrow> output_provenance option" where
  "parse_provenance s =
     (if s = ''trusted'' then Some TrustedP else if s = ''external'' then Some ExternalP else None)"

definition is_object_like :: "jsval \<Rightarrow> bool" where
  "is_object_like v = (case v of VObj _ \<Rightarrow> True | VArr _ \<Rightarrow> True | _ \<Rightarrow> False)"

definition resolve_tool_security :: "jsval \<Rightarrow> output_provenance \<Rightarrow> registry_error + resolved_security" where
  "resolve_tool_security candidate fallback =
     (if candidate \<noteq> VUndef \<and> \<not> is_object_like candidate then Inl SecurityNotObject
      else
        rbind (parse_security_field ''inputClassification'' (getp candidate ''inputClassification'')
                 parse_classification) (\<lambda>input.
        rbind (parse_security_field ''outputClassification'' (getp candidate ''outputClassification'')
                 parse_classification) (\<lambda>output.
        rbind (parse_security_field ''channelCapacity'' (getp candidate ''channelCapacity'')
                 parse_capacity) (\<lambda>capacity.
        rbind (parse_security_field ''outputProvenance'' (getp candidate ''outputProvenance'')
                 parse_provenance) (\<lambda>provenance.
        Inr \<lparr>rs_input = input,
             rs_output = (case output of None \<Rightarrow> DEFAULT_OUTPUT_CLASSIFICATION | Some l \<Rightarrow> l),
             rs_provenance = (case provenance of None \<Rightarrow> fallback | Some p \<Rightarrow> p),
             rs_capacity = capacity\<rparr>)))))"

section \<open>The state\<close>

text \<open>A tool's schemas are its parse functions; \<open>None\<close> where the field is no schema.\<close>

record tool_contribution =
  tc_id :: jsval
  tc_description :: jsval
  tc_approval :: jsval
  tc_side_effect :: jsval
  tc_input :: "(jsval \<Rightarrow> jsval option) option"
  tc_output :: "(jsval \<Rightarrow> jsval option) option"
  tc_input_schema :: jsval
  tc_security :: jsval
  tc_executes :: bool

record registered_tool =
  rt_plugin :: string
  rt_id :: string
  rt_description :: string
  rt_approval :: tool_approval
  rt_side_effect :: bool
  rt_input :: "jsval \<Rightarrow> jsval option"
  rt_output :: "jsval \<Rightarrow> jsval option"
  rt_schema :: jsval
  rt_security :: resolved_security
  rt_workspace :: bool

record provider_contribution =
  pc_id :: jsval
  pc_namespace :: jsval
  pc_prepares :: bool

record registered_provider =
  rp_plugin :: string
  rp_id :: string
  rp_namespace :: "string option"
  rp_workspace :: bool

record dynamic_definition =
  dd_id :: string
  dd_description :: string
  dd_input_schema :: jsval
  dd_output_schema :: "jsval option"
  dd_approval :: tool_approval
  dd_side_effect :: bool
  dd_model_visible :: "bool option"

record dynamic_binding =
  db_definition :: dynamic_definition
  db_catalog :: nat
  db_plugin :: string
  db_provider :: string
  db_security :: resolved_security
  db_workspace :: bool
  db_controller :: nat

record catalog_lease =
  cl_catalog :: nat
  cl_plugin :: string
  cl_provider :: string
  cl_controller :: nat

record run_policy =
  po_owner :: string
  po_execution :: "string option"
  po_groups :: "string list list"
  po_session :: "string option"
  po_root :: "string option"
  po_persona :: "string option"
  po_dynamic :: "(string, nat \<times> dynamic_binding) jmap"
  po_catalogs :: "catalog_lease list"
  po_class_run :: "nat option"
  po_prepared :: bool
  po_preparing :: bool

text \<open>
  \<open>ts_closes\<close> are the calls of \<open>closeCatalog\<close>, \<open>ts_closed\<close> the code's \<open>#closedCatalogs\<close>.
  A disposed policy is not in \<open>ts_policies\<close> any more.
\<close>

record tool_service =
  ts_tools :: "(string, nat \<times> registered_tool) jmap"
  ts_providers :: "(string, nat \<times> registered_provider) jmap"
  ts_policies :: "(string, nat \<times> run_policy) jmap"
  ts_aborted :: "nat set"
  ts_closed :: "nat set"
  ts_closes :: "nat list"
  ts_class :: "classification_service option"
  ts_next :: nat

definition new_tool_service :: "classification_service option \<Rightarrow> tool_service" where
  "new_tool_service cls = \<lparr>ts_tools = [], ts_providers = [], ts_policies = [], ts_aborted = {},
     ts_closed = {}, ts_closes = [], ts_class = cls, ts_next = 0\<rparr>"

section \<open>Static tools\<close>

definition TOOL_ID :: rx where
  "TOOL_ID = RSeq ident_head (rplus ident_tail)"

definition NAMESPACE_ID :: rx where
  "NAMESPACE_ID = RSeq ident_head (RStar ident_tail)"

definition parse_approval :: "jsval \<Rightarrow> tool_approval option" where
  "parse_approval v =
     (if v = VStr ''auto'' then Some ApAuto else if v = VStr ''ask'' then Some ApAsk
      else if v = VStr ''deny'' then Some ApDeny else None)"

definition description_ok :: "jsval \<Rightarrow> bool" where
  "description_ok v = (case v of VStr s \<Rightarrow> js_trim s \<noteq> [] \<and> length s \<le> 10000 | _ \<Rightarrow> False)"

definition id_ok :: "rx \<Rightarrow> nat \<Rightarrow> jsval \<Rightarrow> bool" where
  "id_ok r n v = (case v of VStr s \<Rightarrow> rx_match r s \<and> length s \<le> n | _ \<Rightarrow> False)"

definition the_str :: "jsval \<Rightarrow> string" where
  "the_str v = (case v of VStr s \<Rightarrow> s | _ \<Rightarrow> [])"

definition register_tool ::
  "string \<Rightarrow> tool_contribution \<Rightarrow> bool \<Rightarrow> tool_service \<Rightarrow> registry_error + nat \<times> tool_service" where
  "register_tool plugin tool workspace s =
     (case (parse_approval (tc_approval tool), tc_input tool, tc_output tool) of
        (Some approval, Some input, Some output) \<Rightarrow>
          if \<not> id_ok TOOL_ID 512 (tc_id tool) \<or> \<not> description_ok (tc_description tool) \<or>
             \<not> is_bool (tc_side_effect tool) \<or> \<not> tc_executes tool
          then Inl InvalidTool
          else
            let i = the_str (tc_id tool) in
            if jhas (ts_tools s) i then Inl ToolTaken
            else
              (case as_json_value (tc_input_schema tool) of
                 Inl e \<Rightarrow> Inl (BadSchemaValue e)
               | Inr schema \<Rightarrow>
                   rbind (resolve_tool_security (tc_security tool) TrustedP) (\<lambda>security.
                     let t = ts_next s;
                         r = \<lparr>rt_plugin = plugin, rt_id = i, rt_description = the_str (tc_description tool),
                              rt_approval = approval, rt_side_effect = (tc_side_effect tool = VBool True),
                              rt_input = input, rt_output = output, rt_schema = schema,
                              rt_security = security, rt_workspace = workspace\<rparr>
                     in Inr (t, s\<lparr>ts_tools := jset i (t, r) (ts_tools s), ts_next := Suc t\<rparr>)))
      | _ \<Rightarrow> Inl InvalidTool)"

definition dispose_tool :: "string \<Rightarrow> nat \<Rightarrow> tool_service \<Rightarrow> tool_service" where
  "dispose_tool i t s =
     (case jget (ts_tools s) i of
        None \<Rightarrow> s
      | Some (t', _) \<Rightarrow>
          if t' = t then s\<lparr>ts_tools := jdel i (ts_tools s), ts_aborted := insert t (ts_aborted s)\<rparr> else s)"

section \<open>Providers and catalogs\<close>

definition register_provider ::
  "string \<Rightarrow> provider_contribution \<Rightarrow> bool \<Rightarrow> tool_service \<Rightarrow> registry_error + nat \<times> tool_service" where
  "register_provider plugin provider workspace s =
     (if \<not> id_ok TOOL_ID 200 (pc_id provider) \<or>
         (pc_namespace provider \<noteq> VUndef \<and> \<not> id_ok NAMESPACE_ID 200 (pc_namespace provider)) \<or>
         \<not> pc_prepares provider
      then Inl InvalidProvider
      else
        let i = the_str (pc_id provider) in
        if jhas (ts_providers s) i then Inl ProviderTaken
        else
          let t = ts_next s;
              r = \<lparr>rp_plugin = plugin, rp_id = i, rp_namespace = str_of (pc_namespace provider),
                   rp_workspace = workspace\<rparr>
          in Inr (t, s\<lparr>ts_providers := jset i (t, r) (ts_providers s), ts_next := Suc t\<rparr>))"

text \<open>\<open>#closeLease\<close>: a catalog is closed once.\<close>

definition close_lease :: "nat \<Rightarrow> tool_service \<Rightarrow> tool_service" where
  "close_lease c s =
     (if c \<in> ts_closed s then s
      else s\<lparr>ts_closed := insert c (ts_closed s), ts_closes := ts_closes s @ [c]\<rparr>)"

definition close_leases :: "catalog_lease list \<Rightarrow> tool_service \<Rightarrow> tool_service" where
  "close_leases ls s = fold (\<lambda>l. close_lease (cl_catalog l)) ls s"

text \<open>What removing a provider does to one policy, and to all of them in turn.\<close>

definition strip_policy :: "string \<Rightarrow> run_policy \<Rightarrow> run_policy" where
  "strip_policy i p =
     p\<lparr>po_dynamic := jfilter (\<lambda>_ (_, b). db_provider b \<noteq> i) (po_dynamic p),
       po_catalogs := filter (\<lambda>l. cl_provider l \<noteq> i) (po_catalogs p)\<rparr>"

definition leases_of :: "string \<Rightarrow> run_policy \<Rightarrow> catalog_lease list" where
  "leases_of i p = filter (\<lambda>l. cl_provider l = i) (po_catalogs p)"

definition remove_provider :: "string \<Rightarrow> nat \<Rightarrow> tool_service \<Rightarrow> tool_service" where
  "remove_provider i t s =
     (case jget (ts_providers s) i of
        None \<Rightarrow> s
      | Some (t', _) \<Rightarrow>
          if t' \<noteq> t then s
          else
            close_leases (concat (map (\<lambda>(_, _, p). leases_of i p) (ts_policies s)))
              (s\<lparr>ts_providers := jdel i (ts_providers s), ts_aborted := insert t (ts_aborted s),
                 ts_policies := map (\<lambda>(r, q, p). (r, q, strip_policy i p)) (ts_policies s)\<rparr>))"

definition dispose_provider :: "string \<Rightarrow> nat \<Rightarrow> tool_service \<Rightarrow> tool_service" where
  "dispose_provider i t s = remove_provider i t s"

definition remove_plugin_tools :: "string \<Rightarrow> tool_service \<Rightarrow> tool_service" where
  "remove_plugin_tools plugin s =
     (let s1 = s\<lparr>ts_tools := jfilter (\<lambda>_ (_, r). rt_plugin r \<noteq> plugin) (ts_tools s),
                 ts_aborted := ts_aborted s \<union>
                   set (map (\<lambda>(_, t, _). t) (filter (\<lambda>(_, _, r). rt_plugin r = plugin) (ts_tools s)))\<rparr>
      in fold (\<lambda>(i, t, _). remove_provider i t)
           (filter (\<lambda>(_, _, r). rp_plugin r = plugin) (ts_providers s1)) s1)"

section \<open>Run policies\<close>

record policy_context =
  pc_execution :: "string option"
  pc_initial :: "string option"
  pc_session :: "string option"
  pc_root :: "string option"
  pc_additional :: "string list option"
  pc_persona :: "string option"
  pc_persona_id :: "string option"

text \<open>
  The persona snapshot is represented by its id. The result of \<open>openRun\<close> is the token of the
  classification run.
\<close>

definition truthy :: "string option \<Rightarrow> string option" where
  "truthy x = (if x = Some [] then None else x)"

definition register_run_policy ::
  "string \<Rightarrow> string \<Rightarrow> string list \<Rightarrow> policy_context \<Rightarrow> tool_service \<Rightarrow> registry_error + nat \<times> tool_service" where
  "register_run_policy run owner allowed cx s =
     (if jhas (ts_policies s) run then Inl PolicyTaken
      else
        rbind (if truthy (pc_execution cx) \<noteq> None \<and> pc_initial cx = None
               then Inr (None, ts_class s)
               else
                 (case ts_class s of
                    None \<Rightarrow> Inr (None, None)
                  | Some c \<Rightarrow>
                      (case open_run run (pc_initial cx) c of
                         Inl e \<Rightarrow> Inl (ClassificationFailed e)
                       | Inr (h, c') \<Rightarrow> Inr (Some h, Some c')))) (\<lambda>(handle, cls).
          let t = ts_next s;
              p = \<lparr>po_owner = owner, po_execution = pc_execution cx,
                   po_groups = allowed # (case pc_additional cx of None \<Rightarrow> [] | Some a \<Rightarrow> [a]),
                   po_session = pc_session cx, po_root = pc_root cx,
                   po_persona = truthy (case pc_persona cx of Some i \<Rightarrow> Some i | None \<Rightarrow> pc_persona_id cx),
                   po_dynamic = [], po_catalogs = [], po_class_run = handle,
                   po_prepared = False, po_preparing = False\<rparr>
          in Inr (t, s\<lparr>ts_policies := jset run (t, p) (ts_policies s), ts_class := cls, ts_next := Suc t\<rparr>)))"

definition dispose_policy :: "string \<Rightarrow> nat \<Rightarrow> tool_service \<Rightarrow> tool_service" where
  "dispose_policy run t s =
     (case jget (ts_policies s) run of
        None \<Rightarrow> s
      | Some (t', p) \<Rightarrow>
          if t' \<noteq> t then s
          else
            let s1 = close_leases (po_catalogs p)
                  (s\<lparr>ts_policies := jdel run (ts_policies s), ts_aborted := insert t (ts_aborted s)\<rparr>)
            in s1\<lparr>ts_class := (case (ts_class s1, po_class_run p) of
                     (Some c, Some h) \<Rightarrow> Some (dispose_run run h c) | _ \<Rightarrow> ts_class s1)\<rparr>)"

definition bind_execution_classification ::
  "string \<Rightarrow> string \<Rightarrow> string \<Rightarrow> string \<Rightarrow> tool_service \<Rightarrow> registry_error + tool_service" where
  "bind_execution_classification run owner execution level s =
     (case jget (ts_policies s) run of
        None \<Rightarrow> Inl CannotBind
      | Some (t, p) \<Rightarrow>
          if po_owner p \<noteq> owner \<or> po_execution p \<noteq> Some execution then Inl CannotBind
          else if parse_classification level = None
          then Inl (ClassificationFailed (ClassificationInvalid level))
          else
            (case ts_class s of
               None \<Rightarrow> Inr s
             | Some c \<Rightarrow>
                 (case po_class_run p of
                    Some _ \<Rightarrow>
                      (case raise_run run level (''execution '' @ execution @ '' classification'') c of
                         Inl e \<Rightarrow> Inl (ClassificationFailed e)
                       | Inr (_, c') \<Rightarrow> Inr (s\<lparr>ts_class := Some c'\<rparr>))
                  | None \<Rightarrow>
                      (case open_run run (Some level) c of
                         Inl e \<Rightarrow> Inl (ClassificationFailed e)
                       | Inr (h, c') \<Rightarrow>
                           Inr (s\<lparr>ts_class := Some c',
                                  ts_policies := jset run (t, p\<lparr>po_class_run := Some h\<rparr>) (ts_policies s)\<rparr>)))))"

section \<open>Preparing a run\<close>

record tool_catalog =
  ca_id :: nat
  ca_definitions :: jsval
  ca_executes :: bool

definition optional_bool :: "jsval \<Rightarrow> bool" where
  "optional_bool v = (v = VUndef \<or> is_bool v)"

definition bool_of :: "jsval \<Rightarrow> bool option" where
  "bool_of v = (case v of VBool b \<Rightarrow> Some b | _ \<Rightarrow> None)"

text \<open>One definition of a catalog: the binding it adds, or why it is rejected.\<close>

definition accept_definition ::
  "nat \<Rightarrow> registered_provider \<Rightarrow> nat \<Rightarrow> jsval \<Rightarrow> run_policy \<Rightarrow> tool_service \<Rightarrow> registry_error + string \<times> dynamic_binding" where
  "accept_definition controller r catalog v p s =
     (case parse_approval (getp v ''approval'') of
        None \<Rightarrow> Inl DynamicInvalid
      | Some approval \<Rightarrow>
          if \<not> id_ok TOOL_ID 512 (getp v ''id'') \<or> \<not> description_ok (getp v ''description'') \<or>
             \<not> is_bool (getp v ''sideEffect'') \<or> \<not> optional_bool (getp v ''modelVisible'')
          then Inl DynamicInvalid
          else
            (case assert_bounded_json_schema (getp v ''inputSchema'') 0 MAX_SCHEMA_NODES of
               Inl e \<Rightarrow> Inl (SchemaRejected e)
             | Inr _ \<Rightarrow>
                 let i = the_str (getp v ''id'') in
                 rbind (if getp v ''outputSchema'' = VUndef then Inr ()
                        else
                          (case assert_bounded_json_schema (getp v ''outputSchema'') 0 MAX_SCHEMA_NODES of
                             Inl e \<Rightarrow> Inl (SchemaRejected e) | Inr _ \<Rightarrow> Inr ())) (\<lambda>_.
                 if jhas (ts_tools s) i then Inl StaticCollision
                 else if jhas (po_dynamic p) i then Inl AlreadyPrepared
                 else if (case rp_namespace r of None \<Rightarrow> False | Some n \<Rightarrow> \<not> js_starts_with (n @ ''.'') i)
                 then Inl OutsideNamespace
                 else
                   rbind (resolve_tool_security (getp v ''security'') ExternalP) (\<lambda>security.
                   case as_json_value (getp v ''inputSchema'') of
                     Inl e \<Rightarrow> Inl (BadSchemaValue e)
                   | Inr input \<Rightarrow>
                       rbind (if getp v ''outputSchema'' = VUndef then Inr None
                              else (case as_json_value (getp v ''outputSchema'') of
                                      Inl e \<Rightarrow> Inl (BadSchemaValue e) | Inr x \<Rightarrow> Inr (Some x))) (\<lambda>output.
                       Inr (i, \<lparr>db_definition = \<lparr>dd_id = i, dd_description = the_str (getp v ''description''),
                                  dd_input_schema = input, dd_output_schema = output, dd_approval = approval,
                                  dd_side_effect = (getp v ''sideEffect'' = VBool True),
                                  dd_model_visible = bool_of (getp v ''modelVisible'')\<rparr>,
                                db_catalog = catalog, db_plugin = rp_plugin r, db_provider = rp_id r,
                                db_security = security, db_workspace = rp_workspace r,
                                db_controller = controller\<rparr>))))))"

text \<open>The loop over the definitions: a rejected one is logged and skipped.\<close>

fun accept_definitions ::
  "nat \<Rightarrow> registered_provider \<Rightarrow> nat \<Rightarrow> jsval list \<Rightarrow> tool_service \<Rightarrow> nat \<Rightarrow> run_policy \<Rightarrow> run_policy \<times> nat" where
  "accept_definitions c r k [] s n p = (p, n)"
| "accept_definitions c r k (v # vs) s n p =
     (case accept_definition c r k v p s of
        Inl _ \<Rightarrow> accept_definitions c r k vs s n p
      | Inr (i, b) \<Rightarrow> accept_definitions c r k vs s (Suc n) (p\<lparr>po_dynamic := jset i (n, b) (po_dynamic p)\<rparr>))"

datatype prepare_start = AlreadyDone | JoinPending | PrepareWith "(string \<times> nat \<times> registered_provider) list"

definition prepare_run :: "string \<Rightarrow> tool_service \<Rightarrow> registry_error + prepare_start \<times> tool_service" where
  "prepare_run run s =
     (case jget (ts_policies s) run of
        None \<Rightarrow> Inl PolicyUnavailable
      | Some (t, p) \<Rightarrow>
          if po_prepared p then Inr (AlreadyDone, s)
          else if po_preparing p then Inr (JoinPending, s)
          else Inr (PrepareWith (ts_providers s),
                    s\<lparr>ts_policies := jset run (t, p\<lparr>po_preparing := True\<rparr>) (ts_policies s)\<rparr>))"

definition policy_current :: "string \<Rightarrow> nat \<Rightarrow> tool_service \<Rightarrow> bool" where
  "policy_current run t s = (case jget (ts_policies s) run of None \<Rightarrow> False | Some (t', _) \<Rightarrow> t' = t)"

record provider_scope =
  sc_run :: string
  sc_owner :: string
  sc_persona_id :: "string option"
  sc_session :: "string option"
  sc_root :: "string option"

text \<open>Before a provider is asked: the scope it gets.\<close>

definition provider_scope_of ::
  "string \<Rightarrow> nat \<Rightarrow> registered_provider \<Rightarrow> tool_service \<Rightarrow> registry_error + provider_scope" where
  "provider_scope_of run t r s =
     (case jget (ts_policies s) run of
        None \<Rightarrow> Inl PolicyReleased
      | Some (t', p) \<Rightarrow>
          if t' \<noteq> t \<or> t \<in> ts_aborted s then Inl PolicyReleased
          else Inr \<lparr>sc_run = run, sc_owner = po_owner p, sc_persona_id = po_persona p, sc_session = truthy (po_session p),
                    sc_root = (if rp_workspace r then truthy (po_root p) else None)\<rparr>)"

text \<open>After a provider answered with a catalog.\<close>

definition catalog_arrived ::
  "string \<Rightarrow> nat \<Rightarrow> nat \<Rightarrow> registered_provider \<Rightarrow> tool_catalog \<Rightarrow> tool_service \<Rightarrow> registry_error option \<times> tool_service" where
  "catalog_arrived run t controller r c s =
     (if \<not> policy_current run t s \<or> t \<in> ts_aborted s then (Some PolicyReleased, close_lease (ca_id c) s)
      else if controller \<in> ts_aborted s then (None, close_lease (ca_id c) s)
      else if \<not> ca_executes c then (None, close_lease (ca_id c) s)
      else
        (case jget (ts_policies s) run of
           None \<Rightarrow> (None, s)
         | Some (_, p) \<Rightarrow>
             (case accept_definitions controller r (ca_id c) (arr_items (ca_definitions c)) s (ts_next s) p of
                (p', n) \<Rightarrow>
                  (None, s\<lparr>ts_policies := jset run
                     (t, p'\<lparr>po_catalogs := po_catalogs p' @
                            [\<lparr>cl_catalog = ca_id c, cl_plugin = rp_plugin r, cl_provider = rp_id r,
                              cl_controller = controller\<rparr>]\<rparr>) (ts_policies s), ts_next := n\<rparr>))))"

text \<open>The end of the loop, and the \<open>finally\<close> of \<open>prepareRun\<close> on success and on failure.\<close>

definition prepare_finish :: "string \<Rightarrow> nat \<Rightarrow> bool \<Rightarrow> tool_service \<Rightarrow> registry_error option \<times> tool_service" where
  "prepare_finish run t completed s =
     (case jget (ts_policies s) run of
        None \<Rightarrow> (Some PolicyReleased, s)
      | Some (t', p) \<Rightarrow>
          if t' \<noteq> t \<or> t \<in> ts_aborted s then (Some PolicyReleased, s)
          else (None, s\<lparr>ts_policies := jset run
                  (t, p\<lparr>po_prepared := completed \<or> po_prepared p, po_preparing := False\<rparr>) (ts_policies s)\<rparr>))"

section \<open>Lookups\<close>

definition find_dynamic :: "string option \<Rightarrow> string \<Rightarrow> tool_service \<Rightarrow> (nat \<times> dynamic_binding) option" where
  "find_dynamic run tool s =
     (case run of
        None \<Rightarrow> None
      | Some r \<Rightarrow>
          if r = [] then None
          else (case jget (ts_policies s) r of None \<Rightarrow> None | Some (_, p) \<Rightarrow> jget (po_dynamic p) tool))"

definition get_provider_plugin_id :: "string \<Rightarrow> string option \<Rightarrow> tool_service \<Rightarrow> string option" where
  "get_provider_plugin_id tool run s =
     (case jget (ts_tools s) tool of
        Some (_, r) \<Rightarrow> Some (rt_plugin r)
      | None \<Rightarrow> map_option (\<lambda>(_, b). db_plugin b) (find_dynamic run tool s))"

definition describe_security :: "string \<Rightarrow> string option \<Rightarrow> tool_service \<Rightarrow> resolved_security option" where
  "describe_security tool run s =
     (case jget (ts_tools s) tool of
        Some (_, r) \<Rightarrow> Some (rt_security r)
      | None \<Rightarrow> map_option (\<lambda>(_, b). db_security b) (find_dynamic run tool s))"

definition has_tool :: "string \<Rightarrow> tool_service \<Rightarrow> bool" where
  "has_tool tool s = jhas (ts_tools s) tool"

definition execution_id_for_run :: "string \<Rightarrow> tool_service \<Rightarrow> string option" where
  "execution_id_for_run run s =
     (case jget (ts_policies s) run of None \<Rightarrow> None | Some (_, p) \<Rightarrow> po_execution p)"

text \<open>\<open>le\<close> is \<open>localeCompare\<close> read as "not after".\<close>

definition list_definitions ::
  "(string \<Rightarrow> string \<Rightarrow> bool) \<Rightarrow> string list \<Rightarrow> string list option \<Rightarrow> string option \<Rightarrow> tool_service
    \<Rightarrow> (string \<times> string \<times> jsval) list" where
  "list_definitions le allowed additional run s =
     (let policy = (case run of None \<Rightarrow> None
            | Some r \<Rightarrow> if r = [] then None else map_option snd (jget (ts_policies s) r));
          groups = (case policy of Some p \<Rightarrow> po_groups p
            | None \<Rightarrow> allowed # (case additional of None \<Rightarrow> [] | Some a \<Rightarrow> [a]));
          static = map (\<lambda>(_, _, r). (rt_id r, rt_description r, rt_schema r)) (ts_tools s);
          dynamic = (case policy of None \<Rightarrow> []
            | Some p \<Rightarrow>
                map (\<lambda>(_, _, b). (dd_id (db_definition b), dd_description (db_definition b),
                                   dd_input_schema (db_definition b)))
                  (filter (\<lambda>(_, _, b). dd_model_visible (db_definition b) \<noteq> Some False) (po_dynamic p)))
      in sort_by (\<lambda>x y. le (fst x) (fst y)) (filter (\<lambda>(i, _). is_allowed_by_all i groups) (static @ dynamic)))"

section \<open>Reachable states\<close>

text \<open>
  Any order of the operations. \<open>R\<close> are the provider registrations handed out so far (a prepare loop
  works on a snapshot of them) and \<open>C\<close> the catalogs that providers returned; each is a fresh object.
\<close>

definition registrations :: "tool_service \<Rightarrow> (nat \<times> registered_provider) set" where
  "registrations s = (\<lambda>(i, t, r). (t, r)) ` set (ts_providers s)"

inductive tools_reach :: "tool_service \<Rightarrow> (nat \<times> registered_provider) set \<Rightarrow> nat set \<Rightarrow> bool" where
  tr_new: "tools_reach (new_tool_service cls) {} {}"
| tr_tool: "tools_reach s R C \<Longrightarrow> register_tool plugin tool ws s = Inr (t, s') \<Longrightarrow> tools_reach s' R C"
| tr_dispose_tool: "tools_reach s R C \<Longrightarrow> tools_reach (dispose_tool i t s) R C"
| tr_provider: "tools_reach s R C \<Longrightarrow> register_provider plugin pr ws s = Inr (t, s') \<Longrightarrow>
    tools_reach s' (R \<union> registrations s') C"
| tr_remove: "tools_reach s R C \<Longrightarrow> tools_reach (remove_provider i t s) R C"
| tr_remove_plugin: "tools_reach s R C \<Longrightarrow> tools_reach (remove_plugin_tools plugin s) R C"
| tr_policy: "tools_reach s R C \<Longrightarrow> register_run_policy run owner allowed cx s = Inr (t, s') \<Longrightarrow> tools_reach s' R C"
| tr_dispose_policy: "tools_reach s R C \<Longrightarrow> tools_reach (dispose_policy run t s) R C"
| tr_bind: "tools_reach s R C \<Longrightarrow> bind_execution_classification run owner ex l s = Inr s' \<Longrightarrow> tools_reach s' R C"
| tr_prepare: "tools_reach s R C \<Longrightarrow> prepare_run run s = Inr (st, s') \<Longrightarrow> tools_reach s' R C"
| tr_arrive: "tools_reach s R C \<Longrightarrow> (k, r) \<in> R \<Longrightarrow> ca_id c \<notin> C \<Longrightarrow>
    tools_reach (snd (catalog_arrived run t k r c s)) R (insert (ca_id c) C)"
| tr_finish: "tools_reach s R C \<Longrightarrow> tools_reach (snd (prepare_finish run t done s)) R C"
| tr_class: "tools_reach s R C \<Longrightarrow> tools_reach (s\<lparr>ts_class := cls\<rparr>) R C"

abbreviation pol :: "tool_service \<Rightarrow> string \<Rightarrow> (nat \<times> run_policy) option" where
  "pol s \<equiv> jget (ts_policies s)"

definition cats :: "run_policy \<Rightarrow> nat set" where
  "cats p = cl_catalog ` set (po_catalogs p)"

text \<open>The part about registries: keys, identities, and what a snapshot of a registration is worth.\<close>

datatype token_kind = KTool | KProvider | KPolicy

fun tok :: "tool_service \<Rightarrow> token_kind \<times> string \<Rightarrow> nat option" where
  "tok s (KTool, k) = map_option fst (jget (ts_tools s) k)"
| "tok s (KProvider, k) = map_option fst (jget (ts_providers s) k)"
| "tok s (KPolicy, k) = map_option fst (jget (ts_policies s) k)"

definition registry_inv :: "tool_service \<Rightarrow> (nat \<times> registered_provider) set \<Rightarrow> bool" where
  "registry_inv s R \<longleftrightarrow>
     jkeys_distinct (ts_tools s) \<and> jkeys_distinct (ts_providers s) \<and> jkeys_distinct (ts_policies s) \<and>
     (\<forall>a t. tok s a = Some t \<longrightarrow> t < ts_next s) \<and>
     (\<forall>a b t. tok s a = Some t \<longrightarrow> tok s b = Some t \<longrightarrow> a = b) \<and>
     (\<forall>i t r. jget (ts_providers s) i = Some (t, r) \<longrightarrow> rp_id r = i \<and> t \<notin> ts_aborted s) \<and>
     (\<forall>k r. (k, r) \<in> R \<longrightarrow> k \<in> ts_aborted s \<or> jget (ts_providers s) (rp_id r) = Some (k, r)) \<and>
     (\<forall>k \<in> ts_aborted s. k < ts_next s)"

text \<open>The part about catalogs.\<close>

definition binding_ok :: "run_policy \<Rightarrow> tool_service \<Rightarrow> string \<Rightarrow> dynamic_binding \<Rightarrow> bool" where
  "binding_ok p s i b \<longleftrightarrow> dd_id (db_definition b) = i \<and>
     (\<exists>l \<in> set (po_catalogs p). cl_catalog l = db_catalog b \<and> cl_provider l = db_provider b \<and>
        cl_controller l = db_controller b)"

definition policy_ok :: "tool_service \<Rightarrow> nat set \<Rightarrow> run_policy \<Rightarrow> bool" where
  "policy_ok s C p \<longleftrightarrow>
     jkeys_distinct (po_dynamic p) \<and>
     distinct (map cl_catalog (po_catalogs p)) \<and> cats p \<subseteq> C - ts_closed s \<and>
     (\<forall>l \<in> set (po_catalogs p). \<exists>r. jget (ts_providers s) (cl_provider l) = Some (cl_controller l, r)) \<and>
     (\<forall>i n b. jget (po_dynamic p) i = Some (n, b) \<longrightarrow> binding_ok p s i b)"

definition catalogs_inv :: "tool_service \<Rightarrow> nat set \<Rightarrow> bool" where
  "catalogs_inv s C \<longleftrightarrow>
     distinct (ts_closes s) \<and> set (ts_closes s) = ts_closed s \<and> ts_closed s \<subseteq> C \<and>
     (\<forall>run t p. pol s run = Some (t, p) \<longrightarrow> policy_ok s C p) \<and>
     (\<forall>run run' t t' p p'. pol s run = Some (t, p) \<longrightarrow> pol s run' = Some (t', p') \<longrightarrow>
        cats p \<inter> cats p' \<noteq> {} \<longrightarrow> run = run')"

definition tools_inv :: "tool_service \<Rightarrow> (nat \<times> registered_provider) set \<Rightarrow> nat set \<Rightarrow> bool" where
  "tools_inv s R C \<longleftrightarrow> registry_inv s R \<and> catalogs_inv s C"

lemma tools_inv_new: "tools_inv (new_tool_service cls) {} {}"
proof -
  have "tok (new_tool_service cls) a = None" for a
    by (cases "(new_tool_service cls, a)" rule: tok.cases) (simp_all add: new_tool_service_def)
  then show ?thesis
    by (simp add: tools_inv_def registry_inv_def catalogs_inv_def) (simp add: new_tool_service_def)
qed

lemma close_lease_simps [simp]:
  "ts_tools (close_lease c s) = ts_tools s" "ts_providers (close_lease c s) = ts_providers s"
  "ts_policies (close_lease c s) = ts_policies s" "ts_aborted (close_lease c s) = ts_aborted s"
  "ts_class (close_lease c s) = ts_class s" "ts_next (close_lease c s) = ts_next s"
  "ts_closed (close_lease c s) = insert c (ts_closed s)"
  by (auto simp: close_lease_def)

lemma close_leases_simps [simp]:
  "ts_tools (close_leases ls s) = ts_tools s" "ts_providers (close_leases ls s) = ts_providers s"
  "ts_policies (close_leases ls s) = ts_policies s" "ts_aborted (close_leases ls s) = ts_aborted s"
  "ts_class (close_leases ls s) = ts_class s" "ts_next (close_leases ls s) = ts_next s"
  "ts_closed (close_leases ls s) = cl_catalog ` set ls \<union> ts_closed s"
  unfolding close_leases_def by (induction ls arbitrary: s) auto

lemma close_lease_log:
  assumes "distinct (ts_closes s)" and "set (ts_closes s) = ts_closed s"
  shows "distinct (ts_closes (close_lease c s))" and "set (ts_closes (close_lease c s)) = ts_closed (close_lease c s)"
  using assms by (auto simp: close_lease_def)

lemma close_leases_log:
  assumes "distinct (ts_closes s)" and "set (ts_closes s) = ts_closed s"
  shows "distinct (ts_closes (close_leases ls s)) \<and> set (ts_closes (close_leases ls s)) = ts_closed (close_leases ls s)"
  using assms unfolding close_leases_def
proof (induction ls arbitrary: s)
  case (Cons l ls)
  from Cons.IH [OF close_lease_log [OF Cons.prems, of "cl_catalog l"]] show ?case by simp
qed simp

text \<open>Only the dynamic tools, the leases and the providers matter to the catalogs.\<close>

definition same_policies :: "tool_service \<Rightarrow> tool_service \<Rightarrow> bool" where
  "same_policies s s' \<longleftrightarrow>
     ts_providers s' = ts_providers s \<and> ts_closed s' = ts_closed s \<and> ts_closes s' = ts_closes s \<and>
     (\<forall>run t p'. pol s' run = Some (t, p') \<longrightarrow>
        (\<exists>t p. pol s run = Some (t, p) \<and> po_dynamic p' = po_dynamic p \<and> po_catalogs p' = po_catalogs p) \<or>
        po_dynamic p' = [] \<and> po_catalogs p' = [])"

lemma policy_ok_core:
  assumes "po_dynamic p' = po_dynamic p" and "po_catalogs p' = po_catalogs p"
    and "ts_providers s' = ts_providers s" and "ts_closed s' = ts_closed s"
  shows "policy_ok s' C p' = policy_ok s C p" "cats p' = cats p"
  using assms by (simp_all add: policy_ok_def binding_ok_def cats_def)

lemma policy_ok_empty: "po_dynamic p = [] \<Longrightarrow> po_catalogs p = [] \<Longrightarrow> policy_ok s C p"
  "po_catalogs p = [] \<Longrightarrow> cats p = {}"
  by (simp_all add: policy_ok_def cats_def)

lemma catalogs_inv_same:
  assumes "catalogs_inv s C" and "same_policies s s'"
  shows "catalogs_inv s' C"
proof -
  have e: "ts_providers s' = ts_providers s" "ts_closed s' = ts_closed s" "ts_closes s' = ts_closes s"
    using assms(2) by (simp_all add: same_policies_def)
  have src: "(\<exists>t p. pol s run = Some (t, p) \<and> po_dynamic p' = po_dynamic p \<and> po_catalogs p' = po_catalogs p) \<or>
      po_dynamic p' = [] \<and> po_catalogs p' = []" if "pol s' run = Some (t, p')" for run t p'
    using assms(2) that unfolding same_policies_def by blast
  have ok: "policy_ok s' C p'" if "pol s' run = Some (t, p')" for run t p'
    using src [OF that] assms(1) policy_ok_core(1) [of p' _ s' s C] policy_ok_empty(1) e
    unfolding catalogs_inv_def by metis
  have origin: "\<exists>t1 p1. pol s run = Some (t1, p1) \<and> cats p = cats p1"
    if "pol s' run = Some (t, p)" "cats p \<noteq> {}" for run t p
    using src [OF that(1)] that(2) unfolding cats_def by (metis empty_set image_empty)
  have "run = run'" if "pol s' run = Some (t, p)" "pol s' run' = Some (t', p')" "cats p \<inter> cats p' \<noteq> {}" for run run' t t' p p'
  proof -
    have "cats p \<noteq> {}" "cats p' \<noteq> {}" using that(3) by auto
    with origin [OF that(1)] origin [OF that(2)] that(3) assms(1) show ?thesis
      unfolding catalogs_inv_def by metis
  qed
  with ok assms(1) e show ?thesis unfolding catalogs_inv_def by metis
qed

lemma registry_keys:
  assumes "registry_inv s R"
  shows "jkeys_distinct (ts_tools s)" "jkeys_distinct (ts_providers s)" "jkeys_distinct (ts_policies s)"
  using assms unfolding registry_inv_def by blast+

lemma registry_tok:
  assumes "registry_inv s R"
  shows "tok s a = Some t \<Longrightarrow> t < ts_next s" "tok s a = Some t \<Longrightarrow> tok s b = Some t \<Longrightarrow> a = b"
    "tok s a = Some t \<Longrightarrow> a \<noteq> b \<Longrightarrow> tok s b \<noteq> Some t"
  using assms unfolding registry_inv_def by blast+

lemma registry_provider:
  assumes "registry_inv s R" and "jget (ts_providers s) i = Some (t, r)"
  shows "rp_id r = i" "t \<notin> ts_aborted s"
  using assms unfolding registry_inv_def by blast+

text \<open>How an operation may change the registries: entries go, at most one fresh entry comes.\<close>

lemma registry_step:
  assumes "registry_inv s R"
    and "jkeys_distinct (ts_tools s')" "jkeys_distinct (ts_providers s')" "jkeys_distinct (ts_policies s')"
    and "\<And>a t. tok s' a = Some t \<Longrightarrow> tok s a = Some t \<or> a = fresh \<and> t = ts_next s \<and> ts_next s < ts_next s'"
    and "\<And>i t r. jget (ts_providers s') i = Some (t, r) \<Longrightarrow>
      jget (ts_providers s) i = Some (t, r) \<or> rp_id r = i \<and> t = ts_next s"
    and "ts_aborted s' = ts_aborted s \<union> A" and "\<And>i t. tok s' (KProvider, i) = Some t \<Longrightarrow> t \<notin> A"
    and "\<And>k. k \<in> A \<Longrightarrow> k < ts_next s" and "ts_next s \<le> ts_next s'"
    and "\<And>k r. (k, r) \<in> R' \<Longrightarrow> (k, r) \<in> R \<and> (jget (ts_providers s) (rp_id r) = Some (k, r) \<longrightarrow>
        k \<in> A \<or> jget (ts_providers s') (rp_id r) = Some (k, r)) \<or>
      jget (ts_providers s') (rp_id r) = Some (k, r)"
  shows "registry_inv s' R'"
proof -
  have i1: "tok s a = Some t \<Longrightarrow> t < ts_next s" for a t
    using assms(1) unfolding registry_inv_def by blast
  have i2: "tok s a = Some t \<Longrightarrow> tok s b = Some t \<Longrightarrow> a = b" for a b t
    using assms(1) unfolding registry_inv_def by blast
  have i3: "jget (ts_providers s) i = Some (t, r) \<Longrightarrow> rp_id r = i \<and> t \<notin> ts_aborted s" for i t r
    using assms(1) unfolding registry_inv_def by blast
  have i4: "(k, r) \<in> R \<Longrightarrow> k \<in> ts_aborted s \<or> jget (ts_providers s) (rp_id r) = Some (k, r)" for k r
    using assms(1) unfolding registry_inv_def by blast
  have i5: "k \<in> ts_aborted s \<Longrightarrow> k < ts_next s" for k
    using assms(1) unfolding registry_inv_def by blast
  have c1: "t < ts_next s'" if "tok s' a = Some t" for a t
    using assms(5) [OF that] i1 assms(10) by (metis less_le_trans)
  have c2: "a = b" if "tok s' a = Some t" "tok s' b = Some t" for a b t
    using assms(5) [OF that(1)] assms(5) [OF that(2)] i1 i2 by (metis less_irrefl)
  have c3: "rp_id r = i \<and> t \<notin> ts_aborted s'" if "jget (ts_providers s') i = Some (t, r)" for i t r
  proof -
    have "tok s' (KProvider, i) = Some t" using that by simp
    then have "t \<notin> A" by (rule assms(8))
    then show ?thesis using assms(6) [OF that] i3 i5 assms(7) by (metis UnE less_irrefl)
  qed
  have c4: "k \<in> ts_aborted s' \<or> jget (ts_providers s') (rp_id r) = Some (k, r)" if "(k, r) \<in> R'" for k r
    using assms(11) [OF that] i4 assms(7) by blast
  have c5: "k < ts_next s'" if "k \<in> ts_aborted s'" for k
    using that assms(7,9,10) i5 by (metis UnE less_le_trans)
  show ?thesis
    unfolding registry_inv_def using assms(2-4) c1 c2 c3 c4 c5 by blast
qed

lemma tok_policies: "(\<And>run. map_option fst (pol s' run) = map_option fst (pol s run)) \<Longrightarrow>
    ts_tools s' = ts_tools s \<Longrightarrow> ts_providers s' = ts_providers s \<Longrightarrow> tok s' a = tok s a"
  by (cases "(s, a)" rule: tok.cases) simp_all

lemma tools_inv_tool:
  assumes "tools_inv s R C" and "register_tool plugin tool ws s = Inr (t, s')"
  shows "tools_inv s' R C"
proof -
  obtain r where s': "s' = s\<lparr>ts_tools := jset (the_str (tc_id tool)) (ts_next s, r) (ts_tools s), ts_next := Suc (ts_next s)\<rparr>"
    using assms(2) by (auto simp: register_tool_def Let_def rbind_Inr split: option.splits if_splits sum.splits)
  have "same_policies s s'" by (auto simp: s' same_policies_def)
  with assms(1) have "catalogs_inv s' C" by (auto simp: tools_inv_def intro: catalogs_inv_same)
  moreover have "registry_inv s' R"
  proof (rule registry_step [where s = s and A = "{}" and fresh = "(KTool, the_str (tc_id tool))"])
    show "tok s' a = Some t \<Longrightarrow> tok s a = Some t \<or> a = (KTool, the_str (tc_id tool)) \<and> t = ts_next s \<and> ts_next s < ts_next s'"
      for a t by (cases "(s, a)" rule: tok.cases) (auto simp: s' split: if_splits)
    show "registry_inv s R" using assms(1) by (simp add: tools_inv_def)
    from registry_keys [OF this] show "jkeys_distinct (ts_tools s')" "jkeys_distinct (ts_providers s')"
      "jkeys_distinct (ts_policies s')" by (simp_all add: s' jset_distinct)
  qed (simp_all add: s')
  ultimately show ?thesis by (simp add: tools_inv_def)
qed

lemma tools_inv_policies:
  assumes "tools_inv s R C" and "same_policies s s'" and "ts_tools s' = ts_tools s"
    and "ts_aborted s' = ts_aborted s" and "jkeys_distinct (ts_policies s')" and "ts_next s \<le> ts_next s'"
    and "\<And>run t p'. pol s' run = Some (t, p') \<Longrightarrow>
      (\<exists>p. pol s run = Some (t, p)) \<or> run = run0 \<and> t = ts_next s \<and> ts_next s < ts_next s'"
  shows "tools_inv s' R C"
proof -
  have r: "registry_inv s R" and c: "catalogs_inv s C" using assms(1) by (simp_all add: tools_inv_def)
  have pr: "ts_providers s' = ts_providers s" using assms(2) by (simp add: same_policies_def)
  have "registry_inv s' R"
  proof (rule registry_step [where s = s and A = "{}" and fresh = "(KPolicy, run0)"])
    show "tok s' a = Some t \<Longrightarrow> tok s a = Some t \<or> a = (KPolicy, run0) \<and> t = ts_next s \<and> ts_next s < ts_next s'"
      for a t using assms(3,7) pr by (cases "(s, a)" rule: tok.cases) force+
  qed (use r registry_keys [OF r] assms pr in auto)
  with catalogs_inv_same [OF c assms(2)] show ?thesis by (simp add: tools_inv_def)
qed

lemma tools_inv_class: "tools_inv s R C \<Longrightarrow> tools_inv (s\<lparr>ts_class := cls\<rparr>) R C"
  by (rule tools_inv_policies) (auto simp: same_policies_def tools_inv_def dest: registry_keys)

lemma tools_inv_policy:
  assumes "tools_inv s R C" and "register_run_policy run owner allowed cx s = Inr (t, s')"
  shows "tools_inv s' R C"
proof -
  have "\<exists>p. po_dynamic p = [] \<and> po_catalogs p = [] \<and> ts_policies s' = jset run (ts_next s, p) (ts_policies s) \<and>
      ts_tools s' = ts_tools s \<and> ts_providers s' = ts_providers s \<and> ts_aborted s' = ts_aborted s \<and>
      ts_closed s' = ts_closed s \<and> ts_closes s' = ts_closes s \<and> ts_next s' = Suc (ts_next s)"
    using assms(2) unfolding register_run_policy_def
    by (auto simp: rbind_Inr Let_def split: if_splits option.splits sum.splits prod.splits intro!: exI)
  then obtain p where p: "po_dynamic p = []" "po_catalogs p = []" "ts_policies s' = jset run (ts_next s, p) (ts_policies s)"
      "ts_tools s' = ts_tools s" "ts_providers s' = ts_providers s" "ts_aborted s' = ts_aborted s"
      "ts_closed s' = ts_closed s" "ts_closes s' = ts_closes s" "ts_next s' = Suc (ts_next s)" by blast
  have "same_policies s s'" unfolding same_policies_def using p by auto
  then show ?thesis
    using assms(1) p registry_keys(3) [of s R]
    by (intro tools_inv_policies [OF assms(1), of s' run]) (auto simp: tools_inv_def jset_distinct split: if_splits)
qed

lemma tools_inv_update:
  assumes "tools_inv s R C" and "pol s run = Some (t, p)" and "po_dynamic p' = po_dynamic p"
    and "po_catalogs p' = po_catalogs p"
  shows "tools_inv (s\<lparr>ts_policies := jset run (t, p') (ts_policies s)\<rparr>) R C"
  by (rule tools_inv_policies [OF assms(1)])
    (use assms in \<open>auto simp: same_policies_def tools_inv_def jset_distinct dest: registry_keys split: if_splits\<close>)

lemma tools_inv_bind:
  assumes "tools_inv s R C" and "bind_execution_classification run owner ex l s = Inr s'"
  shows "tools_inv s' R C"
proof -
  obtain t p where p: "pol s run = Some (t, p)"
    using assms(2) by (cases "pol s run") (auto simp: bind_execution_classification_def)
  then consider (same) "s' = s" | (cls) c where "s' = s\<lparr>ts_class := Some c\<rparr>"
    | (opened) c h where "s' = s\<lparr>ts_class := Some c, ts_policies := jset run (t, p\<lparr>po_class_run := Some h\<rparr>) (ts_policies s)\<rparr>"
    using assms(2) by (auto simp: bind_execution_classification_def split: if_splits option.splits sum.splits)
  then show ?thesis
  proof cases
    case (opened c h)
    show ?thesis
      unfolding opened using tools_inv_update [OF tools_inv_class [OF assms(1), of "Some c"], of run t p] p by simp
  qed (use assms(1) tools_inv_class in simp_all)
qed

lemma tools_inv_prepare:
  assumes "tools_inv s R C" and "prepare_run run s = Inr (st, s')"
  shows "tools_inv s' R C"
proof -
  obtain t p where p: "pol s run = Some (t, p)" using assms(2) by (cases "pol s run") (auto simp: prepare_run_def)
  have "tools_inv (s\<lparr>ts_policies := jset run (t, p\<lparr>po_preparing := True\<rparr>) (ts_policies s)\<rparr>) R C"
    by (rule tools_inv_update [OF assms(1) p]) simp_all
  with assms p show ?thesis by (auto simp: prepare_run_def split: if_splits)
qed

lemma tools_inv_finish:
  assumes "tools_inv s R C"
  shows "tools_inv (snd (prepare_finish run t done s)) R C"
proof (cases "pol s run")
  case (Some x)
  obtain t' p where x: "x = (t', p)" by (cases x)
  have "tools_inv (s\<lparr>ts_policies := jset run
      (t', p\<lparr>po_prepared := done \<or> po_prepared p, po_preparing := False\<rparr>) (ts_policies s)\<rparr>) R C"
    using Some x by (intro tools_inv_update [OF assms, of run t' p]) simp_all
  with assms Some x show ?thesis by (auto simp: prepare_finish_def)
qed (simp add: prepare_finish_def assms)

text \<open>Fewer tools, with some identities aborted that no provider has.\<close>

lemma tools_inv_fewer_tools:
  assumes "tools_inv s R C" and "jkeys_distinct ts"
    and "\<And>i t r. jget ts i = Some (t, r) \<Longrightarrow> jget (ts_tools s) i = Some (t, r)"
    and "\<And>t. t \<in> A \<Longrightarrow> \<exists>i. tok s (KTool, i) = Some t"
  shows "tools_inv (s\<lparr>ts_tools := ts, ts_aborted := ts_aborted s \<union> A\<rparr>) R C"
proof -
  let ?s = "s\<lparr>ts_tools := ts, ts_aborted := ts_aborted s \<union> A\<rparr>"
  have r: "registry_inv s R" and c: "catalogs_inv s C" using assms(1) by (simp_all add: tools_inv_def)
  have "registry_inv ?s R"
  proof (rule registry_step [where s = s and A = A])
    show "tok ?s a = Some t \<Longrightarrow> tok s a = Some t \<or> a = undefined \<and> t = ts_next s \<and> ts_next s < ts_next ?s" for a t
      using assms(3) by (cases "(s, a)" rule: tok.cases) force+
    show "t \<notin> A" if "tok ?s (KProvider, i) = Some t" for i t
      using assms(4) [of t] registry_tok(2) [OF r, of "(KProvider, i)" t] that by fastforce
    show "k < ts_next s" if "k \<in> A" for k
      using assms(4) [OF that] registry_tok(1) [OF r] by blast
  qed (use r registry_keys [OF r] assms(2) in auto)
  moreover have "catalogs_inv ?s C"
    by (rule catalogs_inv_same [OF c]) (auto simp: same_policies_def)
  ultimately show ?thesis by (simp add: tools_inv_def)
qed

lemma tools_inv_dispose_tool:
  assumes "tools_inv s R C"
  shows "tools_inv (dispose_tool i t s) R C"
proof (cases "tok s (KTool, i) = Some t")
  case True
  then have "dispose_tool i t s = s\<lparr>ts_tools := jdel i (ts_tools s), ts_aborted := ts_aborted s \<union> {t}\<rparr>"
    by (auto simp: dispose_tool_def)
  moreover have "tools_inv (s\<lparr>ts_tools := jdel i (ts_tools s), ts_aborted := ts_aborted s \<union> {t}\<rparr>) R C"
    using assms True registry_keys(1) [of s R]
    by (intro tools_inv_fewer_tools) (auto simp: tools_inv_def jdel_distinct split: if_splits)
  ultimately show ?thesis by simp
next
  case False
  then have "dispose_tool i t s = s" by (auto simp: dispose_tool_def split: option.splits)
  with assms show ?thesis by simp
qed

lemma tools_inv_provider:
  assumes "tools_inv s R C" and "register_provider plugin pr ws s = Inr (t, s')"
  shows "tools_inv s' (R \<union> registrations s') C"
proof -
  let ?i = "the_str (pc_id pr)"
  obtain r where s': "s' = s\<lparr>ts_providers := jset ?i (ts_next s, r) (ts_providers s), ts_next := Suc (ts_next s)\<rparr>"
    and i: "rp_id r = ?i" and new: "jget (ts_providers s) ?i = None"
    using assms(2) by (cases "jget (ts_providers s) ?i") (auto simp: register_provider_def Let_def split: if_splits)
  have r: "registry_inv s R" and c: "catalogs_inv s C" using assms(1) by (simp_all add: tools_inv_def)
  have keys: "jkeys_distinct (ts_providers s')" using registry_keys(2) [OF r] by (simp add: s' jset_distinct)
  have provs: "jget (ts_providers s) j = Some (u, q) \<Longrightarrow> jget (ts_providers s') j = Some (u, q)" for j u q
    using new by (auto simp: s')
  have "registry_inv s' (R \<union> registrations s')"
  proof (rule registry_step [where s = s and A = "{}" and fresh = "(KProvider, ?i)" and R = R])
    show "tok s' a = Some u \<Longrightarrow> tok s a = Some u \<or> a = (KProvider, ?i) \<and> u = ts_next s \<and> ts_next s < ts_next s'" for a u
      by (cases "(s, a)" rule: tok.cases) (auto simp: s' split: if_splits)
    show "(k, q) \<in> R \<and> (jget (ts_providers s) (rp_id q) = Some (k, q) \<longrightarrow>
        k \<in> {} \<or> jget (ts_providers s') (rp_id q) = Some (k, q)) \<or> jget (ts_providers s') (rp_id q) = Some (k, q)"
      if m: "(k, q) \<in> R \<union> registrations s'" for k q
    proof (cases "(k, q) \<in> R")
      case False
      with m have "(k, q) \<in> registrations s'" by blast
      then obtain j where "(j, k, q) \<in> set (ts_providers s')" by (auto simp: registrations_def)
      then have g: "jget (ts_providers s') j = Some (k, q)" using keys by simp
      then have "rp_id q = j" using registry_provider(1) [OF r] i by (auto simp: s' split: if_splits)
      with g show ?thesis by simp
    qed (use provs m in simp)
  qed (use r registry_keys [OF r] i keys in \<open>auto simp: s' split: if_splits\<close>)
  moreover have "catalogs_inv s' C"
  proof -
    have "policy_ok s' C p" if "policy_ok s C p" for p
      using that provs unfolding policy_ok_def binding_ok_def by (simp add: s') (metis (no_types) new option.distinct(1))
    then show ?thesis using c unfolding catalogs_inv_def by (simp add: s')
  qed
  ultimately show ?thesis by (simp add: tools_inv_def)
qed

text \<open>Closing leases whose catalogs no remaining policy holds.\<close>

lemma policy_ok_closed:
  assumes "policy_ok s C p" and "po_dynamic p' = po_dynamic p" and "po_catalogs p' = po_catalogs p"
    and "ts_providers s' = ts_providers s" and "cats p \<inter> ts_closed s' = {}" and "C \<subseteq> C'"
  shows "policy_ok s' C' p'"
  using assms unfolding policy_ok_def binding_ok_def cats_def by auto

lemma catalogs_inv_closing:
  assumes "catalogs_inv s C" and "ls = po_catalogs p0" and "pol s run0 = Some (t0, p0)"
  shows "catalogs_inv (close_leases ls (s\<lparr>ts_policies := jdel run0 (ts_policies s), ts_aborted := ab\<rparr>)) C"
proof -
  let ?s1 = "s\<lparr>ts_policies := jdel run0 (ts_policies s), ts_aborted := ab\<rparr>"
  let ?s' = "close_leases ls ?s1"
  have log: "distinct (ts_closes ?s')" "set (ts_closes ?s') = ts_closed ?s'"
    using close_leases_log [of ?s1 ls] assms(1) by (simp_all add: catalogs_inv_def)
  have ok0: "policy_ok s C p0" and ok: "pol s run = Some (t, p) \<Longrightarrow> policy_ok s C p" for run t p
    using assms(1,3) unfolding catalogs_inv_def by blast+
  have sub: "ts_closed ?s' \<subseteq> C"
    using assms(1,2) ok0 by (auto simp: catalogs_inv_def policy_ok_def cats_def)
  have "policy_ok ?s' C p" if p: "pol ?s' run = Some (t, p)" for run t p
  proof -
    have q: "pol s run = Some (t, p)" "run \<noteq> run0" using p by (simp_all split: if_splits)
    have "cats p \<inter> cats p0 = {}" using assms(1,3) q unfolding catalogs_inv_def by blast
    moreover have "cats p \<inter> ts_closed s = {}" using ok [OF q(1)] by (auto simp: policy_ok_def)
    ultimately have "cats p \<inter> ts_closed ?s' = {}" using assms(2) by (auto simp: cats_def)
    then show ?thesis by (intro policy_ok_closed [OF ok [OF q(1)]]) simp_all
  qed
  moreover have "run = run'" if "pol ?s' run = Some (t, p)" "pol ?s' run' = Some (t', p')" "cats p \<inter> cats p' \<noteq> {}"
    for run run' t t' p p'
    using that assms(1) unfolding catalogs_inv_def by (simp split: if_splits)
  ultimately show ?thesis unfolding catalogs_inv_def using log sub by blast
qed

lemma tools_inv_dispose_policy:
  assumes "tools_inv s R C"
  shows "tools_inv (dispose_policy run t s) R C"
proof (cases "tok s (KPolicy, run) = Some t")
  case True
  then obtain p where p: "pol s run = Some (t, p)" by auto
  let ?s0 = "s\<lparr>ts_policies := jdel run (ts_policies s), ts_aborted := ts_aborted s \<union> {t}\<rparr>"
  let ?s1 = "close_leases (po_catalogs p) ?s0"
  have eq: "\<exists>cls. dispose_policy run t s = ?s1\<lparr>ts_class := cls\<rparr>"
    using p by (auto simp: dispose_policy_def Let_def)
  have r: "registry_inv s R" and c: "catalogs_inv s C" using assms by (simp_all add: tools_inv_def)
  have "registry_inv ?s1 R"
  proof (rule registry_step [where s = s and A = "{t}"])
    show "tok ?s1 a = Some u \<Longrightarrow> tok s a = Some u \<or> a = undefined \<and> u = ts_next s \<and> ts_next s < ts_next ?s1" for a u
      by (cases "(s, a)" rule: tok.cases) (auto split: if_splits)
    show "u \<notin> {t}" if "tok ?s1 (KProvider, i) = Some u" for i u
      using registry_tok(2) [OF r True, of "(KProvider, i)"] that by auto
    show "k \<in> {t} \<Longrightarrow> k < ts_next s" for k using registry_tok(1) [OF r True] by simp
  qed (use r registry_keys [OF r] in \<open>auto simp: jdel_distinct\<close>)
  moreover have "catalogs_inv ?s1 C" by (rule catalogs_inv_closing [OF c refl p])
  ultimately have "tools_inv ?s1 R C" by (simp add: tools_inv_def)
  with eq tools_inv_class show ?thesis by metis
next
  case False
  then have "dispose_policy run t s = s" by (auto simp: dispose_policy_def split: option.splits)
  with assms show ?thesis by simp
qed

lemma jget_map_snd: "jget (map (\<lambda>(r, q, p). (r, q, f p)) m) k = map_option (\<lambda>(q, p). (q, f p)) (jget m k)"
  by (induction m) auto

lemma keys_map_snd: "map fst (map (\<lambda>(r, q, p). (r, q, f p)) m) = map fst m"
  by (induction m) auto

lemma disjoint_images:
  "X \<inter> B = {} \<Longrightarrow> (\<And>l. l \<in> S \<Longrightarrow> f l \<notin> X) \<Longrightarrow> X \<inter> (f ` S \<union> B) = {}"
  by auto

lemma fst_map_snd: "fst \<circ> (\<lambda>(r, q, p). (r, q, f p)) = fst"
  by auto

lemma strip_policy_cats: "l \<in> set (po_catalogs (strip_policy i p)) \<longleftrightarrow> l \<in> set (po_catalogs p) \<and> cl_provider l \<noteq> i"
  by (auto simp: strip_policy_def)

lemma cats_strip: "cats (strip_policy i p) \<subseteq> cats p"
  by (auto simp: cats_def strip_policy_def)

lemma jget_jfilter_Some:
  "jkeys_distinct m \<Longrightarrow> jget (jfilter q m) k = Some v \<Longrightarrow> jget m k = Some v \<and> q k v"
  by (auto simp: jget_jfilter split: option.splits if_splits)

text \<open>Stripping a provider from a policy whose remaining catalogs stay open.\<close>

lemma policy_ok_strip:
  assumes "policy_ok s C p" and "\<And>j. j \<noteq> i \<Longrightarrow> jget (ts_providers s') j = jget (ts_providers s) j"
    and "cats (strip_policy i p) \<inter> ts_closed s' = {}"
  shows "policy_ok s' C (strip_policy i p)"
proof -
  have keys: "jkeys_distinct (po_dynamic p)" and d: "distinct (map cl_catalog (po_catalogs p))" and sub: "cats p \<subseteq> C"
    and l: "\<And>l. l \<in> set (po_catalogs p) \<Longrightarrow> \<exists>r. jget (ts_providers s) (cl_provider l) = Some (cl_controller l, r)"
    and b: "\<And>j n b. jget (po_dynamic p) j = Some (n, b) \<Longrightarrow> binding_ok p s j b"
    using assms(1) unfolding policy_ok_def by blast+
  have "jkeys_distinct (po_dynamic (strip_policy i p))" using keys by (simp add: strip_policy_def jfilter_distinct)
  moreover have "distinct (map cl_catalog (po_catalogs (strip_policy i p)))"
    using d by (simp add: strip_policy_def distinct_map_filter)
  moreover have "cats (strip_policy i p) \<subseteq> C - ts_closed s'" using sub cats_strip assms(3) by blast
  moreover have "\<exists>r. jget (ts_providers s') (cl_provider x) = Some (cl_controller x, r)"
    if "x \<in> set (po_catalogs (strip_policy i p))" for x
    using that l assms(2) by (simp add: strip_policy_cats)
  moreover have "binding_ok (strip_policy i p) s' j x" if "jget (po_dynamic (strip_policy i p)) j = Some (n, x)" for j n x
  proof -
    have "jget (po_dynamic p) j = Some (n, x)" "db_provider x \<noteq> i"
      using that jget_jfilter_Some [OF keys] by (fastforce simp: strip_policy_def)+
    with b show ?thesis unfolding binding_ok_def strip_policy_cats Bex_def by metis
  qed
  ultimately show ?thesis unfolding policy_ok_def by blast
qed

lemma tools_inv_remove_provider:
  assumes "tools_inv s R C"
  shows "tools_inv (remove_provider i t s) R C"
proof (cases "tok s (KProvider, i) = Some t")
  case True
  let ?L = "concat (map (\<lambda>(_, _, p). leases_of i p) (ts_policies s))"
  let ?s0 = "s\<lparr>ts_providers := jdel i (ts_providers s), ts_aborted := ts_aborted s \<union> {t},
      ts_policies := map (\<lambda>(r, q, p). (r, q, strip_policy i p)) (ts_policies s)\<rparr>"
  let ?s' = "close_leases ?L ?s0"
  have eq: "remove_provider i t s = ?s'" using True by (auto simp: remove_provider_def)
  have r: "registry_inv s R" and c: "catalogs_inv s C" using assms by (simp_all add: tools_inv_def)
  note keys = registry_keys [OF r]
  have pols: "pol ?s' run = map_option (\<lambda>(q, p). (q, strip_policy i p)) (pol s run)" for run
    by (simp add: jget_map_snd)
  have "registry_inv ?s' R"
  proof (rule registry_step [where s = s and A = "{t}"])
    show "tok ?s' a = Some u \<Longrightarrow> tok s a = Some u \<or> a = undefined \<and> u = ts_next s \<and> ts_next s < ts_next ?s'" for a u
      by (cases "(s, a)" rule: tok.cases) (auto simp: jget_map_snd split: if_splits)
    show "u \<notin> {t}" if "tok ?s' (KProvider, j) = Some u" for j u
      using registry_tok(2) [OF r True, of "(KProvider, j)"] that by (auto split: if_splits)
    show "k \<in> {t} \<Longrightarrow> k < ts_next s" for k using registry_tok(1) [OF r True] by simp
    show "(k, q) \<in> R \<and> (jget (ts_providers s) (rp_id q) = Some (k, q) \<longrightarrow>
        k \<in> {t} \<or> jget (ts_providers ?s') (rp_id q) = Some (k, q)) \<or> jget (ts_providers ?s') (rp_id q) = Some (k, q)"
      if "(k, q) \<in> R" for k q
      using that True by auto
  qed (use r keys in \<open>auto simp: jdel_distinct keys_map_snd fst_map_snd split: if_splits\<close>)
  moreover have "catalogs_inv ?s' C"
  proof -
    have ok: "pol s run = Some (u, p) \<Longrightarrow> policy_ok s C p" for run u p
      using c unfolding catalogs_inv_def by blast
    have disj: "pol s run = Some (u, p) \<Longrightarrow> pol s run' = Some (u', p') \<Longrightarrow> cats p \<inter> cats p' \<noteq> {} \<Longrightarrow> run = run'"
      for run run' u u' p p' using c unfolding catalogs_inv_def by blast
    have L: "\<exists>run u p. pol s run = Some (u, p) \<and> l \<in> set (po_catalogs p) \<and> cl_provider l = i" if "l \<in> set ?L" for l
      using that keys(3) by (auto simp: leases_of_def) (metis map_of_is_SomeI)
    have closed: "cats (strip_policy i p) \<inter> ts_closed ?s' = {}" if p: "pol s run = Some (u, p)" for run u p
    proof -
      have "cats (strip_policy i p) \<inter> ts_closed s = {}"
        using ok [OF p] cats_strip [of i p] unfolding policy_ok_def by blast
      moreover have "cl_catalog l \<notin> cats (strip_policy i p)" if l: "l \<in> set ?L" for l
      proof
        assume "cl_catalog l \<in> cats (strip_policy i p)"
        then obtain l' where l': "l' \<in> set (po_catalogs p)" "cl_provider l' \<noteq> i" "cl_catalog l' = cl_catalog l"
          by (auto simp: cats_def strip_policy_cats)
        obtain run' u' p' where p': "pol s run' = Some (u', p')" "l \<in> set (po_catalogs p')" "cl_provider l = i"
          using L [OF l] by blast
        have "cl_catalog l \<in> cats p" using imageI [OF l'(1), of cl_catalog] l'(3) by (simp add: cats_def)
        moreover have "cl_catalog l \<in> cats p'" using p'(2) by (simp add: cats_def)
        ultimately have "run = run'" using disj [OF p p'(1)] by blast
        then have "p = p'" using p p'(1) by simp
        then have "l = l'" using ok [OF p] l'(1,3) p'(2) unfolding policy_ok_def distinct_map inj_on_def by metis
        then show False using l'(2) p'(3) by simp
      qed
      ultimately have "cats (strip_policy i p) \<inter> (cl_catalog ` set ?L \<union> ts_closed s) = {}"
        by (intro disjoint_images)
      moreover have "ts_closed ?s' = cl_catalog ` set ?L \<union> ts_closed s" by simp
      ultimately show ?thesis by (simp only:)
    qed
    have "policy_ok ?s' C p'" if p': "pol ?s' run = Some (u, p')" for run u p'
    proof -
      obtain p where p: "pol s run = Some (u, p)" "p' = strip_policy i p" using p' pols by auto
      show ?thesis unfolding p(2) by (rule policy_ok_strip [OF ok [OF p(1)] _ closed [OF p(1)]]) simp
    qed
    moreover have "run = run'" if two: "pol ?s' run = Some (u, p)" "pol ?s' run' = Some (u', p')" "cats p \<inter> cats p' \<noteq> {}"
      for run run' u u' p p'
    proof -
      obtain q q' where q: "pol s run = Some (u, q)" "p = strip_policy i q" "pol s run' = Some (u', q')" "p' = strip_policy i q'"
        using two(1,2) pols by auto
      have "cats q \<inter> cats q' \<noteq> {}" using two(3) cats_strip q(2,4) by blast
      with disj [OF q(1,3)] show ?thesis by blast
    qed
    moreover have "distinct (ts_closes ?s')" "set (ts_closes ?s') = ts_closed ?s'"
      using close_leases_log [of ?s0 ?L] c by (simp_all add: catalogs_inv_def)
    moreover have "ts_closed ?s' \<subseteq> C"
    proof -
      have "cl_catalog ` set ?L \<subseteq> C"
      proof (rule image_subsetI)
        show "cl_catalog l \<in> C" if "l \<in> set ?L" for l
          using L [OF that] ok unfolding policy_ok_def cats_def by blast
      qed
      moreover have "ts_closed s \<subseteq> C" using c by (simp add: catalogs_inv_def)
      moreover have "ts_closed ?s' = cl_catalog ` set ?L \<union> ts_closed s" by simp
      ultimately show ?thesis by (simp only: Un_subset_iff)
    qed
    ultimately show ?thesis unfolding catalogs_inv_def by blast
  qed
  ultimately show ?thesis unfolding eq by (simp add: tools_inv_def)
next
  case False
  then have "remove_provider i t s = s" by (auto simp: remove_provider_def split: option.splits)
  with assms show ?thesis by simp
qed

lemma tools_inv_remove_providers:
  "tools_inv s R C \<Longrightarrow> tools_inv (fold (\<lambda>(i, t, _). remove_provider i t) xs s) R C"
  by (induction xs arbitrary: s) (auto intro: tools_inv_remove_provider)

lemma jfilter_Some: "jget (jfilter q m) k = Some v \<Longrightarrow> jkeys_distinct m \<Longrightarrow> jget m k = Some v"
  by (auto simp: jget_jfilter split: option.splits if_splits)

lemma tools_inv_fewer_tools_of_plugin:
  assumes "tools_inv s R C"
  shows "tools_inv (s\<lparr>ts_tools := jfilter (\<lambda>_ (_, r). rt_plugin r \<noteq> plugin) (ts_tools s),
      ts_aborted := ts_aborted s \<union>
        set (map (\<lambda>(_, t, _). t) (filter (\<lambda>(_, _, r). rt_plugin r = plugin) (ts_tools s)))\<rparr>) R C"
proof (rule tools_inv_fewer_tools [OF assms])
  have k: "jkeys_distinct (ts_tools s)" using assms registry_keys(1) by (auto simp: tools_inv_def)
  let ?A = "set (map (\<lambda>(_, t, _). t) (filter (\<lambda>(_, _, r). rt_plugin r = plugin) (ts_tools s)))"
  show "jkeys_distinct (jfilter (\<lambda>_ (_, r). rt_plugin r \<noteq> plugin) (ts_tools s))" using k by (rule jfilter_distinct)
  show "\<exists>i. tok s (KTool, i) = Some t" if A: "t \<in> ?A" for t
  proof -
    obtain i r where "(i, t, r) \<in> set (ts_tools s)" using A by auto
    then have "jget (ts_tools s) i = Some (t, r)" using k by simp
    then show ?thesis by auto
  qed
  show "jget (ts_tools s) i = Some (t, r)"
    if "jget (jfilter (\<lambda>_ (_, r). rt_plugin r \<noteq> plugin) (ts_tools s)) i = Some (t, r)" for i t r
    using jfilter_Some [OF that k] .
qed

lemma tools_inv_remove_plugin:
  assumes "tools_inv s R C"
  shows "tools_inv (remove_plugin_tools plugin s) R C"
  unfolding remove_plugin_tools_def Let_def
  by (rule tools_inv_remove_providers [OF tools_inv_fewer_tools_of_plugin [OF assms]])

text \<open>A catalog that arrives is either closed at once or leased to the policy.\<close>

lemma tools_inv_reject:
  assumes "tools_inv s R C" and "c \<notin> C"
  shows "tools_inv (close_lease c s) R (insert c C)"
proof -
  have r: "registry_inv s R" and c: "catalogs_inv s C" using assms(1) by (simp_all add: tools_inv_def)
  have "registry_inv (close_lease c s) R"
  proof (rule registry_step [where s = s and A = "{}"])
    show "tok (close_lease c s) a = Some t \<Longrightarrow> tok s a = Some t \<or> a = undefined \<and> t = ts_next s \<and>
        ts_next s < ts_next (close_lease c s)" for a t
      by (cases "(s, a)" rule: tok.cases) simp_all
  qed (use r registry_keys [OF r] in auto)
  moreover have "catalogs_inv (close_lease c s) (insert c C)"
  proof -
    have log: "distinct (ts_closes s)" "set (ts_closes s) = ts_closed s" using c by (simp_all add: catalogs_inv_def)
    have "policy_ok (close_lease c s) (insert c C) p" if "pol s run = Some (t, p)" for run t p
    proof -
      have ok: "policy_ok s C p" using that c unfolding catalogs_inv_def by blast
      then have "cats p \<inter> ts_closed (close_lease c s) = {}" using assms(2) unfolding policy_ok_def by auto
      then show ?thesis by (intro policy_ok_closed [OF ok]) auto
    qed
    with c close_lease_log [OF log, of c] show ?thesis unfolding catalogs_inv_def by auto
  qed
  ultimately show ?thesis by (simp add: tools_inv_def)
qed

text \<open>A property of every successful result, pushed through the branches of a handler.\<close>

definition succeeds_with :: "('a \<Rightarrow> bool) \<Rightarrow> 'e + 'a \<Rightarrow> bool" where
  "succeeds_with Q r \<longleftrightarrow> (\<forall>x. r = Inr x \<longrightarrow> Q x)"

lemma succeeds_withI:
  "succeeds_with Q (Inl e)"
  "Q x \<Longrightarrow> succeeds_with Q (Inr x)"
  "(c \<Longrightarrow> succeeds_with Q r) \<Longrightarrow> (\<not> c \<Longrightarrow> succeeds_with Q r') \<Longrightarrow> succeeds_with Q (if c then r else r')"
  "(\<And>x. y = Inr x \<Longrightarrow> succeeds_with Q (f x)) \<Longrightarrow> succeeds_with Q (rbind y f)"
  "(z = None \<Longrightarrow> succeeds_with Q r) \<Longrightarrow> (\<And>v. z = Some v \<Longrightarrow> succeeds_with Q (g v)) \<Longrightarrow>
    succeeds_with Q (case z of None \<Rightarrow> r | Some v \<Rightarrow> g v)"
  "(\<And>l. w = Inl l \<Longrightarrow> succeeds_with Q (h l)) \<Longrightarrow> (\<And>x. w = Inr x \<Longrightarrow> succeeds_with Q (f x)) \<Longrightarrow>
    succeeds_with Q (case w of Inl l \<Rightarrow> h l | Inr x \<Rightarrow> f x)"
  by (auto simp: succeeds_with_def rbind_Inr split: option.splits sum.splits)

lemma option_none_pairs: "(\<forall>a b. z \<noteq> Some (a, b)) = (z = None)"
  by (cases z) auto

lemma accept_definition_key:
  assumes "accept_definition k r c v p s = Inr (i, b)"
  shows "dd_id (db_definition b) = i" "db_catalog b = c" "db_provider b = rp_id r" "db_controller b = k"
    "jget (po_dynamic p) i = None"
proof -
  have "succeeds_with (\<lambda>(i, b). dd_id (db_definition b) = i \<and> db_catalog b = c \<and> db_provider b = rp_id r \<and>
      db_controller b = k \<and> jget (po_dynamic p) i = None) (accept_definition k r c v p s)"
    unfolding accept_definition_def Let_def
    by (intro succeeds_withI) (simp_all add: option_none_pairs)
  then show "dd_id (db_definition b) = i" "db_catalog b = c" "db_provider b = rp_id r" "db_controller b = k"
    "jget (po_dynamic p) i = None"
    using assms by (simp_all add: succeeds_with_def)
qed

lemma accept_definitions_inv:
  assumes "jkeys_distinct (po_dynamic p)"
    and "\<And>i n b. jget (po_dynamic p) i = Some (n, b) \<Longrightarrow> binding_ok (p\<lparr>po_catalogs := ls\<rparr>) s i b"
    and "\<lparr>cl_catalog = c, cl_plugin = rp_plugin r, cl_provider = rp_id r, cl_controller = k\<rparr> \<in> set ls"
    and "accept_definitions k r c vs s n p = (p', n')"
  shows "jkeys_distinct (po_dynamic p') \<and> po_catalogs p' = po_catalogs p \<and> n \<le> n' \<and>
    (\<forall>i m b. jget (po_dynamic p') i = Some (m, b) \<longrightarrow> binding_ok (p\<lparr>po_catalogs := ls\<rparr>) s i b)"
  using assms
proof (induction vs arbitrary: n p)
  case (Cons v vs)
  show ?case
  proof (cases "accept_definition k r c v p s")
    case (Inl e)
    with Cons.prems(4) have "accept_definitions k r c vs s n p = (p', n')" by simp
    from Cons.IH [OF Cons.prems(1-3) this] show ?thesis .
  next
    case (Inr x)
    obtain i b where x: "x = (i, b)" by (cases x)
    note key = accept_definition_key [OF Inr [unfolded x]]
    let ?p = "p\<lparr>po_dynamic := jset i (n, b) (po_dynamic p)\<rparr>"
    have rest: "accept_definitions k r c vs s (Suc n) ?p = (p', n')" using Cons.prems(4) Inr x by simp
    have same: "binding_ok (?p\<lparr>po_catalogs := ls\<rparr>) s j q = binding_ok (p\<lparr>po_catalogs := ls\<rparr>) s j q" for j q
      by (simp add: binding_ok_def)
    have "binding_ok (p\<lparr>po_catalogs := ls\<rparr>) s i b" using key Cons.prems(3) by (force simp: binding_ok_def)
    then have b: "binding_ok (?p\<lparr>po_catalogs := ls\<rparr>) s j q" if "jget (po_dynamic ?p) j = Some (m, q)" for j m q
      using that Cons.prems(2) same by (auto split: if_splits)
    have "jkeys_distinct (po_dynamic p') \<and> po_catalogs p' = po_catalogs ?p \<and> Suc n \<le> n' \<and>
      (\<forall>i m b. jget (po_dynamic p') i = Some (m, b) \<longrightarrow> binding_ok (?p\<lparr>po_catalogs := ls\<rparr>) s i b)"
    proof (rule Cons.IH [OF _ _ Cons.prems(3) rest])
      show "jkeys_distinct (po_dynamic ?p)" using Cons.prems(1) by (simp add: jset_distinct)
    qed (rule b)
    then show ?thesis unfolding same by simp
  qed
qed auto

lemma tools_inv_lease:
  assumes "tools_inv s R C" and "pol s run = Some (t, p)" and "c \<notin> C"
    and "jget (ts_providers s) (rp_id r) = Some (k, r)"
    and "accept_definitions k r c vs s (ts_next s) p = (p', n)"
  shows "tools_inv (s\<lparr>ts_policies := jset run (t, p'\<lparr>po_catalogs := po_catalogs p' @
      [\<lparr>cl_catalog = c, cl_plugin = rp_plugin r, cl_provider = rp_id r, cl_controller = k\<rparr>]\<rparr>) (ts_policies s),
      ts_next := n\<rparr>) R (insert c C)"
proof -
  let ?l = "\<lparr>cl_catalog = c, cl_plugin = rp_plugin r, cl_provider = rp_id r, cl_controller = k\<rparr>"
  let ?ls = "po_catalogs p @ [?l]"
  let ?q = "p'\<lparr>po_catalogs := po_catalogs p' @ [?l]\<rparr>"
  let ?s' = "s\<lparr>ts_policies := jset run (t, ?q) (ts_policies s), ts_next := n\<rparr>"
  have r: "registry_inv s R" and ci: "catalogs_inv s C" using assms(1) by (simp_all add: tools_inv_def)
  have ok: "pol s run' = Some (t', q) \<Longrightarrow> policy_ok s C q" for run' t' q
    using ci unfolding catalogs_inv_def by blast
  note okp = ok [OF assms(2)]
  have grown: "jkeys_distinct (po_dynamic p') \<and> po_catalogs p' = po_catalogs p \<and> ts_next s \<le> n \<and>
      (\<forall>i m b. jget (po_dynamic p') i = Some (m, b) \<longrightarrow> binding_ok (p\<lparr>po_catalogs := ?ls\<rparr>) s i b)"
  proof (rule accept_definitions_inv [OF _ _ _ assms(5)])
    show "binding_ok (p\<lparr>po_catalogs := ?ls\<rparr>) s i b" if "jget (po_dynamic p) i = Some (m, b)" for i m b
      using that okp unfolding policy_ok_def binding_ok_def by fastforce
  qed (use okp in \<open>simp_all add: policy_ok_def\<close>)
  have "registry_inv ?s' R"
  proof (rule registry_step [where s = s and A = "{}"])
    show "tok ?s' a = Some u \<Longrightarrow> tok s a = Some u \<or> a = undefined \<and> u = ts_next s \<and> ts_next s < ts_next ?s'" for a u
      using assms(2) by (cases "(s, a)" rule: tok.cases) (auto split: if_splits)
  qed (use r registry_keys [OF r] grown in \<open>auto simp: jset_distinct\<close>)
  moreover have "catalogs_inv ?s' (insert c C)"
  proof -
    have catsq: "cats ?q = insert c (cats p)" using grown by (simp add: cats_def)
    have fresh: "c \<notin> cats q" if "pol s run' = Some (t', q)" for run' t' q
      using ok [OF that] assms(3) unfolding policy_ok_def by blast
    have notclosed: "c \<notin> ts_closed s" using ci assms(3) unfolding catalogs_inv_def by blast
    have new: "policy_ok ?s' (insert c C) ?q"
      unfolding policy_ok_def catsq
    proof (intro conjI)
      show "distinct (map cl_catalog (po_catalogs ?q))"
        using okp fresh [OF assms(2)] grown by (auto simp: policy_ok_def cats_def)
      show "insert c (cats p) \<subseteq> insert c C - ts_closed ?s'" using okp notclosed by (auto simp: policy_ok_def)
      show "\<forall>l\<in>set (po_catalogs ?q). \<exists>r. jget (ts_providers ?s') (cl_provider l) = Some (cl_controller l, r)"
        using okp grown assms(4) by (auto simp: policy_ok_def)
      show "\<forall>i n b. jget (po_dynamic ?q) i = Some (n, b) \<longrightarrow> binding_ok ?q ?s' i b"
        using grown by (auto simp: binding_ok_def)
    qed (use grown in simp)
    have "policy_ok ?s' (insert c C) q" if q: "pol ?s' run' = Some (t', q)" for run' t' q
    proof (cases "run' = run")
      case False
      then have "policy_ok s C q" using q ok by simp
      then show ?thesis by (rule policy_ok_closed) (use \<open>policy_ok s C q\<close> in \<open>auto simp: policy_ok_def\<close>)
    qed (use q new in simp)
    moreover have "run1 = run2"
      if "pol ?s' run1 = Some (t1, q1)" "pol ?s' run2 = Some (t2, q2)" "cats q1 \<inter> cats q2 \<noteq> {}"
      for run1 run2 t1 t2 q1 q2
    proof -
      have disj: "pol s a = Some (u, x) \<Longrightarrow> pol s b = Some (v, y) \<Longrightarrow> cats x \<inter> cats y \<noteq> {} \<Longrightarrow> a = b" for a b u v x y
        using ci unfolding catalogs_inv_def by blast
      consider (both) "run1 = run2" | (left) "run1 = run" "run2 \<noteq> run" | (right) "run2 = run" "run1 \<noteq> run"
        | (none) "run1 \<noteq> run" "run2 \<noteq> run" by blast
      then show ?thesis
      proof cases
        case left
        then have "q1 = ?q" "pol s run2 = Some (t2, q2)" using that(1,2) by auto
        with disj [OF assms(2) this(2)] fresh [OF this(2)] catsq that(3) left show ?thesis by auto
      next
        case right
        then have "q2 = ?q" "pol s run1 = Some (t1, q1)" using that(1,2) by auto
        with disj [OF this(2) assms(2)] fresh [OF this(2)] catsq that(3) right show ?thesis by auto
      next
        case none
        with that(1,2) have "pol s run1 = Some (t1, q1)" "pol s run2 = Some (t2, q2)" by auto
        from disj [OF this that(3)] show ?thesis .
      qed simp
    qed
    moreover have "distinct (ts_closes ?s')" "set (ts_closes ?s') = ts_closed ?s'" "ts_closed ?s' \<subseteq> insert c C"
      using ci by (auto simp: catalogs_inv_def)
    ultimately show ?thesis unfolding catalogs_inv_def by blast
  qed
  ultimately show ?thesis by (simp add: tools_inv_def)
qed

lemma tools_inv_arrive:
  assumes "tools_inv s R C" and "(k, r) \<in> R" and "ca_id c \<notin> C"
  shows "tools_inv (snd (catalog_arrived run t k r c s)) R (insert (ca_id c) C)"
proof (cases "policy_current run t s \<and> t \<notin> ts_aborted s \<and> k \<notin> ts_aborted s \<and> ca_executes c")
  case True
  then obtain p where p: "pol s run = Some (t, p)" by (auto simp: policy_current_def split: option.splits)
  have prov: "jget (ts_providers s) (rp_id r) = Some (k, r)"
    using assms(1,2) True unfolding tools_inv_def registry_inv_def by blast
  obtain p' n where acc: "accept_definitions k r (ca_id c) (arr_items (ca_definitions c)) s (ts_next s) p = (p', n)"
    by fastforce
  show ?thesis
    using tools_inv_lease [OF assms(1) p assms(3) prov acc] True p acc by (simp add: catalog_arrived_def)
next
  case False
  then have "snd (catalog_arrived run t k r c s) = close_lease (ca_id c) s"
    by (auto simp: catalog_arrived_def)
  then show ?thesis using tools_inv_reject [OF assms(1,3)] by simp
qed

lemma tools_reach_inv: "tools_reach s R C \<Longrightarrow> tools_inv s R C"
proof (induction rule: tools_reach.induct)
  case tr_new then show ?case by (rule tools_inv_new)
next
  case tr_tool then show ?case by (blast intro: tools_inv_tool)
next
  case tr_dispose_tool then show ?case by (blast intro: tools_inv_dispose_tool)
next
  case tr_provider then show ?case by (blast intro: tools_inv_provider)
next
  case tr_remove then show ?case by (blast intro: tools_inv_remove_provider)
next
  case tr_remove_plugin then show ?case by (blast intro: tools_inv_remove_plugin)
next
  case tr_policy then show ?case by (blast intro: tools_inv_policy)
next
  case tr_dispose_policy then show ?case by (blast intro: tools_inv_dispose_policy)
next
  case tr_bind then show ?case by (blast intro: tools_inv_bind)
next
  case tr_prepare then show ?case by (blast intro: tools_inv_prepare)
next
  case tr_arrive then show ?case by (blast intro: tools_inv_arrive)
next
  case tr_finish then show ?case by (blast intro: tools_inv_finish)
next
  case tr_class then show ?case by (blast intro: tools_inv_class)
qed

text \<open>Catalogs accounted for: closed, or held by a live policy.\<close>

definition held :: "tool_service \<Rightarrow> nat set" where
  "held s = {c. \<exists>run t p. pol s run = Some (t, p) \<and> c \<in> cats p}"

lemma held_grows:
  assumes "ts_closed s \<subseteq> ts_closed s'"
    and "\<And>run t p. pol s run = Some (t, p) \<Longrightarrow>
      cats p \<subseteq> ts_closed s' \<or> (\<exists>u q. pol s' run = Some (u, q) \<and> cats p \<subseteq> ts_closed s' \<union> cats q)"
  shows "ts_closed s \<union> held s \<subseteq> ts_closed s' \<union> held s'"
  using assms unfolding held_def by blast

lemma held_same_policies:
  "ts_closed s' = ts_closed s \<Longrightarrow> ts_policies s' = ts_policies s \<Longrightarrow> ts_closed s' \<union> held s' = ts_closed s \<union> held s"
  by (simp add: held_def)

lemma held_remove_provider:
  assumes "jkeys_distinct (ts_policies s)"
  shows "ts_closed s \<union> held s \<subseteq> ts_closed (remove_provider i t s) \<union> held (remove_provider i t s)"
proof (cases "tok s (KProvider, i) = Some t")
  case True
  let ?L = "concat (map (\<lambda>(_, _, p). leases_of i p) (ts_policies s))"
  obtain r where prov: "jget (ts_providers s) i = Some (t, r)" using True by auto
  have pols: "pol (remove_provider i t s) run = map_option (\<lambda>(q, p). (q, strip_policy i p)) (pol s run)" for run
    by (simp add: remove_provider_def prov jget_map_snd)
  have cl: "ts_closed (remove_provider i t s) = cl_catalog ` set ?L \<union> ts_closed s"
    by (simp add: remove_provider_def prov)
  show ?thesis
  proof (rule held_grows)
    fix run u p assume p: "pol s run = Some (u, p)"
    have "c \<in> cl_catalog ` set ?L \<union> cats (strip_policy i p)" if c: "c \<in> cats p" for c
    proof -
      obtain l where l: "l \<in> set (po_catalogs p)" "cl_catalog l = c" using c by (auto simp: cats_def)
      have "(run, u, p) \<in> set (ts_policies s)" using p by (rule map_of_SomeD)
      then have "cl_provider l = i \<Longrightarrow> l \<in> set ?L" using l(1) by (force simp: leases_of_def)
      moreover have "cl_provider l \<noteq> i \<Longrightarrow> c \<in> cats (strip_policy i p)"
        using l by (force simp: cats_def strip_policy_def)
      ultimately show ?thesis using l(2) by blast
    qed
    then have "cats p \<subseteq> ts_closed (remove_provider i t s) \<union> cats (strip_policy i p)" unfolding cl by blast
    with p pols show "cats p \<subseteq> ts_closed (remove_provider i t s) \<or>
        (\<exists>u q. pol (remove_provider i t s) run = Some (u, q) \<and> cats p \<subseteq> ts_closed (remove_provider i t s) \<union> cats q)"
      by simp
  qed (simp add: cl)
next
  case False
  then have "remove_provider i t s = s" by (auto simp: remove_provider_def split: option.splits)
  then show ?thesis by simp
qed

lemma held_remove_providers:
  "tools_inv s R C \<Longrightarrow> ts_closed s \<union> held s \<subseteq>
     ts_closed (fold (\<lambda>(i, t, _). remove_provider i t) xs s) \<union> held (fold (\<lambda>(i, t, _). remove_provider i t) xs s)"
proof (induction xs arbitrary: s)
  case (Cons x xs)
  obtain i t r where x: "x = (i, t, r)" by (cases x)
  have "jkeys_distinct (ts_policies s)" using Cons.prems registry_keys(3) by (auto simp: tools_inv_def)
  from held_remove_provider [OF this] Cons.IH [OF tools_inv_remove_provider [OF Cons.prems]]
  show ?case unfolding x by (simp only: fold_simps case_prod_conv o_apply) blast
qed simp

lemma held_dispose_policy: "ts_closed s \<union> held s \<subseteq> ts_closed (dispose_policy run t s) \<union> held (dispose_policy run t s)"
proof (cases "tok s (KPolicy, run) = Some t")
  case True
  then obtain p where p: "pol s run = Some (t, p)" by auto
  have e: "ts_closed (dispose_policy run t s) = cats p \<union> ts_closed s"
    "ts_policies (dispose_policy run t s) = jdel run (ts_policies s)"
    using p by (auto simp: dispose_policy_def Let_def cats_def)
  show ?thesis by (rule held_grows) (use p e in \<open>auto split: if_splits\<close>)
next
  case False
  then have "dispose_policy run t s = s" by (auto simp: dispose_policy_def split: option.splits)
  then show ?thesis by simp
qed

lemma held_update:
  assumes "pol s run = Some (t, p)" and "cats p \<subseteq> cats p'" and "ts_closed s' = ts_closed s"
    and "ts_policies s' = jset run (t, p') (ts_policies s)"
  shows "ts_closed s \<union> held s \<subseteq> ts_closed s' \<union> held s'"
  by (rule held_grows) (use assms in \<open>auto split: if_splits\<close>)

lemma held_policy:
  assumes "register_run_policy run owner allowed cx s = Inr (t, s')"
  shows "ts_closed s \<union> held s \<subseteq> ts_closed s' \<union> held s'"
proof -
  have "pol s run = None \<and> (\<exists>x. ts_policies s' = jset run x (ts_policies s)) \<and> ts_closed s' = ts_closed s"
    using assms unfolding register_run_policy_def
    by (auto simp: rbind_Inr Let_def option_none_pairs split: if_splits option.splits sum.splits prod.splits intro!: exI)
  then obtain x where x: "pol s run = None" "ts_policies s' = jset run x (ts_policies s)" "ts_closed s' = ts_closed s" by blast
  then have "pol s r = Some y \<Longrightarrow> pol s' r = Some y" for r y by auto
  with x(3) show ?thesis by (intro held_grows) blast+
qed

lemma held_bind:
  assumes "bind_execution_classification run owner ex l s = Inr s'"
  shows "ts_closed s \<union> held s \<subseteq> ts_closed s' \<union> held s'"
proof -
  obtain t p where p: "pol s run = Some (t, p)"
    using assms by (cases "pol s run") (auto simp: bind_execution_classification_def)
  then consider (same) "ts_policies s' = ts_policies s" "ts_closed s' = ts_closed s"
    | (opened) h where "ts_policies s' = jset run (t, p\<lparr>po_class_run := Some h\<rparr>) (ts_policies s)" "ts_closed s' = ts_closed s"
    using assms by (auto simp: bind_execution_classification_def split: if_splits option.splits sum.splits)
  then show ?thesis
  proof cases
    case same
    then show ?thesis using held_same_policies by blast
  next
    case (opened h)
    then show ?thesis by (intro held_update [OF p]) (simp_all add: cats_def)
  qed
qed

lemma held_prepare:
  assumes "prepare_run run s = Inr (st, s')"
  shows "ts_closed s \<union> held s \<subseteq> ts_closed s' \<union> held s'"
proof -
  obtain t p where p: "pol s run = Some (t, p)" using assms by (cases "pol s run") (auto simp: prepare_run_def)
  have "ts_closed s \<union> held s \<subseteq>
      ts_closed (s\<lparr>ts_policies := jset run (t, p\<lparr>po_preparing := True\<rparr>) (ts_policies s)\<rparr>) \<union>
      held (s\<lparr>ts_policies := jset run (t, p\<lparr>po_preparing := True\<rparr>) (ts_policies s)\<rparr>)"
    by (rule held_update [OF p]) (simp_all add: cats_def)
  with assms p show ?thesis by (auto simp: prepare_run_def split: if_splits)
qed

lemma held_finish:
  "ts_closed s \<union> held s \<subseteq> ts_closed (snd (prepare_finish run t done s)) \<union> held (snd (prepare_finish run t done s))"
proof (cases "policy_current run t s \<and> t \<notin> ts_aborted s")
  case True
  then obtain p where p: "pol s run = Some (t, p)" by (auto simp: policy_current_def split: option.splits)
  show ?thesis by (rule held_update [OF p]) (use True p in \<open>simp_all add: prepare_finish_def cats_def\<close>)
next
  case False
  then have "snd (prepare_finish run t done s) = s"
    by (auto simp: prepare_finish_def policy_current_def split: option.splits)
  then show ?thesis by simp
qed

lemma accept_definitions_catalogs:
  "accept_definitions k r c vs s n p = (p', n') \<Longrightarrow> po_catalogs p' = po_catalogs p"
  by (induction k r c vs s n p rule: accept_definitions.induct) (auto split: sum.splits)

lemma held_arrive:
  "insert (ca_id c) (ts_closed s \<union> held s) \<subseteq>
     ts_closed (snd (catalog_arrived run t k r c s)) \<union> held (snd (catalog_arrived run t k r c s))"
proof (cases "policy_current run t s \<and> t \<notin> ts_aborted s \<and> k \<notin> ts_aborted s \<and> ca_executes c")
  case True
  then obtain p where p: "pol s run = Some (t, p)" by (auto simp: policy_current_def split: option.splits)
  obtain p' n where acc: "accept_definitions k r (ca_id c) (arr_items (ca_definitions c)) s (ts_next s) p = (p', n)"
    by fastforce
  have cats: "po_catalogs p' = po_catalogs p" by (rule accept_definitions_catalogs [OF acc])
  let ?s' = "snd (catalog_arrived run t k r c s)"
  let ?q = "p'\<lparr>po_catalogs := po_catalogs p' @ [\<lparr>cl_catalog = ca_id c, cl_plugin = rp_plugin r,
      cl_provider = rp_id r, cl_controller = k\<rparr>]\<rparr>"
  have s': "ts_policies ?s' = jset run (t, ?q) (ts_policies s)" "ts_closed ?s' = ts_closed s"
    using True p acc by (simp_all add: catalog_arrived_def)
  have "ca_id c \<in> held ?s'" using s'(1) by (force simp: held_def cats_def)
  moreover have "ts_closed s \<union> held s \<subseteq> ts_closed ?s' \<union> held ?s'"
    by (rule held_update [OF p _ s'(2,1)]) (auto simp: cats_def cats)
  ultimately show ?thesis by blast
next
  case False
  then have "snd (catalog_arrived run t k r c s) = close_lease (ca_id c) s"
    by (auto simp: catalog_arrived_def)
  then show ?thesis by (auto simp: held_def)
qed

lemma tools_reach_accounted: "tools_reach s R C \<Longrightarrow> C \<subseteq> ts_closed s \<union> held s"
proof (induction rule: tools_reach.induct)
  case (tr_tool s R C plugin tool ws t s')
  then have "ts_closed s' = ts_closed s" "ts_policies s' = ts_policies s"
    by (auto simp: register_tool_def Let_def rbind_Inr split: option.splits if_splits sum.splits)
  with tr_tool.IH held_same_policies show ?case by blast
next
  case (tr_dispose_tool s R C i t)
  have "ts_closed (dispose_tool i t s) = ts_closed s" "ts_policies (dispose_tool i t s) = ts_policies s"
    by (auto simp: dispose_tool_def split: option.splits)
  with tr_dispose_tool.IH held_same_policies show ?case by blast
next
  case (tr_provider s R C plugin pr ws t s')
  then have "ts_closed s' = ts_closed s" "ts_policies s' = ts_policies s"
    by (auto simp: register_provider_def Let_def split: if_splits)
  with tr_provider.IH held_same_policies show ?case by blast
next
  case (tr_remove s R C i t)
  then have "jkeys_distinct (ts_policies s)"
    using tools_reach_inv registry_keys(3) unfolding tools_inv_def by blast
  from held_remove_provider [OF this] tr_remove.IH show ?case by blast
next
  case (tr_remove_plugin s R C plugin)
  let ?s1 = "s\<lparr>ts_tools := jfilter (\<lambda>_ (_, r). rt_plugin r \<noteq> plugin) (ts_tools s),
      ts_aborted := ts_aborted s \<union>
        set (map (\<lambda>(_, t, _). t) (filter (\<lambda>(_, _, r). rt_plugin r = plugin) (ts_tools s)))\<rparr>"
  have "tools_inv ?s1 R C"
    by (rule tools_inv_fewer_tools_of_plugin [OF tools_reach_inv [OF tr_remove_plugin.hyps]])
  from held_remove_providers [OF this] have
    "ts_closed s \<union> held s \<subseteq> ts_closed (remove_plugin_tools plugin s) \<union> held (remove_plugin_tools plugin s)"
    unfolding remove_plugin_tools_def Let_def by (simp add: held_def)
  with tr_remove_plugin.IH show ?case by blast
next
  case (tr_policy s R C run owner allowed cx t s')
  from held_policy [OF tr_policy.hyps(2)] tr_policy.IH show ?case by blast
next
  case (tr_dispose_policy s R C run t)
  from held_dispose_policy tr_dispose_policy.IH show ?case by blast
next
  case (tr_bind s R C run owner ex l s')
  from held_bind [OF tr_bind.hyps(2)] tr_bind.IH show ?case by blast
next
  case (tr_prepare s R C run st s')
  from held_prepare [OF tr_prepare.hyps(2)] tr_prepare.IH show ?case by blast
next
  case (tr_arrive s R C k r c run t)
  from held_arrive tr_arrive.IH show ?case by blast
next
  case (tr_finish s R C run t dn)
  from held_finish tr_finish.IH show ?case by blast
next
  case (tr_class s R C cls)
  then show ?case by (simp add: held_def)
qed simp

lemma tools_reach_held:
  assumes "tools_reach s R C"
  shows "held s \<subseteq> C" "held s \<inter> ts_closed s = {}"
proof -
  have "policy_ok s C p" if "pol s run = Some (t, p)" for run t p
    using tools_reach_inv [OF assms] that unfolding tools_inv_def catalogs_inv_def by blast
  then show "held s \<subseteq> C" "held s \<inter> ts_closed s = {}" unfolding held_def policy_ok_def by blast+
qed

section \<open>Properties\<close>

text \<open>C16: A dynamic tool that a run can look up comes from a catalog that is still open and from a
  provider that is still registered under the controller the tool was bound to, which is not aborted.\<close>

theorem dynamic_tool_live:
  assumes "tools_reach s R C" and "find_dynamic (Some run) tool s = Some (n, b)"
  shows "db_catalog b \<notin> ts_closed s \<and> db_controller b \<notin> ts_aborted s \<and> dd_id (db_definition b) = tool \<and>
    (\<exists>r. jget (ts_providers s) (db_provider b) = Some (db_controller b, r))"
proof -
  obtain t p where p: "pol s run = Some (t, p)" "jget (po_dynamic p) tool = Some (n, b)"
    using assms(2) by (auto simp: find_dynamic_def split: if_splits option.splits)
  have inv: "registry_inv s R" "catalogs_inv s C" using tools_reach_inv [OF assms(1)] by (simp_all add: tools_inv_def)
  have ok: "policy_ok s C p" using inv(2) p(1) unfolding catalogs_inv_def by blast
  then obtain l where l: "l \<in> set (po_catalogs p)" "cl_catalog l = db_catalog b" "cl_provider l = db_provider b"
      "cl_controller l = db_controller b" "dd_id (db_definition b) = tool"
    using p(2) unfolding policy_ok_def binding_ok_def by blast
  obtain r where r: "jget (ts_providers s) (cl_provider l) = Some (cl_controller l, r)"
    using ok l(1) unfolding policy_ok_def by blast
  have "cl_catalog l \<in> cats p" using l(1) by (simp add: cats_def)
  then have "db_catalog b \<notin> ts_closed s" using ok l(2) unfolding policy_ok_def by auto
  then show ?thesis using l r registry_provider(2) [OF inv(1) r] by auto
qed

text \<open>C17: No catalog is leaked and none is closed twice: every catalog a provider returned is either
  closed, exactly once, or held by the policy of a live run; when no run is left, all are closed.\<close>

theorem catalogs_accounted:
  assumes "tools_reach s R C"
  shows "distinct (ts_closes s) \<and> set (ts_closes s) \<union> held s = C \<and> set (ts_closes s) \<inter> held s = {} \<and>
    (ts_policies s = [] \<longrightarrow> set (ts_closes s) = C)"
proof -
  have c: "distinct (ts_closes s)" "set (ts_closes s) = ts_closed s" "ts_closed s \<subseteq> C"
    using tools_reach_inv [OF assms] unfolding tools_inv_def catalogs_inv_def by blast+
  have "ts_policies s = [] \<Longrightarrow> held s = {}" by (simp add: held_def)
  with c tools_reach_accounted [OF assms] tools_reach_held [OF assms] show ?thesis by blast
qed

text \<open>A run with one dynamic tool.\<close>

definition ex_provider :: registered_provider where
  "ex_provider = \<lparr>rp_plugin = ''m'', rp_id = ''m.p'', rp_namespace = None, rp_workspace = False\<rparr>"

definition ex_catalog :: tool_catalog where
  "ex_catalog = \<lparr>ca_id = 7, ca_definitions = VArr [VObj
     [(''id'', VStr ''m.t''), (''description'', VStr ''a tool''), (''approval'', VStr ''ask''),
      (''sideEffect'', VBool True), (''inputSchema'', VObj [(''type'', VStr ''object'')])]],
     ca_executes = True\<rparr>"

definition ex_context :: policy_context where
  "ex_context = \<lparr>pc_execution = None, pc_initial = None, pc_session = None, pc_root = None,
     pc_additional = None, pc_persona = None, pc_persona_id = None\<rparr>"

definition ex_tools0 :: tool_service where
  "ex_tools0 = snd (projr (register_provider ''m''
     \<lparr>pc_id = VStr ''m.p'', pc_namespace = VUndef, pc_prepares = True\<rparr> False (new_tool_service None)))"

definition ex_tools1 :: tool_service where
  "ex_tools1 = snd (projr (register_run_policy ''r'' ''chat'' [''*''] ex_context ex_tools0))"

definition ex_tools2 :: tool_service where
  "ex_tools2 = snd (catalog_arrived ''r'' 1 0 ex_provider ex_catalog ex_tools1)"

lemma projr_pair: "\<not> isl r \<Longrightarrow> fst (projr r) = a \<Longrightarrow> r = Inr (a, snd (projr r))"
  by (cases r) auto

lemma ex_tools_regs:
  "register_provider ''m'' \<lparr>pc_id = VStr ''m.p'', pc_namespace = VUndef, pc_prepares = True\<rparr> False
     (new_tool_service None) = Inr (0, ex_tools0)"
  "register_run_policy ''r'' ''chat'' [''*''] ex_context ex_tools0 = Inr (1, ex_tools1)"
proof -
  show "register_provider ''m'' \<lparr>pc_id = VStr ''m.p'', pc_namespace = VUndef, pc_prepares = True\<rparr> False
     (new_tool_service None) = Inr (0, ex_tools0)"
    unfolding ex_tools0_def by (rule projr_pair) code_simp+
  show "register_run_policy ''r'' ''chat'' [''*''] ex_context ex_tools0 = Inr (1, ex_tools1)"
    unfolding ex_tools1_def by (rule projr_pair) code_simp+
qed

lemma ex_tools_registrations: "registrations ex_tools0 = {(0, ex_provider)}"
  by code_simp

lemma ex_tools_reach: "tools_reach ex_tools2 {(0, ex_provider)} {7}"
proof -
  have "tools_reach ex_tools0 {(0, ex_provider)} {}"
    using tr_provider [OF tr_new ex_tools_regs(1)] ex_tools_registrations by simp
  from tr_policy [OF this ex_tools_regs(2)] have "tools_reach ex_tools1 {(0, ex_provider)} {}" .
  from tr_arrive [OF this, of 0 ex_provider ex_catalog "''r''" 1] show ?thesis
    by (simp add: ex_tools2_def ex_catalog_def)
qed

lemma dynamic_tool_live_witness:
  "\<exists>n b. find_dynamic (Some ''r'') ''m.t'' ex_tools2 = Some (n, b) \<and> db_catalog b \<notin> ts_closed ex_tools2"
proof -
  have "find_dynamic (Some ''r'') ''m.t'' ex_tools2 \<noteq> None" by code_simp
  then obtain n b where "find_dynamic (Some ''r'') ''m.t'' ex_tools2 = Some (n, b)" by auto
  with dynamic_tool_live [OF ex_tools_reach this] show ?thesis by blast
qed

lemma catalogs_accounted_witness:
  "set (ts_closes ex_tools2) \<union> held ex_tools2 = {7}"
  using catalogs_accounted [OF ex_tools_reach] by blast

end
