(* ===== verification/Tool_Invoke.thy ===== *)
theory Tool_Invoke
  imports Tool_Registry
begin

text \<open>
  The invocation pipeline of \<open>ToolService\<close> (\<open>packages/kernel/src/tool-service.ts\<close>): \<open>invoke\<close>,
  \<open>#authorize\<close>, \<open>#reviewOutput\<close> and \<open>#resolveInvocation\<close>. One invocation awaits the authorizer, the
  execution service, hooks, the tool and the scanners; between two awaits it is one definition, and
  a step relation puts the definitions in their order, with any other activity of the kernel in
  between.
\<close>

section \<open>The parts an invocation works with\<close>

text \<open>\<open>w_exec\<close> and \<open>w_scan\<close> are the optional services of the constructor.\<close>

record world =
  w_tools :: tool_service
  w_trust :: trust_authorizer
  w_exec :: "execution_service option"
  w_scan :: "scanner_registry option"

record invocation_options =
  io_caller :: string
  io_call :: "string option"
  io_run :: "string option"

datatype target = StaticTool nat registered_tool | DynamicTool nat dynamic_binding

text \<open>
  What the closure of one invocation holds: the policy object it looked up (its token and the fields
  that never change), the registration or binding it resolved, and the parsed input.
\<close>

record tool_call =
  tk_tool :: string
  tk_options :: invocation_options
  tk_policy :: "(nat \<times> run_policy) option"
  tk_target :: target
  tk_input :: jsval
  tk_id :: string

datatype call_error =
    ToolFailure tool_error
  | SignalFailure
  | TrustFailure trust_error
  | ExecutionFailure execution_error
  | ClassificationFailure classification_error
  | ScanFailure scanner_error
  | HookFailure
  | ToolThrew

definition fail :: "tool_code \<Rightarrow> string \<Rightarrow> call_error" where
  "fail c m = ToolFailure (tool_err c m)"

definition denied :: "string \<Rightarrow> string list \<Rightarrow> call_error" where
  "denied m reasons = ToolFailure \<lparr>te_code = DeniedT, te_message = m, te_reasons = reasons\<rparr>"

text \<open>\<open>catch (error)\<close> around the execution: a tool error passes, any other becomes "failed".\<close>

definition wrap_failed :: "string \<Rightarrow> call_error \<Rightarrow> call_error" where
  "wrap_failed tool e =
     (case e of ToolFailure _ \<Rightarrow> e | _ \<Rightarrow> fail FailedT (''Tool '' @ tool @ '' failed''))"

section \<open>Resolving\<close>

definition target_plugin :: "target \<Rightarrow> string" where
  "target_plugin x = (case x of StaticTool _ r \<Rightarrow> rt_plugin r | DynamicTool _ b \<Rightarrow> db_plugin b)"

definition target_approval :: "target \<Rightarrow> tool_approval" where
  "target_approval x = (case x of StaticTool _ r \<Rightarrow> rt_approval r | DynamicTool _ b \<Rightarrow> dd_approval (db_definition b))"

definition target_security :: "target \<Rightarrow> resolved_security" where
  "target_security x = (case x of StaticTool _ r \<Rightarrow> rt_security r | DynamicTool _ b \<Rightarrow> db_security b)"

definition target_workspace :: "target \<Rightarrow> bool" where
  "target_workspace x = (case x of StaticTool _ r \<Rightarrow> rt_workspace r | DynamicTool _ b \<Rightarrow> db_workspace b)"

definition target_controller :: "target \<Rightarrow> nat" where
  "target_controller x = (case x of StaticTool t _ \<Rightarrow> t | DynamicTool _ b \<Rightarrow> db_controller b)"

definition invalid_input :: "string \<Rightarrow> call_error" where
  "invalid_input tool = fail InvalidT (''Tool '' @ tool @ '' input is invalid'')"

definition invalid_output :: "string \<Rightarrow> call_error" where
  "invalid_output tool = fail InvalidT (''Tool '' @ tool @ '' output is invalid'')"

definition json_result :: "jsval \<Rightarrow> call_error + jsval" where
  "json_result v = (case as_json_value v of Inl e \<Rightarrow> Inl (ToolFailure e) | Inr x \<Rightarrow> Inr x)"

definition parse_input :: "string \<Rightarrow> target \<Rightarrow> jsval \<Rightarrow> call_error + jsval" where
  "parse_input tool x v =
     (case x of
        StaticTool _ r \<Rightarrow>
          (case rt_input r v of None \<Rightarrow> Inl (invalid_input tool) | Some d \<Rightarrow> json_result d)
      | DynamicTool _ b \<Rightarrow>
          (case validate_against_json_schema (dd_input_schema (db_definition b)) v of
             Inl _ \<Rightarrow> Inl (invalid_input tool) | Inr d \<Rightarrow> json_result d))"

definition parse_output :: "string \<Rightarrow> target \<Rightarrow> jsval \<Rightarrow> call_error + jsval" where
  "parse_output tool x v =
     (case x of
        StaticTool _ r \<Rightarrow>
          (case rt_output r v of None \<Rightarrow> Inl (invalid_output tool) | Some d \<Rightarrow> json_result d)
      | DynamicTool _ b \<Rightarrow>
          (case dd_output_schema (db_definition b) of
             None \<Rightarrow> json_result v
           | Some s \<Rightarrow>
               (case validate_against_json_schema s v of
                  Inl _ \<Rightarrow> Inl (invalid_output tool) | Inr d \<Rightarrow> json_result d)))"

text \<open>\<open>policy_is\<close> is \<open>this.#runPolicies.get(runId) === runPolicy\<close>.\<close>

definition policy_is :: "string \<Rightarrow> (nat \<times> run_policy) option \<Rightarrow> tool_service \<Rightarrow> bool" where
  "policy_is run p s = (map_option fst (jget (ts_policies s) run) = map_option fst p)"

definition is_current :: "tool_call \<Rightarrow> tool_service \<Rightarrow> bool" where
  "is_current c s =
     (case tk_target c of
        StaticTool t _ \<Rightarrow>
          map_option fst (jget (ts_tools s) (tk_tool c)) = Some t \<and>
          (case truthy (io_run (tk_options c)) of None \<Rightarrow> True | Some run \<Rightarrow> policy_is run (tk_policy c) s)
      | DynamicTool t _ \<Rightarrow>
          (case io_run (tk_options c) of
             None \<Rightarrow> False
           | Some run \<Rightarrow>
               policy_is run (tk_policy c) s \<and>
               (case jget (ts_policies s) run of
                  None \<Rightarrow> False
                | Some (_, p) \<Rightarrow> map_option fst (jget (po_dynamic p) (tk_tool c)) = Some t)))"

definition resolve_target :: "string \<Rightarrow> invocation_options \<Rightarrow> (nat \<times> run_policy) option \<Rightarrow> tool_service \<Rightarrow> target option" where
  "resolve_target tool opts policy s =
     (case jget (ts_tools s) tool of
        Some (t, r) \<Rightarrow> Some (StaticTool t r)
      | None \<Rightarrow>
          (case (truthy (io_run opts), policy) of
             (Some _, Some (_, p)) \<Rightarrow> map_option (\<lambda>(t, b). DynamicTool t b) (jget (po_dynamic p) tool)
           | _ \<Rightarrow> None))"

text \<open>\<open>AbortSignal.any\<close>: \<open>ext\<close> is whether the caller's own signal is aborted.\<close>

definition aborted :: "tool_call \<Rightarrow> bool \<Rightarrow> tool_service \<Rightarrow> bool" where
  "aborted c ext s =
     (ext \<or> target_controller (tk_target c) \<in> ts_aborted s \<or>
      (case tk_policy c of None \<Rightarrow> False | Some (t, _) \<Rightarrow> t \<in> ts_aborted s))"

text \<open>\<open>invoke\<close> after \<open>beforeAuthorization\<close>, up to the request for authorization.\<close>

definition invoke_begin ::
  "string \<Rightarrow> jsval \<Rightarrow> invocation_options \<Rightarrow> bool \<Rightarrow> string \<Rightarrow> tool_service \<Rightarrow> call_error + tool_call" where
  "invoke_begin tool candidate opts ext uuid s =
     (let policy = (case truthy (io_run opts) of None \<Rightarrow> None | Some r \<Rightarrow> jget (ts_policies s) r);
          run_name = (case io_run opts of None \<Rightarrow> [] | Some r \<Rightarrow> r) in
      if truthy (io_run opts) \<noteq> None \<and>
         (case policy of None \<Rightarrow> True | Some (_, p) \<Rightarrow> po_owner p \<noteq> io_caller opts)
      then Inl (fail ForbiddenT (''Tool policy for run '' @ run_name @ '' is unavailable to '' @ io_caller opts))
      else if (case policy of None \<Rightarrow> False
               | Some (_, p) \<Rightarrow> truthy (po_execution p) \<noteq> None \<and> ts_class s \<noteq> None \<and> po_class_run p = None)
      then Inl (fail ForbiddenT (''Tool policy for run '' @ run_name @ '' has no execution classification''))
      else
        (case resolve_target tool opts policy s of
           None \<Rightarrow> Inl (fail UnavailableT (''Tool '' @ tool @ '' is unavailable''))
         | Some x \<Rightarrow>
             if \<not> is_allowed_by_all tool (case policy of None \<Rightarrow> [[''*'']] | Some (_, p) \<Rightarrow> po_groups p)
             then Inl (fail ForbiddenT (''Tool '' @ tool @ '' is not allowed for this run''))
             else
               let call = (\<lambda>input. \<lparr>tk_tool = tool, tk_options = opts, tk_policy = policy, tk_target = x,
                     tk_input = input, tk_id = (case io_call opts of None \<Rightarrow> uuid | Some i \<Rightarrow> i)\<rparr>) in
               if aborted (call VNull) ext s then Inl SignalFailure
               else rbind (parse_input tool x candidate) (\<lambda>input. Inr (call input))))"

section \<open>Authorizing\<close>

definition call_session :: "tool_call \<Rightarrow> string option" where
  "call_session c = (case tk_policy c of None \<Rightarrow> None | Some (_, p) \<Rightarrow> po_session p)"

definition preflight_request :: "tool_call \<Rightarrow> authorization_request" where
  "preflight_request c =
     \<lparr>a_plugin = io_caller (tk_options c), a_feature = ''tool'', a_title = ''Approve '' @ tk_tool c,
      a_approval = target_approval (tk_target c), a_run = io_run (tk_options c), a_session = call_session c,
      a_tool_call = Some (tk_id c), a_grant = Some (tk_tool c),
      a_payload = rs_input (target_security (tk_target c)),
      a_capacity = rs_capacity (target_security (tk_target c)), a_report = None, a_used = False\<rparr>"

definition review_request :: "tool_call \<Rightarrow> authorization_result \<Rightarrow> scan_report \<Rightarrow> authorization_request" where
  "review_request c z report =
     \<lparr>a_plugin = io_caller (tk_options c), a_feature = ''tool'',
      a_title = ''Review '' @ tk_tool c @ '' result'',
      a_approval = ApAuto, a_run = io_run (tk_options c), a_session = call_session c,
      a_tool_call = Some (tk_id c), a_grant = Some (tk_tool c), a_payload = None, a_capacity = None,
      a_report = Some report, a_used = z_used z\<rparr>"

text \<open>\<open>#authorize\<close> when the authorizer throws.\<close>

definition authorize_failed :: "tool_call \<Rightarrow> trust_error \<Rightarrow> tool_service \<Rightarrow> call_error" where
  "authorize_failed c e s =
     (if is_current c s then TrustFailure e
      else
        (case io_run (tk_options c) of
           None \<Rightarrow> fail UnavailableT (''Tool '' @ tk_tool c @ '' is no longer available'')
         | Some run \<Rightarrow>
             if policy_is run (tk_policy c) s
             then fail UnavailableT (''Tool '' @ tk_tool c @ '' is no longer available'')
             else fail ForbiddenT (''Tool policy for run '' @ run @ '' is no longer active'')))"

definition unavailable_now :: "tool_call \<Rightarrow> call_error" where
  "unavailable_now c = fail UnavailableT (''Tool '' @ tk_tool c @ '' is no longer available'')"

text \<open>After the preflight decision.\<close>

definition after_preflight :: "tool_call \<Rightarrow> authorization_result \<Rightarrow> bool \<Rightarrow> tool_service \<Rightarrow> call_error + unit" where
  "after_preflight c z ext s =
     (if \<not> z_allowed z then Inl (denied (''Tool '' @ tk_tool c @ '' was denied'') (z_reasons z))
      else if aborted c ext s then Inl SignalFailure
      else if \<not> is_current c s then Inl (unavailable_now c)
      else Inr ())"

definition call_execution :: "tool_call \<Rightarrow> string option" where
  "call_execution c = (case tk_policy c of None \<Rightarrow> None | Some (_, p) \<Rightarrow> truthy (po_execution p))"

text \<open>The grant that lets the tool open a child execution.\<close>

definition create_call_grant :: "tool_call \<Rightarrow> world \<Rightarrow> call_error + nat option \<times> world" where
  "create_call_grant c w =
     (case (call_execution c, w_exec w) of
        (Some ex, Some xs) \<Rightarrow>
          (case create_parent_grant ex (target_plugin (tk_target c)) xs of
             Inl e \<Rightarrow> Inl (ExecutionFailure e)
           | Inr (g, xs') \<Rightarrow> Inr (Some g, w\<lparr>w_exec := Some xs'\<rparr>))
      | _ \<Rightarrow> Inr (None, w))"

text \<open>After \<open>beforeCommit\<close>: the last checks before the tool runs.\<close>

definition before_execute :: "tool_call \<Rightarrow> authorization_result \<Rightarrow> tool_service \<Rightarrow> call_error + unit" where
  "before_execute c z s =
     (if (case z_commitment z of None \<Rightarrow> False | Some cm \<Rightarrow> \<not> recheck (ts_class s) cm)
      then Inl (denied (''Tool '' @ tk_tool c @ '' was denied'')
             [''Run '' @ (case io_run (tk_options c) of None \<Rightarrow> ''unknown'' | Some r \<Rightarrow> r) @
              '' classification changed after approval.''])
      else if \<not> is_current c s then Inl (unavailable_now c)
      else Inr ())"

section \<open>Running the tool\<close>

record execution_args =
  ea_call :: string
  ea_run :: "string option"
  ea_execution :: "string option"
  ea_grant :: "nat option"
  ea_session :: "string option"
  ea_root :: "string option"

definition execution_args_of :: "tool_call \<Rightarrow> nat option \<Rightarrow> execution_args" where
  "execution_args_of c g =
     \<lparr>ea_call = tk_id c, ea_run = io_run (tk_options c),
      ea_execution = (case tk_policy c of None \<Rightarrow> None | Some (_, p) \<Rightarrow> po_execution p),
      ea_grant = g, ea_session = call_session c,
      ea_root = (if target_workspace (tk_target c)
                 then (case tk_policy c of None \<Rightarrow> None | Some (_, p) \<Rightarrow> po_root p) else None)\<rparr>"

text \<open>After the tool returned: parse the output and raise the run's classification.\<close>

definition after_execute :: "tool_call \<Rightarrow> jsval \<Rightarrow> bool \<Rightarrow> tool_service \<Rightarrow> call_error + jsval \<times> tool_service" where
  "after_execute c raw ext s =
     (if \<not> is_current c s then Inl (unavailable_now c)
      else if aborted c ext s then Inl SignalFailure
      else
        rbind (parse_output (tk_tool c) (tk_target c) raw) (\<lambda>out.
          case (io_run (tk_options c), ts_class s) of
            (Some run, Some cls) \<Rightarrow>
              (case raise_run run (show_classification (rs_output (target_security (tk_target c))))
                      (''tool '' @ tk_tool c @ '' output'') cls of
                 Inl e \<Rightarrow> Inl (ClassificationFailure e)
               | Inr (_, cls') \<Rightarrow> Inr (out, s\<lparr>ts_class := Some cls'\<rparr>))
          | _ \<Rightarrow> Inr (out, s)))"

text \<open>The observation of the result in the security context of the execution.\<close>

definition observation_reason :: "string \<Rightarrow> string" where
  "observation_reason tool = ''Tool '' @ tool @ '' produced a result''"

definition record_output ::
  "digest \<Rightarrow> (string \<Rightarrow> string) \<Rightarrow> string \<Rightarrow> string \<Rightarrow> tool_call \<Rightarrow> world \<Rightarrow> call_error + world" where
  "record_output sha sha_text oid now c w =
     (case (tk_policy c, call_execution c, w_exec w) of
        (Some (_, p), Some ex, Some xs) \<Rightarrow>
          (case observe_exec sha (po_owner p) ex (rs_output (target_security (tk_target c)))
                  (SeedPlugin (tool_provenance_id sha_text (tk_tool c)))
                  (observation_reason (tk_tool c)) oid now xs of
             Inl e \<Rightarrow> Inl (ExecutionFailure e)
           | Inr (_, xs') \<Rightarrow> Inr (w\<lparr>w_exec := Some xs'\<rparr>))
      | _ \<Rightarrow> Inr w)"

text \<open>\<open>#reviewOutput\<close>: whether the output must be scanned, and what its verdict means.\<close>

definition needs_review :: "tool_call \<Rightarrow> world \<Rightarrow> bool" where
  "needs_review c w = (rs_provenance (target_security (tk_target c)) = ExternalP \<and> w_scan w \<noteq> None)"

definition after_review :: "tool_call \<Rightarrow> authorization_result \<Rightarrow> call_error + unit" where
  "after_review c v =
     (if z_allowed v then Inr ()
      else Inl (denied (''Tool '' @ tk_tool c @ '' result was denied'') (z_reasons v)))"

section \<open>The order of the steps\<close>

text \<open>
  Where an authorization waits: for the grant lookup (before and after reading the store), for the
  answer to its own prompt, or for a prompt that an identical request already opened.
\<close>

datatype waiting =
    Looking authorization_request classification_snapshot
  | Looked authorization_request classification_snapshot bool
  | Asking authorization_request flight string "string list" commitment
  | Joined authorization_request string

text \<open>
  What an authorization learns from outside: a remembered grant that the lookup found, and an answer to
  the prompt it waits for, its own or one it joined.
\<close>

datatype auth_event =
    GrantFound approval_grant_key
  | Answered authorization_request string interaction_response

definition lookup_events :: "authorization_request \<Rightarrow> grant_store \<Rightarrow> auth_event list" where
  "lookup_events q g =
     (case grant_key q of None \<Rightarrow> [] | Some k \<Rightarrow> if has_now k g then [GrantFound k] else [])"

text \<open>
  One step of the authorizer with what it learned: it moves on (\<open>Inl\<close>) or ends with a result or an
  error (\<open>Inr\<close>). A joined request gets the result of the request that opened the prompt.
\<close>

inductive auth_step ::
  "trust_authorizer \<Rightarrow> waiting \<Rightarrow> auth_event list \<Rightarrow> trust_authorizer \<Rightarrow> waiting + (trust_error + authorization_result) \<Rightarrow> bool" where
  as_lookup: "ev = lookup_events q (ta_grants s) \<Longrightarrow> granted = (ev \<noteq> []) \<Longrightarrow>
    auth_step s (Looking q snap) ev s (Inl (Looked q snap granted))"
| as_done: "authorize_decided q snap granted uuid now ext s = Inr (Done z, s') \<Longrightarrow>
    auth_step s (Looked q snap granted) [] s' (Inr (Inr z))"
| as_ask: "authorize_decided q snap granted uuid now ext s = Inr (AwaitOwn key iid reasons cm, s') \<Longrightarrow>
    auth_step s (Looked q snap granted) [] s' (Inl (Asking q key iid reasons cm))"
| as_join: "authorize_decided q snap granted uuid now ext s = Inr (AwaitShared iid, s') \<Longrightarrow>
    auth_step s (Looked q snap granted) [] s' (Inl (Joined q iid))"
| as_error: "authorize_decided q snap granted uuid now ext s = Inl e \<Longrightarrow>
    auth_step s (Looked q snap granted) [] s (Inr (Inl e))"
| as_answer: "prompt_finish q key iid reasons cm r s = (z, s') \<Longrightarrow>
    auth_step s (Asking q key iid reasons cm) [Answered q iid r] s' (Inr (Inr z))"
| as_failed: "auth_step s (Asking q key iid reasons cm) [] s' (Inr (Inl (PromptFailed e)))"
| as_shared: "prompt_finish q' key iid reasons cm r s0 = (z, s1) \<Longrightarrow> flight_key kind q' reasons = flight_key kind q reasons \<Longrightarrow>
    c_run cm = a_run q' \<Longrightarrow> auth_step s (Joined q iid) [Answered q iid r] s (Inr (Inr z))"
| as_shared_failed: "auth_step s (Joined q iid) [] s (Inr (Inl e))"

datatype phase =
    PhPreflight tool_call waiting
  | PhGranting tool_call authorization_result
  | PhCommitting tool_call authorization_result "nat option"
  | PhRunning tool_call authorization_result execution_args
  | PhRecording tool_call authorization_result jsval
  | PhScanning tool_call authorization_result jsval
  | PhReviewing tool_call authorization_result jsval scan_report waiting
  | PhReturned tool_call authorization_result jsval
  | PhFailed call_error

fun settle_phase :: "call_error + 'a \<Rightarrow> ('a \<Rightarrow> phase) \<Rightarrow> phase" where
  "settle_phase (Inl e) f = PhFailed e"
| "settle_phase (Inr x) f = f x"

text \<open>\<open>authorize\<close> up to its first await, from the pipeline: an aborted signal goes through \<open>#authorize\<close>.\<close>

definition begin_auth ::
  "tool_call \<Rightarrow> authorization_request \<Rightarrow> bool \<Rightarrow> tool_service \<Rightarrow> call_error + waiting" where
  "begin_auth c q ext s =
     (case authorize_start q (aborted c ext s) (ts_class s) of
        Inl e \<Rightarrow> Inl (authorize_failed c e s)
      | Inr snap \<Rightarrow> Inr (Looking q snap))"

definition start_phase :: "string \<Rightarrow> jsval \<Rightarrow> invocation_options \<Rightarrow> bool \<Rightarrow> string \<Rightarrow> world \<Rightarrow> phase" where
  "start_phase tool candidate opts ext uuid w =
     settle_phase (invoke_begin tool candidate opts ext uuid (w_tools w)) (\<lambda>c.
       settle_phase (begin_auth c (preflight_request c) ext (w_tools w)) (PhPreflight c))"

definition wrapped :: "tool_call \<Rightarrow> call_error + 'a \<Rightarrow> call_error + 'a" where
  "wrapped c r = (case r of Inl e \<Rightarrow> Inl (wrap_failed (tk_tool c) e) | Inr x \<Rightarrow> Inr x)"

definition after_record :: "tool_call \<Rightarrow> authorization_result \<Rightarrow> jsval \<Rightarrow> world \<Rightarrow> phase" where
  "after_record c z out w = (if needs_review c w then PhScanning c z out else PhReturned c z out)"

text \<open>The scan of the output: \<open>stringify\<close> is \<open>JSON.stringify\<close>, \<open>behave\<close> what the scanners do.\<close>

definition scan_output ::
  "(jsval \<Rightarrow> string) \<Rightarrow> (string \<Rightarrow> string \<Rightarrow> bool \<Rightarrow> scan_result) \<Rightarrow> tool_call \<Rightarrow> jsval \<Rightarrow> bool \<Rightarrow> bool \<Rightarrow> scanner_registry
    \<Rightarrow> call_error + scan_report" where
  "scan_output stringify behave c out ext ext' sr =
     (case scan behave ''tool_result'' (stringify out) ext ext' sr of
        Inl e \<Rightarrow> Inl (ScanFailure e) | Inr report \<Rightarrow> Inr report)"

inductive call_step ::
  "digest \<Rightarrow> (string \<Rightarrow> string) \<Rightarrow> (jsval \<Rightarrow> string) \<Rightarrow> (string \<Rightarrow> string \<Rightarrow> bool \<Rightarrow> scan_result)
    \<Rightarrow> world \<Rightarrow> phase \<Rightarrow> auth_event list \<Rightarrow> world \<Rightarrow> phase \<Rightarrow> bool"
  for sha sha_text stringify behave where
  cs_wait: "auth_step (w_trust w) a ev tr (Inl a') \<Longrightarrow>
    call_step sha sha_text stringify behave w (PhPreflight c a) ev (w\<lparr>w_trust := tr\<rparr>) (PhPreflight c a')"
| cs_error: "auth_step (w_trust w) a ev tr (Inr (Inl e)) \<Longrightarrow>
    call_step sha sha_text stringify behave w (PhPreflight c a) ev (w\<lparr>w_trust := tr\<rparr>) (PhFailed (authorize_failed c e (w_tools w)))"
| cs_decided: "auth_step (w_trust w) a ev tr (Inr (Inr z)) \<Longrightarrow>
    call_step sha sha_text stringify behave w (PhPreflight c a) ev (w\<lparr>w_trust := tr\<rparr>)
      (settle_phase (after_preflight c z ext (w_tools w)) (\<lambda>_. PhGranting c z))"
| cs_grant_failed: "create_call_grant c w = Inl e \<Longrightarrow>
    call_step sha sha_text stringify behave w (PhGranting c z) [] w (PhFailed e)"
| cs_granted: "create_call_grant c w = Inr (g, w') \<Longrightarrow>
    call_step sha sha_text stringify behave w (PhGranting c z) [] w' (PhCommitting c z g)"
| cs_hook_failed: "call_step sha sha_text stringify behave w (PhCommitting c z g) [] w (PhFailed HookFailure)"
| cs_execute: "call_step sha sha_text stringify behave w (PhCommitting c z g) [] w
    (settle_phase (before_execute c z (w_tools w)) (\<lambda>_. PhRunning c z (execution_args_of c g)))"
| cs_threw: "call_step sha sha_text stringify behave w (PhRunning c z x) [] w (PhFailed (wrap_failed (tk_tool c) ToolThrew))"
| cs_result_bad: "after_execute c raw ext (w_tools w) = Inl e \<Longrightarrow>
    call_step sha sha_text stringify behave w (PhRunning c z x) [] w (PhFailed (wrap_failed (tk_tool c) e))"
| cs_result: "after_execute c raw ext (w_tools w) = Inr (out, s') \<Longrightarrow>
    call_step sha sha_text stringify behave w (PhRunning c z x) [] (w\<lparr>w_tools := s'\<rparr>) (PhRecording c z out)"
| cs_record_failed: "record_output sha sha_text oid now c w = Inl e \<Longrightarrow>
    call_step sha sha_text stringify behave w (PhRecording c z out) [] w (PhFailed (wrap_failed (tk_tool c) e))"
| cs_recorded: "record_output sha sha_text oid now c w = Inr w' \<Longrightarrow>
    call_step sha sha_text stringify behave w (PhRecording c z out) [] w' (after_record c z out w')"
| cs_scanned: "w_scan w = Some sr \<Longrightarrow>
    call_step sha sha_text stringify behave w (PhScanning c z out) [] w
      (settle_phase (wrapped c (rbind (scan_output stringify behave c out ext ext' sr) (\<lambda>report.
         rbind (begin_auth c (review_request c z report) ext (w_tools w)) (\<lambda>a. Inr (report, a)))))
       (\<lambda>(report, a). PhReviewing c z out report a))"
| cs_review_wait: "auth_step (w_trust w) a ev tr (Inl a') \<Longrightarrow>
    call_step sha sha_text stringify behave w (PhReviewing c z out report a) ev (w\<lparr>w_trust := tr\<rparr>) (PhReviewing c z out report a')"
| cs_review_error: "auth_step (w_trust w) a ev tr (Inr (Inl e)) \<Longrightarrow>
    call_step sha sha_text stringify behave w (PhReviewing c z out report a) ev (w\<lparr>w_trust := tr\<rparr>)
      (PhFailed (wrap_failed (tk_tool c) (authorize_failed c e (w_tools w))))"
| cs_reviewed: "auth_step (w_trust w) a ev tr (Inr (Inr v)) \<Longrightarrow>
    call_step sha sha_text stringify behave w (PhReviewing c z out report a) ev (w\<lparr>w_trust := tr\<rparr>)
      (settle_phase (wrapped c (after_review c v)) (\<lambda>_. PhReturned c z out))"

text \<open>
  Anything else may happen between two steps: registrations come and go, prompts are answered,
  executions change. The classification service changes only by its own operations, and a service
  the constructor was not given never appears.
\<close>

definition world_changes :: "world \<Rightarrow> world \<Rightarrow> bool" where
  "world_changes w w' \<longleftrightarrow>
     (\<exists>ops. ts_class (w_tools w') = map_option (class_trace ops) (ts_class (w_tools w))) \<and>
     (w_scan w' = None \<longleftrightarrow> w_scan w = None)"

inductive call_reach ::
  "digest \<Rightarrow> (string \<Rightarrow> string) \<Rightarrow> (jsval \<Rightarrow> string) \<Rightarrow> (string \<Rightarrow> string \<Rightarrow> bool \<Rightarrow> scan_result)
    \<Rightarrow> world \<Rightarrow> phase \<Rightarrow> auth_event list \<Rightarrow> world \<Rightarrow> phase \<Rightarrow> bool"
  for sha sha_text stringify behave w0 p0 where
  cr_start: "call_reach sha sha_text stringify behave w0 p0 [] w0 p0"
| cr_step: "call_reach sha sha_text stringify behave w0 p0 evs w p \<Longrightarrow>
    call_step sha sha_text stringify behave w p ev w' p' \<Longrightarrow>
    call_reach sha sha_text stringify behave w0 p0 (evs @ ev) w' p'"
| cr_other: "call_reach sha sha_text stringify behave w0 p0 evs w p \<Longrightarrow> world_changes w w' \<Longrightarrow>
    call_reach sha sha_text stringify behave w0 p0 evs w' p"

section \<open>What an authorization establishes\<close>

text \<open>
  \<open>u\<close> says that the request has no classified run, so that its snapshot is the unclassified one;
  \<open>evs\<close> is what was learned so far.
\<close>

definition grant_found :: "auth_event list \<Rightarrow> authorization_request \<Rightarrow> bool" where
  "grant_found evs q \<longleftrightarrow> (\<exists>k. grant_key q = Some k \<and> List.member evs (GrantFound k))"

definition user_allowed :: "auth_event list \<Rightarrow> authorization_request \<Rightarrow> bool" where
  "user_allowed evs q \<longleftrightarrow> (\<exists>iid r. List.member evs (Answered q iid r) \<and> response_allows r)"

definition waiting_ok :: "bool \<Rightarrow> auth_event list \<Rightarrow> authorization_request \<Rightarrow> waiting \<Rightarrow> bool" where
  "waiting_ok u evs q a =
     (case a of
        Looking q' snap \<Rightarrow> q' = q \<and> (u \<longrightarrow> snap = UNCLASSIFIED_SNAPSHOT)
      | Looked q' snap granted \<Rightarrow>
          q' = q \<and> (u \<longrightarrow> snap = UNCLASSIFIED_SNAPSHOT) \<and> (granted \<longrightarrow> grant_found evs q)
      | Asking q' key iid reasons cm \<Rightarrow>
          q' = q \<and> (\<exists>snap granted kind. decide q snap granted = NeedPrompt kind reasons cm)
      | Joined q' iid \<Rightarrow>
          q' = q \<and> (\<exists>snap granted kind reasons cm. decide q snap granted = NeedPrompt kind reasons cm))"

definition allowed_silently :: "bool \<Rightarrow> auth_event list \<Rightarrow> authorization_request \<Rightarrow> authorization_result \<Rightarrow> bool" where
  "allowed_silently u evs q z \<longleftrightarrow>
     (\<exists>snap granted. z_commitment z = Some (create_commitment (a_run q) snap) \<and> passes_silently q snap granted \<and>
        (granted \<longrightarrow> grant_found evs q) \<and> (u \<longrightarrow> snap = UNCLASSIFIED_SNAPSHOT))"

definition allowed_by_user :: "auth_event list \<Rightarrow> authorization_request \<Rightarrow> bool" where
  "allowed_by_user evs q \<longleftrightarrow> user_allowed evs q \<and> \<not> a_used q \<and> \<not> refused_outright q"

definition result_ok :: "bool \<Rightarrow> auth_event list \<Rightarrow> authorization_request \<Rightarrow> authorization_result \<Rightarrow> bool" where
  "result_ok u evs q z \<longleftrightarrow> (z_allowed z \<longrightarrow> allowed_silently u evs q z \<or> allowed_by_user evs q)"

lemma learned_more:
  "grant_found evs q \<Longrightarrow> grant_found (evs @ ev) q" "user_allowed evs q \<Longrightarrow> user_allowed (evs @ ev) q"
  by (auto simp: grant_found_def user_allowed_def List.member_iff)

lemma result_ok_more: "result_ok u evs q z \<Longrightarrow> result_ok u (evs @ ev) q z"
  by (auto simp: result_ok_def allowed_silently_def allowed_by_user_def intro: learned_more)

lemma lookup_finds: "lookup_events q g \<noteq> [] \<Longrightarrow> grant_found (evs @ lookup_events q g) q"
  by (auto simp: lookup_events_def grant_found_def List.member_iff split: option.splits if_splits)

lemma decide_prompt:
  assumes "decide q snap granted = NeedPrompt kind reasons cm"
  shows "\<not> a_used q" "\<not> refused_outright q"
  using assms decide_asks [of q snap granted] by simp_all

lemma decide_final:
  assumes "decide q snap granted = Final z" and "z_allowed z"
  shows "z_commitment z = Some (create_commitment (a_run q) snap)" "passes_silently q snap granted"
proof -
  show "z_commitment z = Some (create_commitment (a_run q) snap)"
    using assms by (auto simp: decide_def Let_def split: if_splits)
  show "passes_silently q snap granted" using assms decide_silent by blast
qed

lemma decided_cases:
  assumes "authorize_decided q snap granted uuid now ext s = Inr (out, s')"
  shows "(\<exists>z. decide q snap granted = Final z \<and> out = Done z) \<or>
    (\<exists>kind reasons cm. decide q snap granted = NeedPrompt kind reasons cm \<and>
       ((\<exists>key iid. out = AwaitOwn key iid reasons cm) \<or> (\<exists>iid. out = AwaitShared iid)))"
  using assms
  by (auto simp: authorize_decided_def Let_def simp del: split_paired_Ex
      split: decision.splits option.splits sum.splits)

text \<open>An answer allows only what the user allowed.\<close>

lemma finish_allowed: "prompt_finish q key iid reasons cm r s = (z, s') \<Longrightarrow> z_allowed z \<Longrightarrow> response_allows r"
  by (auto simp: prompt_finish_def Let_def split: if_splits)

lemma auth_step_waiting:
  assumes "auth_step s a ev s' (Inl a')" and "waiting_ok u evs q a"
  shows "waiting_ok u (evs @ ev) q a'"
  using assms
proof (cases rule: auth_step.cases)
  case (as_lookup q' granted snap)
  with assms(2) show ?thesis using lookup_finds by (simp add: waiting_ok_def)
next
  case (as_ask q' snap granted uuid now ext key iid reasons cm)
  from decided_cases [OF as_ask(4)] have "\<exists>kind. decide q' snap granted = NeedPrompt kind reasons cm" by auto
  then show ?thesis using as_ask assms(2) unfolding waiting_ok_def by simp blast
next
  case (as_join q' snap granted uuid now ext iid)
  with decided_cases [OF as_join(4)] obtain kind reasons cm where "decide q' snap granted = NeedPrompt kind reasons cm"
    by auto
  then show ?thesis using as_join assms(2) unfolding waiting_ok_def by simp blast
qed

lemma auth_step_result:
  assumes "auth_step s a ev s' (Inr (Inr z))" and "waiting_ok u evs q a"
  shows "result_ok u (evs @ ev) q z"
  using assms
proof (cases rule: auth_step.cases)
  case (as_done q' snap granted uuid now ext)
  then have d: "decide q snap granted = Final z" and g: "granted \<longrightarrow> grant_found evs q"
      "u \<longrightarrow> snap = UNCLASSIFIED_SNAPSHOT" using decided_cases [OF as_done(3)] assms(2)
    by (auto simp: waiting_ok_def)
  show ?thesis using decide_final [OF d] g as_done(2) by (auto simp: result_ok_def allowed_silently_def)
next
  case (as_answer q' key iid reasons cm r)
  then obtain snap granted kind where d: "q' = q" "decide q snap granted = NeedPrompt kind reasons cm"
    using assms(2) by (auto simp: waiting_ok_def)
  then show ?thesis using decide_prompt [OF d(2)] as_answer finish_allowed [OF as_answer(3)]
    by (auto simp: result_ok_def allowed_by_user_def user_allowed_def List.member_iff)
next
  case (as_shared q' key iid reasons cm r s0 s1 kind q'')
  then obtain snap granted kind reasons cm where d: "q'' = q" "decide q snap granted = NeedPrompt kind reasons cm"
    using assms(2) by (auto simp: waiting_ok_def)
  then show ?thesis using decide_prompt [OF d(2)] as_shared finish_allowed [OF as_shared(4)]
    by (auto simp: result_ok_def allowed_by_user_def user_allowed_def List.member_iff)
qed

section \<open>What the phases establish\<close>

definition unclassified :: "tool_call \<Rightarrow> world \<Rightarrow> bool" where
  "unclassified c w = (ts_class (w_tools w) = None \<or> io_run (tk_options c) = None)"

definition call_ok :: "string \<Rightarrow> jsval \<Rightarrow> invocation_options \<Rightarrow> tool_call \<Rightarrow> bool" where
  "call_ok tool candidate opts c \<longleftrightarrow>
     tk_tool c = tool \<and> tk_options c = opts \<and>
     parse_input tool (tk_target c) candidate = Inr (tk_input c) \<and>
     (case tk_policy c of None \<Rightarrow> truthy (io_run opts) = None
      | Some (_, p) \<Rightarrow> po_owner p = io_caller opts \<and> is_allowed_by_all tool (po_groups p))"

definition authorized :: "auth_event list \<Rightarrow> tool_call \<Rightarrow> authorization_result \<Rightarrow> world \<Rightarrow> bool" where
  "authorized evs c z w \<longleftrightarrow> z_allowed z \<and> result_ok (unclassified c w) evs (preflight_request c) z"

text \<open>The level of the run's record, as long as it is one of the records \<open>h\<close>.\<close>

definition level_covers :: "nat set \<Rightarrow> tool_call \<Rightarrow> world \<Rightarrow> bool" where
  "level_covers h c w \<longleftrightarrow>
     (\<forall>run cls t e. io_run (tk_options c) = Some run \<longrightarrow> ts_class (w_tools w) = Some cls \<longrightarrow>
        jget (cs_runs cls) run = Some (t, e) \<longrightarrow> t \<in> h \<longrightarrow> rs_output (target_security (tk_target c)) \<le> rc_level e)"

text \<open>\<open>R\<close> is what is known of the report that a review is about.\<close>

type_synonym scan_fact = "tool_call \<Rightarrow> authorization_result \<Rightarrow> jsval \<Rightarrow> scan_report \<Rightarrow> bool"

fun phase_ok ::
  "scan_fact \<Rightarrow> string \<Rightarrow> jsval \<Rightarrow> invocation_options \<Rightarrow> nat set \<Rightarrow> auth_event list \<Rightarrow> world \<Rightarrow> phase \<Rightarrow> bool" where
  "phase_ok R tool v opts h evs w (PhPreflight c a) \<longleftrightarrow>
     call_ok tool v opts c \<and> waiting_ok (unclassified c w) evs (preflight_request c) a"
| "phase_ok R tool v opts h evs w (PhGranting c z) \<longleftrightarrow> call_ok tool v opts c \<and> authorized evs c z w"
| "phase_ok R tool v opts h evs w (PhCommitting c z _) \<longleftrightarrow> call_ok tool v opts c \<and> authorized evs c z w"
| "phase_ok R tool v opts h evs w (PhRunning c z _) \<longleftrightarrow> call_ok tool v opts c \<and> authorized evs c z w"
| "phase_ok R tool v opts h evs w (PhRecording c z _) \<longleftrightarrow>
     call_ok tool v opts c \<and> authorized evs c z w \<and> level_covers h c w"
| "phase_ok R tool v opts h evs w (PhScanning c z _) \<longleftrightarrow>
     call_ok tool v opts c \<and> authorized evs c z w \<and> level_covers h c w"
| "phase_ok R tool v opts h evs w (PhReviewing c z out report a) \<longleftrightarrow>
     call_ok tool v opts c \<and> authorized evs c z w \<and> level_covers h c w \<and> R c z out report \<and>
     waiting_ok (unclassified c w) evs (review_request c z report) a"
| "phase_ok R tool v opts h evs w (PhReturned c z out) \<longleftrightarrow>
     call_ok tool v opts c \<and> authorized evs c z w \<and> level_covers h c w \<and>
     (needs_review c w \<longrightarrow> (\<exists>report u. R c z out report \<and> z_allowed u \<and>
        result_ok (unclassified c w) evs (review_request c z report) u))"
| "phase_ok R tool v opts h evs w (PhFailed _) \<longleftrightarrow> True"

definition issued :: "nat set \<Rightarrow> world \<Rightarrow> bool" where
  "issued h w \<longleftrightarrow> (\<forall>cls. ts_class (w_tools w) = Some cls \<longrightarrow> (\<forall>t \<in> h. t < cs_next cls))"

lemma phase_ok_settle [simp]:
  "phase_ok R tool v opts h evs w (settle_phase r g) \<longleftrightarrow> (\<forall>x. r = Inr x \<longrightarrow> phase_ok R tool v opts h evs w (g x))"
  by (cases r) simp_all

lemma begin_auth_waiting:
  "begin_auth c q ext (w_tools w) = Inr a \<Longrightarrow> a_run q = io_run (tk_options c) \<Longrightarrow> waiting_ok (unclassified c w) evs q a"
  by (auto simp: begin_auth_def authorize_start_def waiting_ok_def unclassified_def snapshot_def
      split: sum.splits if_splits option.splits)

lemma preflight_run [simp]: "a_run (preflight_request c) = io_run (tk_options c)"
  "a_used (preflight_request c) = False" "a_approval (preflight_request c) = target_approval (tk_target c)"
  "a_report (preflight_request c) = None" "a_capacity (preflight_request c) = rs_capacity (target_security (tk_target c))"
  "a_payload (preflight_request c) = rs_input (target_security (tk_target c))"
  by (simp_all add: preflight_request_def)

lemma review_run [simp]: "a_run (review_request c z r) = io_run (tk_options c)" "a_used (review_request c z r) = z_used z"
  "a_report (review_request c z r) = Some r" "a_approval (review_request c z r) = ApAuto"
  by (simp_all add: review_request_def)

lemma invoke_begin_ok:
  assumes "invoke_begin tool v opts ext uuid s = Inr c"
  shows "call_ok tool v opts c"
  using assms
  by (auto simp: invoke_begin_def Let_def rbind_Inr call_ok_def split: if_splits option.splits prod.splits)

lemma start_phase_ok: "phase_ok R tool v opts h evs w (start_phase tool v opts ext uuid w)"
  by (auto simp: start_phase_def invoke_begin_ok begin_auth_waiting)

lemma wrapped_Inr [simp]: "wrapped c r = Inr x \<longleftrightarrow> r = Inr x" "wrapped c (Inr x) = Inr x"
  by (cases r) (simp_all add: wrapped_def)

lemma authorized_world: "unclassified c w' = unclassified c w \<Longrightarrow> authorized evs c z w' = authorized evs c z w"
  by (simp add: authorized_def)

lemma unclassified_trust [simp]: "unclassified c (w\<lparr>w_trust := tr\<rparr>) = unclassified c w"
  "unclassified c (w\<lparr>w_exec := x\<rparr>) = unclassified c w"
  by (simp_all add: unclassified_def)

lemma authorized_trust [simp]: "authorized evs c z (w\<lparr>w_trust := tr\<rparr>) = authorized evs c z w"
  "authorized evs c z (w\<lparr>w_exec := x\<rparr>) = authorized evs c z w"
  by (simp_all add: authorized_def)

lemma level_covers_trust [simp]: "level_covers h c (w\<lparr>w_trust := tr\<rparr>) = level_covers h c w"
  "level_covers h c (w\<lparr>w_exec := x\<rparr>) = level_covers h c w"
  by (simp_all add: level_covers_def)

lemma needs_review_trust [simp]: "needs_review c (w\<lparr>w_trust := tr\<rparr>) = needs_review c w"
  "needs_review c (w\<lparr>w_exec := x\<rparr>) = needs_review c w"
  by (simp_all add: needs_review_def)

lemma parse_show_raise: "raise_run run (show_classification l) why cls = Inr (snap, cls') \<Longrightarrow>
    jget (cs_runs cls') run = Some (t, e) \<Longrightarrow> l \<le> rc_level e"
  by (auto simp: raise_run_def raise_entry_def Let_def split: option.splits if_splits)

lemma raise_keeps_next: "raise_run run l why cls = Inr (snap, cls') \<Longrightarrow> cs_next cls' = cs_next cls"
  by (auto simp: raise_run_def Let_def split: option.splits if_splits)

lemma after_execute_cases:
  assumes "after_execute c raw ext s = Inr (out, s')"
  obtains (plain) "io_run (tk_options c) = None \<or> ts_class s = None" "s' = s"
    | (raised) run cls snap cls' where "io_run (tk_options c) = Some run" "ts_class s = Some cls"
      "raise_run run (show_classification (rs_output (target_security (tk_target c))))
         (''tool '' @ tk_tool c @ '' output'') cls = Inr (snap, cls')" "s' = s\<lparr>ts_class := Some cls'\<rparr>"
proof (cases "io_run (tk_options c)")
  case None
  then show ?thesis using assms plain by (auto simp: after_execute_def rbind_Inr split: if_splits)
next
  case (Some run)
  show ?thesis
  proof (cases "ts_class s")
    case None
    then show ?thesis using Some assms plain by (auto simp: after_execute_def rbind_Inr split: if_splits)
  next
    case c: (Some cls)
    show ?thesis
    proof (cases "raise_run run (show_classification (rs_output (target_security (tk_target c))))
         (''tool '' @ tk_tool c @ '' output'') cls")
      case (Inl e)
      then show ?thesis using Some c assms by (auto simp: after_execute_def rbind_Inr split: if_splits)
    next
      case (Inr x)
      then show ?thesis using Some c assms raised
        by (cases x) (auto simp: after_execute_def rbind_Inr split: if_splits)
    qed
  qed
qed

lemma after_execute_covers:
  assumes "after_execute c raw ext (w_tools w) = Inr (out, s')"
  shows "level_covers h c (w\<lparr>w_tools := s'\<rparr>)" "unclassified c (w\<lparr>w_tools := s'\<rparr>) = unclassified c w"
    "issued h w \<Longrightarrow> issued h (w\<lparr>w_tools := s'\<rparr>)"
  using assms
  by (cases rule: after_execute_cases;
      auto simp: level_covers_def unclassified_def issued_def dest: parse_show_raise raise_keeps_next)+

lemma world_exec_same [simp]: "\<exists>x. w = w\<lparr>w_exec := x\<rparr>"
  by (rule exI [of _ "w_exec w"]) simp

lemma create_call_grant_world: "create_call_grant c w = Inr (g, w') \<Longrightarrow> \<exists>x. w' = w\<lparr>w_exec := x\<rparr>"
  by (auto simp: create_call_grant_def split: option.splits sum.splits)

lemma record_output_world: "record_output sha st oid now c w = Inr w' \<Longrightarrow> \<exists>x. w' = w\<lparr>w_exec := x\<rparr>"
  by (auto simp: record_output_def split: option.splits sum.splits)

lemma after_preflight_ok: "after_preflight c z ext s = Inr x \<Longrightarrow> z_allowed z \<and> is_current c s"
  by (auto simp: after_preflight_def split: if_splits)

lemma authorized_more: "authorized evs c z w \<Longrightarrow> authorized (evs @ ev) c z w"
  by (auto simp: authorized_def intro: result_ok_more)

text \<open>What the scan step says of its report, when it found the registry of the world \<open>w\<close>.\<close>

definition scan_report_at ::
  "(jsval \<Rightarrow> string) \<Rightarrow> (string \<Rightarrow> string \<Rightarrow> bool \<Rightarrow> scan_result) \<Rightarrow> world \<Rightarrow> jsval \<Rightarrow> scan_report \<Rightarrow> bool" where
  "scan_report_at f behave w out report \<longleftrightarrow>
     (\<exists>sr. w_scan w = Some sr \<and> scan behave ''tool_result'' (f out) False False sr = Inr report)"

lemma scan_unaborted: "scan behave st text e1 e2 sr = Inr report \<Longrightarrow> scan behave st text False False sr = Inr report"
  by (auto simp: scan_def Let_def split: option.splits if_splits)

lemma scan_output_Inr: "scan_output f behave c out e1 e2 sr = Inr report \<longleftrightarrow>
    scan behave ''tool_result'' (f out) e1 e2 sr = Inr report"
  by (cases "scan behave ''tool_result'' (f out) e1 e2 sr") (simp_all add: scan_output_def)

lemma phase_ok_step:
  assumes "call_step sha st f behave w p ev w' p'" and "phase_ok R tool v opts h evs w p"
    and R: "\<And>c z out report. p = PhScanning c z out \<Longrightarrow> scan_report_at f behave w out report \<Longrightarrow> R c z out report"
  shows "phase_ok R tool v opts h (evs @ ev) w' p'"
  using assms(1,2)
proof (cases rule: call_step.cases)
  case (cs_wait a tr a' c)
  with auth_step_waiting [OF cs_wait(4)] assms(2) show ?thesis by simp
next
  case (cs_decided a tr z c ext)
  then have "result_ok (unclassified c w) (evs @ ev) (preflight_request c) z"
    using assms(2) auth_step_result [OF cs_decided(4)] by simp
  moreover have "call_ok tool v opts c" using cs_decided(1) assms(2) by simp
  ultimately show ?thesis
    unfolding cs_decided(2,3) by (simp add: authorized_def) (blast dest: after_preflight_ok)
next
  case (cs_granted c g z)
  obtain x where "w' = w\<lparr>w_exec := x\<rparr>" using create_call_grant_world [OF cs_granted(4)] by blast
  then show ?thesis using cs_granted(1,2,3) assms(2) by auto
next
  case (cs_execute c z g)
  then show ?thesis using assms(2) by auto
next
  case (cs_result c raw ext out s' z x)
  note covers = after_execute_covers(1,2) [OF cs_result(5)]
  have "authorized evs c z w' = authorized evs c z w" unfolding cs_result(3) by (rule authorized_world [OF covers(2)])
  with cs_result(1,2,4) assms(2) covers(1) show ?thesis unfolding cs_result(3) by simp
next
  case (cs_recorded oid now c z out)
  obtain x where "w' = w\<lparr>w_exec := x\<rparr>" using record_output_world [OF cs_recorded(4)] by blast
  then show ?thesis using cs_recorded(1,2,3) assms(2) by (simp add: after_record_def)
next
  case (cs_scanned sr c z out ext ext')
  have "R c z out report" if "scan_output f behave c out ext ext' sr = Inr report" for report
    using R [OF cs_scanned(1)] that cs_scanned(5) scan_unaborted unfolding scan_report_at_def scan_output_Inr by blast
  then show ?thesis
    using cs_scanned assms(2) by (auto simp: rbind_Inr dest: begin_auth_waiting)
next
  case (cs_review_wait a tr a' c z out report)
  with auth_step_waiting [OF cs_review_wait(4)] assms(2) show ?thesis by (simp add: authorized_more)
next
  case (cs_reviewed a tr u c z out report)
  then have "result_ok (unclassified c w) (evs @ ev) (review_request c z report) u"
    using assms(2) auth_step_result [OF cs_reviewed(4)] by simp
  with cs_reviewed show ?thesis
    using assms(2) by (auto simp: after_review_def authorized_more split: if_splits)
qed simp_all

section \<open>Interference\<close>

lemma world_changes_facts:
  assumes "world_changes w w'"
  shows "unclassified c w' = unclassified c w" "needs_review c w' = needs_review c w"
    "issued h w \<Longrightarrow> issued h w'" "issued h w \<Longrightarrow> level_covers h c w \<Longrightarrow> level_covers h c w'"
proof -
  obtain ops where ops: "ts_class (w_tools w') = map_option (class_trace ops) (ts_class (w_tools w))"
    and scan: "w_scan w' = None \<longleftrightarrow> w_scan w = None" using assms by (auto simp: world_changes_def)
  show "unclassified c w' = unclassified c w" by (simp add: unclassified_def ops)
  show "needs_review c w' = needs_review c w" using scan by (auto simp: needs_review_def)
  show "issued h w'" if "issued h w"
    using that class_trace_next_mono [of _ ops] by (auto simp: issued_def ops intro: less_le_trans)
  show "level_covers h c w'" if "issued h w" "level_covers h c w"
    unfolding level_covers_def
  proof (intro allI impI)
    fix run cls' t e'
    assume r: "io_run (tk_options c) = Some run" "ts_class (w_tools w') = Some cls'" "jget (cs_runs cls') run = Some (t, e')"
      and t: "t \<in> h"
    then obtain cls where cls: "ts_class (w_tools w) = Some cls" "cls' = class_trace ops cls" using ops by auto
    have "t < cs_next cls" using that(1) cls(1) t by (simp add: issued_def)
    from class_trace_entry [OF this r(3) [unfolded cls(2)]] obtain e
      where e: "jget (cs_runs cls) run = Some (t, e)" "entry_le e e'" by blast
    have "rs_output (target_security (tk_target c)) \<le> rc_level e"
      using that(2) r(1) cls(1) e(1) t unfolding level_covers_def by blast
    also have "\<dots> \<le> rc_level e'" using e(2) by (simp add: entry_le_def)
    finally show "rs_output (target_security (tk_target c)) \<le> rc_level e'" .
  qed
qed

lemma phase_ok_changes:
  assumes "world_changes w w'" and "issued h w" and "phase_ok R tool v opts h evs w p"
  shows "phase_ok R tool v opts h evs w' p"
proof -
  note facts = world_changes_facts(1,2) [OF assms(1)] world_changes_facts(4) [OF assms(1,2)]
  have "authorized evs c z w' = authorized evs c z w" for c z by (rule authorized_world [OF facts(1)])
  with assms(3) facts show ?thesis by (cases p) simp_all
qed

lemma issued_exec [simp]: "issued h (w\<lparr>w_exec := x\<rparr>) = issued h w" "issued h (w\<lparr>w_trust := tr\<rparr>) = issued h w"
  by (simp_all add: issued_def)

lemma issued_step:
  assumes "call_step sha st f behave w p ev w' p'" and i: "issued h w"
  shows "issued h w'"
  using assms(1)
proof (cases rule: call_step.cases)
  case (cs_granted c g z)
  obtain x where "w' = w\<lparr>w_exec := x\<rparr>" using create_call_grant_world [OF cs_granted(4)] by blast
  with i show ?thesis by simp
next
  case (cs_result c raw ext out s' z x)
  from after_execute_covers(3) [OF cs_result(5) i] show ?thesis unfolding cs_result(3) .
next
  case (cs_recorded oid now c z out)
  obtain x where "w' = w\<lparr>w_exec := x\<rparr>" using record_output_world [OF cs_recorded(4)] by blast
  with i show ?thesis by simp
qed (use i in simp_all)

text \<open>The output was scanned in a state the invocation was in.\<close>

definition was_scanned ::
  "digest \<Rightarrow> (string \<Rightarrow> string) \<Rightarrow> (jsval \<Rightarrow> string) \<Rightarrow> (string \<Rightarrow> string \<Rightarrow> bool \<Rightarrow> scan_result)
    \<Rightarrow> world \<Rightarrow> phase \<Rightarrow> scan_fact" where
  "was_scanned sha st f behave w0 p0 c z out report \<longleftrightarrow>
     (\<exists>evs w. call_reach sha st f behave w0 p0 evs w (PhScanning c z out) \<and> scan_report_at f behave w out report)"

lemma call_reach_ok:
  assumes "call_reach sha st f behave w0 p0 evs w p"
    and "phase_ok (was_scanned sha st f behave w0 p0) tool v opts h [] w0 p0" and "issued h w0"
  shows "phase_ok (was_scanned sha st f behave w0 p0) tool v opts h evs w p \<and> issued h w"
  using assms
proof (induction rule: call_reach.induct)
  case (cr_step evs w p ev w' p')
  then show ?case
    using phase_ok_step [OF cr_step(2), of "was_scanned sha st f behave w0 p0"] issued_step [OF cr_step(2)]
    unfolding was_scanned_def by blast
next
  case (cr_other evs w p w')
  then show ?case using phase_ok_changes world_changes_facts(3) by blast
qed simp




section \<open>Properties\<close>



text \<open>
  C14: The output of a tool classifies the run it went into: when an invocation for a run returns and
  the run still has the record it had when the invocation began, the level of that record is at least the
  classification of the tool's output.
\<close>

theorem tool_output_raises_run:
  assumes "call_reach sha st f behave w0 (start_phase tool candidate opts ext uuid w0) evs w (PhReturned c z out)"
    and "ts_class (w_tools w0) = Some cls0" and "class_inv cls0" and "io_run opts = Some run"
    and "jget (cs_runs cls0) run = Some (t, e0)"
    and "ts_class (w_tools w) = Some cls" and "jget (cs_runs cls) run = Some (t, e)"
  shows "rs_output (target_security (tk_target c)) \<le> rc_level e"
proof -
  have "t < cs_next cls0" using assms(3,5) by (auto simp: class_inv_def)
  then have "issued {t} w0" using assms(2) by (simp add: issued_def)
  from call_reach_ok [OF assms(1) start_phase_ok this]
  have ok: "phase_ok (was_scanned sha st f behave w0 (start_phase tool candidate opts ext uuid w0)) tool candidate opts {t} evs w
      (PhReturned c z out)" by blast
  then have "level_covers {t} c w" "io_run (tk_options c) = Some run"
    using assms(4) by (auto simp: call_ok_def)
  with assms(6,7) show ?thesis by (auto simp: level_covers_def)
qed

text \<open>
  C15: The registry accepts tool ids of up to 512 characters, but in a run that is bound to an execution a
  tool with an id of more than 489 characters never returns: the reason of its observation is too
  long for the execution service, so the invocation fails after the tool has run.
\<close>

theorem long_tool_id_fails_after_running:
  assumes "489 < length (tk_tool c)" and "call_execution c = Some ex" and "w_exec w = Some xs"
    and "call_step sha st f behave w (PhRecording c z out) ev w' p'"
  shows "p' = PhFailed (fail FailedT (''Tool '' @ tk_tool c @ '' failed''))"
proof -
  have r: "record_output sha st oid now c w = Inl (ExecutionFailure InvalidInput)" for oid now
  proof -
    obtain t p where "tk_policy c = Some (t, p)" using assms(2) by (auto simp: call_execution_def split: option.splits)
    moreover have "\<not> exec_reason_ok (observation_reason (tk_tool c))"
      using assms(1) by (simp add: exec_reason_ok_def observation_reason_def)
    ultimately show ?thesis using assms(2,3) by (simp add: record_output_def observe_exec_def)
  qed
  show ?thesis
    using assms(4) by (cases rule: call_step.cases) (auto simp: r wrap_failed_def)
qed

text \<open>One invocation of a static tool with external, confidential output in an internal run.\<close>

definition ex_tool :: tool_contribution where
  "ex_tool = \<lparr>tc_id = VStr ''m.t'', tc_description = VStr ''a tool'', tc_approval = VStr ''auto'',
     tc_side_effect = VBool False, tc_input = Some Some, tc_output = Some Some,
     tc_input_schema = VObj [], tc_security = VObj [(''outputClassification'', VStr ''confidential''),
       (''outputProvenance'', VStr ''external''), (''channelCapacity'', VStr ''internal'')],
     tc_executes = True\<rparr>"

definition ex_service :: tool_service where
  "ex_service = snd (projr (register_run_policy ''r'' ''chat'' [''m.*''] (ex_context\<lparr>pc_initial := Some ''internal''\<rparr>)
     (snd (projr (register_tool ''m'' ex_tool False (new_tool_service (Some new_classification_service)))))))"

definition ex_world :: world where
  "ex_world = \<lparr>w_tools = ex_service, w_trust = demo_authorizer, w_exec = None, w_scan = Some demo_registry\<rparr>"

definition ex_options :: invocation_options where
  "ex_options = \<lparr>io_caller = ''chat'', io_call = None, io_run = Some ''r''\<rparr>"

definition ex_call :: tool_call where
  "ex_call = projr (invoke_begin ''m.t'' VNull ex_options False ''u'' ex_service)"

definition ex_snap :: classification_snapshot where
  "ex_snap = \<lparr>snap_level = Internal, snap_version = 1\<rparr>"

definition ex_result :: authorization_result where
  "ex_result = \<lparr>z_allowed = True, z_used = False, z_reasons = [],
     z_commitment = Some (create_commitment (Some ''r'') ex_snap)\<rparr>"

definition ex_after :: tool_service where
  "ex_after = snd (projr (after_execute ex_call VNull False ex_service))"

definition ex_scan :: scan_report where
  "ex_scan = \<lparr>r_stage = ToolResult, r_findings = [], r_failures = [], r_coverage = Complete,
     r_truncated = False, r_unavailable = ReviewA\<rparr>"

lemma not_isl: "\<not> isl r \<Longrightarrow> r = Inr (projr r)"
  by (cases r) simp_all

lemma ex_begin: "invoke_begin ''m.t'' VNull ex_options False ''u'' ex_service = Inr ex_call"
  unfolding ex_call_def by (rule not_isl) code_simp

lemma ex_call_asks:
  "begin_auth ex_call (preflight_request ex_call) False ex_service = Inr (Looking (preflight_request ex_call) ex_snap)"
  "decide (preflight_request ex_call) ex_snap False = Final ex_result"
  by code_simp+

lemma ex_call_checks:
  "after_preflight ex_call ex_result False ex_service = Inr ()"
  "before_execute ex_call ex_result ex_service = Inr ()"
  "call_execution ex_call = None"
  by code_simp+

lemma ex_call_security:
  "rs_provenance (target_security (tk_target ex_call)) = ExternalP"
  "rs_output (target_security (tk_target ex_call)) = Confidential"
  by code_simp+

lemma ex_executes: "after_execute ex_call VNull False ex_service = Inr (VNull, ex_after)"
  unfolding ex_after_def by (rule projr_pair) code_simp+

lemma ex_review:
  "begin_auth ex_call (review_request ex_call ex_result ex_scan) False ex_after =
     Inr (Looking (review_request ex_call ex_result ex_scan) (ex_snap\<lparr>snap_level := Confidential, snap_version := 2\<rparr>))"
  "decide (review_request ex_call ex_result ex_scan) (ex_snap\<lparr>snap_level := Confidential, snap_version := 2\<rparr>) False =
     Final (ex_result\<lparr>z_commitment := Some (create_commitment (Some ''r'') (ex_snap\<lparr>snap_level := Confidential, snap_version := 2\<rparr>))\<rparr>)"
  by code_simp+

lemma ex_scanned: "scan (\<lambda>_ _ _. Returned (VArr [])) ''tool_result'' ''null'' False False demo_registry = Inr ex_scan"
proof -
  have n: "stage_scanners ToolResult demo_registry = [''s.x'']" by code_simp
  show ?thesis
    by (simp add: scan_def Let_def n scan_outcomes_def run_scanner_def parse_findings_def ex_scan_def
        coverage_of_def most_severe_def List.map_filter_def MAX_SCAN_TEXT_LENGTH_def parse_stage_def
        MAX_SCAN_FINDINGS_def UNAVAILABLE_SCAN_ACTION_def)
qed

lemma no_grant: "lookup_events q (ta_grants demo_authorizer) = []"
  by (simp add: lookup_events_def has_now_def demo_authorizer_def new_grant_store_def split: option.split)

text \<open>A request that the decision settles at once passes the authorizer in two steps.\<close>

lemma auth_silent:
  shows "auth_step demo_authorizer (Looking q snap) [] demo_authorizer (Inl (Looked q snap False))"
    and "decide q snap False = Final z \<Longrightarrow>
      auth_step demo_authorizer (Looked q snap False) [] demo_authorizer (Inr (Inr z))"
proof -
  show "auth_step demo_authorizer (Looking q snap) [] demo_authorizer (Inl (Looked q snap False))"
    by (rule as_lookup) (simp_all add: no_grant)
  assume d: "decide q snap False = Final z"
  have "authorize_decided q snap False [] 0 False demo_authorizer = Inr (Done z, demo_authorizer)"
    by (simp add: authorize_decided_def d)
  then show "auth_step demo_authorizer (Looked q snap False) [] demo_authorizer (Inr (Inr z))" by (rule as_done)
qed

lemma silent_steps:
  assumes "w_trust w = demo_authorizer"
  shows "call_step sha st f behave w (PhPreflight c (Looking q snap)) [] w (PhPreflight c (Looked q snap False))"
    "decide q snap False = Final z \<Longrightarrow> call_step sha st f behave w (PhPreflight c (Looked q snap False)) [] w
       (settle_phase (after_preflight c z False (w_tools w)) (\<lambda>_. PhGranting c z))"
    "call_step sha st f behave w (PhReviewing c z' out report (Looking q snap)) [] w (PhReviewing c z' out report (Looked q snap False))"
    "decide q snap False = Final z \<Longrightarrow> call_step sha st f behave w (PhReviewing c z' out report (Looked q snap False)) [] w
       (settle_phase (wrapped c (after_review c z)) (\<lambda>_. PhReturned c z' out))"
proof -
  have w: "w\<lparr>w_trust := demo_authorizer\<rparr> = w" using assms by (cases w) simp
  show "call_step sha st f behave w (PhPreflight c (Looking q snap)) [] w (PhPreflight c (Looked q snap False))"
    "call_step sha st f behave w (PhReviewing c z' out report (Looking q snap)) [] w (PhReviewing c z' out report (Looked q snap False))"
    using cs_wait [of w _ _ demo_authorizer, unfolded assms, OF auth_silent(1)]
      cs_review_wait [of w _ _ demo_authorizer, unfolded assms, OF auth_silent(1)] by (simp_all only: w)
  assume d: "decide q snap False = Final z"
  note silent = auth_silent(2) [OF d]
  show "call_step sha st f behave w (PhPreflight c (Looked q snap False)) [] w
       (settle_phase (after_preflight c z False (w_tools w)) (\<lambda>_. PhGranting c z))"
    "call_step sha st f behave w (PhReviewing c z' out report (Looked q snap False)) [] w
       (settle_phase (wrapped c (after_review c z)) (\<lambda>_. PhReturned c z' out))"
    using cs_decided [of w _ _ demo_authorizer, unfolded assms, OF silent]
      cs_reviewed [of w _ _ demo_authorizer, unfolded assms, OF silent] by (simp_all only: w)
qed

lemma ex_world_simps [simp]:
  "w_tools ex_world = ex_service" "w_trust ex_world = demo_authorizer" "w_exec ex_world = None"
  "w_scan ex_world = Some demo_registry"
  by (simp_all add: ex_world_def)

lemma ex_started: "start_phase ''m.t'' VNull ex_options False ''u'' ex_world =
    PhPreflight ex_call (Looking (preflight_request ex_call) ex_snap)"
  by (simp add: start_phase_def ex_begin ex_call_asks)

abbreviation ex_step :: "world \<Rightarrow> phase \<Rightarrow> world \<Rightarrow> phase \<Rightarrow> bool" where
  "ex_step w p w' p' \<equiv> call_step demo_sha (\<lambda>x. x) (\<lambda>_. ''null'') (\<lambda>_ _ _. Returned (VArr [])) w p [] w' p'"

abbreviation ex_reach :: "world \<Rightarrow> phase \<Rightarrow> bool" where
  "ex_reach w p \<equiv> call_reach demo_sha (\<lambda>x. x) (\<lambda>_. ''null'') (\<lambda>_ _ _. Returned (VArr [])) ex_world
     (start_phase ''m.t'' VNull ex_options False ''u'' ex_world) [] w p"

text \<open>Steps in which nothing is learned from outside.\<close>

lemmas ex_next = cr_step [where evs = "[]" and ev = "[]", unfolded append_Nil]

lemma ex_committing: "ex_reach ex_world (PhCommitting ex_call ex_result None)"
proof -
  note steps = silent_steps [OF ex_world_simps(2)]
  have "ex_reach ex_world (PhPreflight ex_call (Looking (preflight_request ex_call) ex_snap))"
    unfolding ex_started by (rule cr_start)
  from ex_next [OF this steps(1)]
  have "ex_reach ex_world (PhPreflight ex_call (Looked (preflight_request ex_call) ex_snap False))" .
  from ex_next [OF this steps(2) [OF ex_call_asks(2)]]
  have "ex_reach ex_world (PhGranting ex_call ex_result)" by (simp add: ex_call_checks(1))
  from ex_next [OF this cs_granted] show ?thesis by (simp add: create_call_grant_def ex_call_checks(3))
qed

lemma ex_execute_step: "ex_step ex_world (PhCommitting ex_call ex_result None)
    ex_world (PhRunning ex_call ex_result (execution_args_of ex_call None))"
  using cs_execute [of demo_sha "\<lambda>x. x" "\<lambda>_. ''null''" "\<lambda>_ _ _. Returned (VArr [])" ex_world ex_call ex_result None]
    ex_call_checks(2) by simp

definition ex_world2 :: world where
  "ex_world2 = ex_world\<lparr>w_tools := ex_after\<rparr>"

lemma ex_world2_simps [simp]:
  "w_tools ex_world2 = ex_after" "w_trust ex_world2 = demo_authorizer" "w_exec ex_world2 = None"
  "w_scan ex_world2 = Some demo_registry"
  by (simp_all add: ex_world2_def ex_world_def)

lemma ex_scanning: "ex_reach ex_world2 (PhScanning ex_call ex_result VNull)"
proof -
  have "ex_reach ex_world (PhRunning ex_call ex_result (execution_args_of ex_call None))"
    by (rule ex_next [OF ex_committing ex_execute_step])
  moreover have "ex_step ex_world (PhRunning ex_call ex_result (execution_args_of ex_call None))
      ex_world2 (PhRecording ex_call ex_result VNull)"
    unfolding ex_world2_def by (rule cs_result [where ext = False and raw = VNull]) (simp add: ex_executes)
  ultimately have "ex_reach ex_world2 (PhRecording ex_call ex_result VNull)" by (rule ex_next)
  moreover have "record_output demo_sha (\<lambda>x. x) [] [] ex_call ex_world2 = Inr ex_world2"
    by (simp add: record_output_def split: option.split)
  then have "ex_step ex_world2 (PhRecording ex_call ex_result VNull) ex_world2
      (after_record ex_call ex_result VNull ex_world2)" by (rule cs_recorded)
  ultimately have "ex_reach ex_world2 (after_record ex_call ex_result VNull ex_world2)" by (rule ex_next)
  then show ?thesis by (simp add: after_record_def needs_review_def ex_call_security)
qed

lemma ex_returned: "ex_reach ex_world2 (PhReturned ex_call ex_result VNull)"
proof -
  note steps = silent_steps [OF ex_world2_simps(2)]
  let ?q = "review_request ex_call ex_result ex_scan"
  let ?snap = "ex_snap\<lparr>snap_level := Confidential, snap_version := 2\<rparr>"
  have "wrapped ex_call (rbind (scan_output (\<lambda>_. ''null'') (\<lambda>_ _ _. Returned (VArr [])) ex_call VNull False False demo_registry)
      (\<lambda>report. rbind (begin_auth ex_call (review_request ex_call ex_result report) False ex_after) (\<lambda>a. Inr (report, a))))
    = Inr (ex_scan, Looking ?q ?snap)"
    by (simp add: scan_output_Inr rbind_Inr ex_scanned ex_review(1))
  then have "ex_step ex_world2 (PhScanning ex_call ex_result VNull)
      ex_world2 (PhReviewing ex_call ex_result VNull ex_scan (Looking ?q ?snap))"
    using cs_scanned [of ex_world2 demo_registry demo_sha "\<lambda>x. x" "\<lambda>_. ''null''" "\<lambda>_ _ _. Returned (VArr [])"
      ex_call ex_result VNull False False] by simp
  from ex_next [OF ex_scanning this] have "ex_reach ex_world2 (PhReviewing ex_call ex_result VNull ex_scan (Looking ?q ?snap))" .
  from ex_next [OF this steps(3)]
  have "ex_reach ex_world2 (PhReviewing ex_call ex_result VNull ex_scan (Looked ?q ?snap False))" .
  from ex_next [OF this steps(4) [OF ex_review(2)]]
  show ?thesis by (simp add: after_review_def ex_result_def wrapped_def)
qed



lemma tool_output_raises_run_witness:
  "\<exists>cls e. ts_class ex_after = Some cls \<and> jget (cs_runs cls) ''r'' = Some (0, e) \<and> Confidential \<le> rc_level e"
proof -
  define cls0 where "cls0 = the (ts_class ex_service)"
  define cls where "cls = the (ts_class ex_after)"
  define e0 where "e0 = snd (the (jget (cs_runs cls0) ''r''))"
  define e where "e = snd (the (jget (cs_runs cls) ''r''))"
  have open0: "\<exists>s. open_run ''r'' (Some ''internal'') new_classification_service = Inr (0, s) \<and> ts_class ex_service = Some s"
    by (rule exI [of _ "the (ts_class ex_service)"]) code_simp
  then have "class_inv cls0" and c0: "ts_class ex_service = Some cls0"
    using class_inv_open [OF class_inv_new] by (auto simp: cls0_def)
  have r0: "jget (cs_runs cls0) ''r'' = Some (0, e0)" unfolding e0_def cls0_def by code_simp
  have c1: "ts_class ex_after = Some cls" unfolding cls_def by code_simp
  have r1: "jget (cs_runs cls) ''r'' = Some (0, e)" unfolding e_def cls_def by code_simp
  have "Confidential \<le> rc_level e"
    using tool_output_raises_run [OF ex_returned _ \<open>class_inv cls0\<close> _ r0 _ r1] c0 c1 ex_call_security(2)
    by (simp add: ex_options_def)
  with c1 r1 show ?thesis by blast
qed

text \<open>A tool whose id the registry accepts and whose invocations in an execution all fail.\<close>

definition long_id :: string where
  "long_id = ''m.'' @ replicate 490 (CHR ''t'')"

definition long_call :: tool_call where
  "long_call = ex_call\<lparr>tk_tool := long_id, tk_policy := Some (0, (snd (the (tk_policy ex_call)))\<lparr>po_execution := Some ''e''\<rparr>)\<rparr>"

lemma long_tool_id_fails_after_running_witness:
  "id_ok TOOL_ID 512 (VStr long_id) \<and>
   (\<exists>w'. ex_step (ex_world\<lparr>w_exec := Some new_execution_service\<rparr>) (PhRecording long_call ex_result VNull) w'
     (PhFailed (fail FailedT (''Tool '' @ long_id @ '' failed''))))"
proof -
  let ?w = "ex_world\<lparr>w_exec := Some new_execution_service\<rparr>"
  have t: "tk_tool long_call = long_id" "call_execution long_call = Some ''e''"
    by (simp_all add: long_call_def call_execution_def truthy_def)
  have len: "489 < length (tk_tool long_call)" by (simp add: t(1) long_id_def)
  have "\<not> exec_reason_ok (observation_reason long_id)"
    by (simp add: exec_reason_ok_def observation_reason_def long_id_def)
  then have "record_output demo_sha (\<lambda>x. x) [] [] long_call ?w = Inl (ExecutionFailure InvalidInput)"
    using t by (simp add: record_output_def observe_exec_def long_call_def)
  then have step: "ex_step ?w (PhRecording long_call ex_result VNull) ?w
      (PhFailed (wrap_failed (tk_tool long_call) (ExecutionFailure InvalidInput)))" by (rule cs_record_failed)
  have "w_exec ?w = Some new_execution_service" by simp
  from long_tool_id_fails_after_running [OF len t(2) this step] step t(1)
  have "ex_step ?w (PhRecording long_call ex_result VNull) ?w (PhFailed (fail FailedT (''Tool '' @ long_id @ '' failed'')))"
    by simp
  moreover have "id_ok TOOL_ID 512 (VStr long_id)" by code_simp
  ultimately show ?thesis by blast
qed

end
