(* ===== verification/Plugin_Manager.thy ===== *)
theory Plugin_Manager
  imports Engine_Range Distribution Command_Bus Json_Schema
begin

text \<open>
  The lifecycle of plugins (\<open>PluginManager\<close> in \<open>packages/kernel/src/plugin-manager.ts\<close>): manifests,
  activation with its staged registrations, deactivation, and enabling and disabling. Activation and
  deactivation await the plugin's own code, so each is a sequence of operations of the model and
  any others may run in between.

  An attempt to activate (the closure of one call of \<open>activate\<close>: controller, disposables, staged
  registrations) is an identity, and so is every registration at a service. \<open>pm_live\<close> holds the
  registrations that are in effect, with the attempt that made them and the kind of service. The API
  closures that the context hands to a plugin are represented by what they do to the attempt: stage
  or track a registration.
\<close>

section \<open>Manifests\<close>

record manifest =
  mf_id :: string
  mf_version :: string
  mf_engine :: string
  mf_main :: string
  mf_ui :: "string option"
  mf_permissions :: "string list"
  mf_commands :: "string list option"
  mf_events :: "string list option"
  mf_points :: "string list option"
  mf_kinds :: "string list option"

definition semantic_version_rx :: rx where
  "semantic_version_rx =
     RSeq numeric_id (RSeq (rset ''.'') (RSeq numeric_id (RSeq (rset ''.'') (RSeq numeric_id
    (RSeq (ropt (RSeq (rset ''-'') dotted_idents)) (ropt (RSeq (rset ''+'') dotted_idents)))))))"

definition nonempty_string :: "jsval \<Rightarrow> string option" where
  "nonempty_string v = (case v of VStr s \<Rightarrow> if s = [] then None else Some s | _ \<Rightarrow> None)"

definition string_array :: "jsval \<Rightarrow> string list option" where
  "string_array v =
     (case v of VArr xs \<Rightarrow> if list_all is_string xs then Some (map str_val xs) else None | _ \<Rightarrow> None)"

text \<open>A field that may be absent: \<open>Some None\<close> when it is, \<open>None\<close> when it is there and wrong.\<close>

definition optional_field :: "(jsval \<Rightarrow> 'a option) \<Rightarrow> jsval \<Rightarrow> 'a option option" where
  "optional_field p v = (if v = VUndef then Some None else map_option Some (p v))"

definition is_object :: "jsval \<Rightarrow> bool" where
  "is_object v = (case v of VObj _ \<Rightarrow> True | _ \<Rightarrow> False)"

text \<open>\<open>pluginManifestSchema.safeParse\<close>.\<close>

definition parse_manifest :: "jsval \<Rightarrow> manifest option" where
  "parse_manifest v =
     (if \<not> is_object v \<or> \<not> is_object (getp v ''engines'') \<or> \<not> is_object (getp v ''contributes'') then None
      else
        let c = getp v ''contributes'' in
        (case (getp v ''id'', getp v ''version'', nonempty_string (getp (getp v ''engines'') ''borg''),
               nonempty_string (getp v ''main''), optional_field nonempty_string (getp v ''ui''),
               string_array (getp v ''permissions'')) of
           (VStr i, VStr ver, Some engine, Some main, Some ui, Some perms) \<Rightarrow>
             (case (optional_field string_array (getp c ''commands''), optional_field string_array (getp c ''events''),
                    optional_field string_array (getp c ''extensionPoints''), optional_field string_array (getp c ''kinds'')) of
                (Some cmds, Some evs, Some pts, Some ks) \<Rightarrow>
                  if rx_match plugin_id_pattern i \<and> rx_match semantic_version_rx ver
                  then Some \<lparr>mf_id = i, mf_version = ver, mf_engine = engine, mf_main = main, mf_ui = ui,
                             mf_permissions = perms, mf_commands = cmds, mf_events = evs, mf_points = pts,
                             mf_kinds = ks\<rparr>
                  else None
              | _ \<Rightarrow> None)
         | _ \<Rightarrow> None))"

text \<open>What \<open>loadMain\<close> returns, without its functions.\<close>

record plugin_definition =
  df_id :: string
  df_version :: string
  df_engine :: string
  df_permissions :: "string list"
  df_commands :: "string list option"
  df_events :: "string list option"
  df_points :: "string list option"
  df_kinds :: "string list option"

definition sorted_values :: "string list option \<Rightarrow> string list" where
  "sorted_values vs = sort_by (\<lambda>x y. \<not> str_less y x) (case vs of None \<Rightarrow> [] | Some xs \<Rightarrow> xs)"

text \<open>The JSON texts of two arrays of strings are equal when the arrays are.\<close>

definition same_values :: "string list option \<Rightarrow> string list option \<Rightarrow> bool" where
  "same_values l r = (sorted_values l = sorted_values r)"

definition definitions_agree :: "manifest \<Rightarrow> plugin_definition \<Rightarrow> bool" where
  "definitions_agree m d \<longleftrightarrow>
     mf_id m = df_id d \<and> mf_version m = df_version d \<and> mf_engine m = df_engine d \<and>
     same_values (Some (mf_permissions m)) (Some (df_permissions d)) \<and>
     same_values (mf_commands m) (df_commands d) \<and> same_values (mf_events m) (df_events d) \<and>
     same_values (mf_points m) (df_points d) \<and> same_values (mf_kinds m) (df_kinds d)"

section \<open>The state\<close>

datatype plugin_status =
  Discovered | Incompatible | Activating | Active | Deactivating | DisabledP | FailedP

record plugin_record =
  pr_version :: string
  pr_status :: plugin_status

text \<open>The services whose registrations a plugin can hold.\<close>

datatype service =
  BusS | ToolsS | ModelsS | PromptsS | MemoryS | ScannersS | ChannelsS | GraphS | SchedulerS | OtherS

text \<open>
  A disposable of an attempt: the placeholder of the \<open>n\<close>-th staged registration, or a registration
  that was made directly. A staged registration is whether its placeholder was disposed, its service
  and, once committed, the registration.
\<close>

datatype disposable = Staged nat | Tracked nat

datatype attempt_phase = Running | Committed | Failing | Closing | Closed

record attempt =
  at_manifest :: manifest
  at_phase :: attempt_phase
  at_staged :: "(bool \<times> service \<times> nat option) list"
  at_disposables :: "disposable list"

record plugin_manager =
  pm_host :: string
  pm_records :: "(string, plugin_record) jmap"
  pm_sources :: "(string, jsval) jmap"
  pm_locks :: "(string, string) jmap"
  pm_disabled :: "string list"
  pm_stored :: "string list"
  pm_active :: "(string, nat) jmap"
  pm_order :: "string list"
  pm_attempts :: "(nat, attempt) jmap"
  pm_live :: "(nat, nat \<times> service) jmap"
  pm_next :: nat

text \<open>\<open>pm_stored\<close> is the document of the namespace \<open>system.plugins\<close>.\<close>

definition new_plugin_manager :: "string \<Rightarrow> string list \<Rightarrow> plugin_manager" where
  "new_plugin_manager host stored = \<lparr>pm_host = host, pm_records = [], pm_sources = [], pm_locks = [],
     pm_disabled = [], pm_stored = stored, pm_active = [], pm_order = [], pm_attempts = [], pm_live = [],
     pm_next = 0\<rparr>"

definition attempt_aborted :: "attempt \<Rightarrow> bool" where
  "attempt_aborted a = (at_phase a \<in> {Failing, Closing, Closed})"

definition set_status :: "string \<Rightarrow> string \<Rightarrow> plugin_status \<Rightarrow> plugin_manager \<Rightarrow> plugin_manager" where
  "set_status p ver st s = s\<lparr>pm_records := jset p \<lparr>pr_version = ver, pr_status = st\<rparr> (pm_records s)\<rparr>"

definition status_of :: "string \<Rightarrow> plugin_manager \<Rightarrow> plugin_status option" where
  "status_of p s = map_option pr_status (jget (pm_records s) p)"

definition put_attempt :: "nat \<Rightarrow> attempt \<Rightarrow> plugin_manager \<Rightarrow> plugin_manager" where
  "put_attempt a att s = s\<lparr>pm_attempts := jset a att (pm_attempts s)\<rparr>"

section \<open>Activation\<close>

datatype load_error =
    BadManifest
  | ReservedEventId string
  | DiscoveredTwice
  | ContextInactive
  | RegistrationFailed
  | UnknownPlugin
  | PluginLocked string
  | NoStoredSource
  | ConfigWriteFailed

datatype begun = NotCompatible | Begun nat

text \<open>\<open>activate\<close> up to the first await. The source is remembered even when it is refused.\<close>

definition activate_begin :: "jsval \<Rightarrow> plugin_manager \<Rightarrow> (load_error + begun) \<times> plugin_manager" where
  "activate_begin v s =
     (case parse_manifest v of
        None \<Rightarrow> (Inl BadManifest, s)
      | Some m \<Rightarrow>
          let s1 = s\<lparr>pm_sources := jset (mf_id m) v (pm_sources s)\<rparr> in
          (case List.find is_kernel_only_event (case mf_events m of None \<Rightarrow> [] | Some es \<Rightarrow> es) of
             Some e \<Rightarrow> (Inl (ReservedEventId e), s1)
           | None \<Rightarrow>
               if status_of (mf_id m) s1 \<noteq> None \<and> status_of (mf_id m) s1 \<noteq> Some DisabledP
               then (Inl DiscoveredTwice, s1)
               else
                 let s2 = s1\<lparr>pm_records := jdel (mf_id m) (pm_records s1)\<rparr> in
                 if \<not> satisfies_borg_engine (mf_engine m) (pm_host s)
                 then (Inr NotCompatible, set_status (mf_id m) (mf_version m) Incompatible s2)
                 else
                   let a = pm_next s2;
                       att = \<lparr>at_manifest = m, at_phase = Running, at_staged = [], at_disposables = []\<rparr>
                   in (Inr (Begun a),
                       put_attempt a att (set_status (mf_id m) (mf_version m) Activating (s2\<lparr>pm_next := Suc a\<rparr>)))))"

text \<open>
  \<open>stage\<close>: before the commit a registration is only noted; afterwards it is made at once.
  \<open>ok\<close> is whether the service accepts it.
\<close>

definition plugin_stage :: "nat \<Rightarrow> service \<Rightarrow> bool \<Rightarrow> plugin_manager \<Rightarrow> load_error + disposable \<times> plugin_manager" where
  "plugin_stage a svc ok s =
     (case jget (pm_attempts s) a of
        None \<Rightarrow> Inl ContextInactive
      | Some att \<Rightarrow>
          if attempt_aborted att then Inl ContextInactive
          else if at_phase att = Committed then
            (if \<not> ok then Inl RegistrationFailed
             else
               let t = pm_next s in
               Inr (Tracked t, put_attempt a (att\<lparr>at_disposables := at_disposables att @ [Tracked t]\<rparr>)
                      (s\<lparr>pm_live := jset t (a, svc) (pm_live s), pm_next := Suc t\<rparr>)))
          else
            let d = Staged (length (at_staged att)) in
            Inr (d, put_attempt a (att\<lparr>at_disposables := at_disposables att @ [d],
                                       at_staged := at_staged att @ [(False, svc, None)]\<rparr>) s))"

text \<open>
  A registration that is made at once and tracked, also before the commit: \<open>runtime.spawn\<close>, which starts a
  background task. \<open>assertContextActive\<close> comes before \<open>track\<close>, which itself only appends; every caller of
  \<open>track\<close> makes that check first.
\<close>

definition plugin_track :: "nat \<Rightarrow> service \<Rightarrow> plugin_manager \<Rightarrow> load_error + disposable \<times> plugin_manager" where
  "plugin_track a svc s =
     (case jget (pm_attempts s) a of
        None \<Rightarrow> Inl ContextInactive
      | Some att \<Rightarrow>
          if attempt_aborted att then Inl ContextInactive
          else
            let t = pm_next s in
            Inr (Tracked t, put_attempt a (att\<lparr>at_disposables := at_disposables att @ [Tracked t]\<rparr>)
                   (s\<lparr>pm_live := jset t (a, svc) (pm_live s), pm_next := Suc t\<rparr>)))"

text \<open>\<open>dispose\<close> of one disposable; \<open>ok\<close> is whether the registration's own disposal succeeds.\<close>

definition dispose_one :: "nat \<Rightarrow> disposable \<Rightarrow> bool \<Rightarrow> plugin_manager \<Rightarrow> plugin_manager" where
  "dispose_one a d ok s =
     (case jget (pm_attempts s) a of
        None \<Rightarrow> s
      | Some att \<Rightarrow>
          (case d of
             Tracked t \<Rightarrow> if ok then s\<lparr>pm_live := jdel t (pm_live s)\<rparr> else s
           | Staged i \<Rightarrow>
               if \<not> i < length (at_staged att) then s
               else
                 (case at_staged att ! i of
                    (_, svc, c) \<Rightarrow>
                      let s1 = put_attempt a (att\<lparr>at_staged := (at_staged att)[i := (True, svc, c)]\<rparr>) s in
                      (case c of None \<Rightarrow> s1 | Some t \<Rightarrow> if ok then s1\<lparr>pm_live := jdel t (pm_live s1)\<rparr> else s1))))"

text \<open>
  \<open>#disposeAll\<close>: newest first; \<open>outcomes\<close> lists which disposals succeed, and a list that is too short
  is a deadline that ran out.
\<close>

definition dispose_all :: "nat \<Rightarrow> bool list \<Rightarrow> plugin_manager \<Rightarrow> plugin_manager" where
  "dispose_all a outcomes s =
     (case jget (pm_attempts s) a of
        None \<Rightarrow> s
      | Some att \<Rightarrow> fold (\<lambda>(d, ok). dispose_one a d ok) (zip (rev (at_disposables att)) outcomes) s)"

text \<open>
  The loop that commits what was staged, in order. \<open>outcomes\<close> are the services' answers; it stops at
  the first refusal.
\<close>

fun commit_staged ::
  "nat \<Rightarrow> bool list \<Rightarrow> nat \<Rightarrow> (bool \<times> service \<times> nat option) list
    \<Rightarrow> (bool \<times> service \<times> nat option) list \<times> (nat \<times> nat \<times> service) list \<times> nat \<times> bool" where
  "commit_staged a outcomes n [] = ([], [], n, True)"
| "commit_staged a outcomes n ((dead, svc, c) # rest) =
     (if dead then
        (case commit_staged a outcomes n rest of (st, lv, m, ok) \<Rightarrow> ((dead, svc, c) # st, lv, m, ok))
      else
        (case outcomes of
           [] \<Rightarrow> ((dead, svc, c) # rest, [], n, False)
         | ok1 # outs \<Rightarrow>
             if \<not> ok1 then ((dead, svc, c) # rest, [], n, False)
             else
               (case commit_staged a outs (Suc n) rest of
                  (st, lv, m, ok) \<Rightarrow> ((False, svc, Some n) # st, (n, a, svc) # lv, m, ok))))"

text \<open>Services whose \<open>removePlugin\<close> a failed activation and a deactivation call.\<close>

definition FAILURE_SWEEP :: "service list" where
  "FAILURE_SWEEP = [ToolsS, ModelsS, PromptsS, MemoryS, ScannersS, ChannelsS]"

definition DEACTIVATE_SWEEP :: "service list" where
  "DEACTIVATE_SWEEP = [BusS, ToolsS, ModelsS, PromptsS, MemoryS, ScannersS, ChannelsS, GraphS, SchedulerS]"

definition sweep :: "service list \<Rightarrow> string \<Rightarrow> plugin_manager \<Rightarrow> plugin_manager" where
  "sweep svcs p s =
     s\<lparr>pm_live := jfilter (\<lambda>_ (a, svc). \<not> (List.member svcs svc \<and>
          map_option (\<lambda>att. mf_id (at_manifest att)) (jget (pm_attempts s) a) = Some p)) (pm_live s)\<rparr>"

text \<open>The \<open>catch\<close> of \<open>activate\<close>: up to its awaits, and after them.\<close>

definition fail_begin :: "nat \<Rightarrow> plugin_manager \<Rightarrow> plugin_manager" where
  "fail_begin a s =
     (case jget (pm_attempts s) a of
        None \<Rightarrow> s
      | Some att \<Rightarrow> sweep FAILURE_SWEEP (mf_id (at_manifest att)) (put_attempt a (att\<lparr>at_phase := Failing\<rparr>) s))"

definition fail_end :: "nat \<Rightarrow> bool list \<Rightarrow> plugin_manager \<Rightarrow> plugin_manager" where
  "fail_end a outcomes s =
     (case jget (pm_attempts s) a of
        None \<Rightarrow> s
      | Some att \<Rightarrow>
          if at_phase att \<noteq> Failing then s
          else
            let s1 = sweep [BusS] (mf_id (at_manifest att)) (dispose_all a outcomes s)
            in (case jget (pm_attempts s1) a of
                  None \<Rightarrow> s1
                | Some att1 \<Rightarrow>
                    set_status (mf_id (at_manifest att)) (mf_version (at_manifest att)) FailedP
                      (put_attempt a (att1\<lparr>at_phase := Closed\<rparr>) s1)))"

text \<open>After \<open>loadMain\<close>: \<open>None\<close> when it threw.\<close>

definition activate_loaded :: "nat \<Rightarrow> plugin_definition option \<Rightarrow> plugin_manager \<Rightarrow> plugin_manager" where
  "activate_loaded a d s =
     (case jget (pm_attempts s) a of
        None \<Rightarrow> s
      | Some att \<Rightarrow>
          if at_phase att \<noteq> Running then s
          else (case d of
                  None \<Rightarrow> fail_begin a s
                | Some df \<Rightarrow> if definitions_agree (at_manifest att) df then s else fail_begin a s))"

text \<open>
  After the plugin's \<open>activate\<close>: it threw, or it returned, perhaps with a disposable of its own
  (\<open>extra\<close>), and the staged registrations are committed.
\<close>

definition activate_returned :: "nat \<Rightarrow> bool \<Rightarrow> bool \<Rightarrow> bool list \<Rightarrow> plugin_manager \<Rightarrow> plugin_manager" where
  "activate_returned a threw extra outcomes s =
     (case jget (pm_attempts s) a of
        None \<Rightarrow> s
      | Some att \<Rightarrow>
          if at_phase att \<noteq> Running then s
          else if threw then fail_begin a s
          else
            let t = pm_next s;
                att1 = (if extra then att\<lparr>at_disposables := at_disposables att @ [Tracked t]\<rparr> else att);
                s1 = (if extra then s\<lparr>pm_live := jset t (a, OtherS) (pm_live s), pm_next := Suc t\<rparr> else s)
            in (case commit_staged a outcomes (pm_next s1) (at_staged att1) of
                  (st, lv, n, ok) \<Rightarrow>
                    let s2 = s1\<lparr>pm_live := pm_live s1 @ lv, pm_next := n\<rparr>;
                        p = mf_id (at_manifest att)
                    in if \<not> ok then fail_begin a (put_attempt a (att1\<lparr>at_staged := st\<rparr>) s2)
                       else
                         set_status p (mf_version (at_manifest att)) Active
                           (put_attempt a (att1\<lparr>at_staged := st, at_phase := Committed\<rparr>)
                              (s2\<lparr>pm_active := jset p a (pm_active s2), pm_order := pm_order s2 @ [p]\<rparr>))))"

section \<open>Deactivation\<close>

text \<open>
  \<open>deactivate\<close> up to its first await: the attempt it works on is the one that is active now. The
  processes and loops of the plugin, its operations and its own \<open>deactivate\<close> are awaited next.
\<close>

definition deactivate_begin :: "string \<Rightarrow> plugin_manager \<Rightarrow> nat option \<times> plugin_manager" where
  "deactivate_begin p s =
     (case jget (pm_active s) p of
        None \<Rightarrow> (None, s)
      | Some a \<Rightarrow>
          (case jget (pm_attempts s) a of
             None \<Rightarrow> (None, s)
           | Some att \<Rightarrow>
               (Some a, sweep DEACTIVATE_SWEEP p
                  (put_attempt a (att\<lparr>at_phase := Closing\<rparr>) (set_status p (mf_version (at_manifest att)) Deactivating s)))))"

text \<open>\<open>splice(lastIndexOf(p), 1)\<close>.\<close>

definition remove_last :: "'a \<Rightarrow> 'a list \<Rightarrow> 'a list" where
  "remove_last x xs = rev (remove1 x (rev xs))"

text \<open>The \<open>finally\<close> of \<open>deactivate\<close>, for the attempt it began with.\<close>

definition deactivate_end :: "nat \<Rightarrow> bool list \<Rightarrow> plugin_manager \<Rightarrow> plugin_manager" where
  "deactivate_end a outcomes s =
     (case jget (pm_attempts s) a of
        None \<Rightarrow> s
      | Some att \<Rightarrow>
          if at_phase att \<noteq> Closing \<and> at_phase att \<noteq> Closed then s
          else
            let p = mf_id (at_manifest att);
                s1 = dispose_all a outcomes s;
                att1 = (case jget (pm_attempts s1) a of None \<Rightarrow> att | Some x \<Rightarrow> x)
            in set_status p (mf_version (at_manifest att)) DisabledP
                 (put_attempt a (att1\<lparr>at_phase := Closed\<rparr>)
                    (s1\<lparr>pm_active := jdel p (pm_active s1), pm_order := remove_last p (pm_order s1)\<rparr>)))"

definition deactivate_plan :: "plugin_manager \<Rightarrow> string list" where
  "deactivate_plan s = rev (pm_order s)"

section \<open>Enabling, disabling and locks\<close>

definition set_lock :: "string \<Rightarrow> string \<Rightarrow> plugin_manager \<Rightarrow> plugin_manager" where
  "set_lock p reason s = s\<lparr>pm_locks := jset p reason (pm_locks s)\<rparr>"

definition next_disabled :: "string \<Rightarrow> bool \<Rightarrow> string list \<Rightarrow> string list" where
  "next_disabled p enabled ds =
     (if enabled then removeAll p ds else if List.member ds p then ds else ds @ [p])"

text \<open>\<open>setEnabled\<close> up to the write of the document: the set it is going to write.\<close>

definition set_enabled_begin :: "string \<Rightarrow> bool \<Rightarrow> plugin_manager \<Rightarrow> load_error + string list" where
  "set_enabled_begin p enabled s =
     (if \<not> jhas (pm_sources s) p \<and> \<not> jhas (pm_records s) p then Inl UnknownPlugin
      else
        (case jget (pm_locks s) p of
           Some reason \<Rightarrow> Inl (PluginLocked reason)
         | None \<Rightarrow> Inr (next_disabled p enabled (pm_disabled s))))"

definition source_version :: "string \<Rightarrow> plugin_manager \<Rightarrow> string" where
  "source_version p s =
     (case jget (pm_sources s) p of
        None \<Rightarrow> ''0.0.0''
      | Some v \<Rightarrow> (case parse_manifest v of None \<Rightarrow> ''0.0.0'' | Some m \<Rightarrow> mf_version m))"

text \<open>
  After the write: \<open>source\<close> and \<open>version\<close> are what \<open>setEnabled\<close> read before it. The result says which
  operation it goes on with.
\<close>

datatype enabling = Finished | GoActivate "load_error + begun" | GoDeactivate nat

definition set_enabled_written ::
  "string \<Rightarrow> bool \<Rightarrow> string list \<Rightarrow> jsval option \<Rightarrow> string option \<Rightarrow> plugin_manager
    \<Rightarrow> (load_error + enabling) \<times> plugin_manager" where
  "set_enabled_written p enabled ds source version s =
     (let s1 = s\<lparr>pm_stored := ds, pm_disabled := ds\<rparr> in
      if enabled then
        (if jhas (pm_active s1) p then (Inr Finished, s1)
         else
           (case source of
              None \<Rightarrow> (Inl NoStoredSource, s1)
            | Some v \<Rightarrow> (case activate_begin v s1 of (r, s2) \<Rightarrow> (Inr (GoActivate r), s2))))
      else if jhas (pm_active s1) p then
        (case deactivate_begin p s1 of
           (None, s2) \<Rightarrow> (Inr Finished, s2) | (Some a, s2) \<Rightarrow> (Inr (GoDeactivate a), s2))
      else
        (Inr Finished, set_status p (case version of Some ver \<Rightarrow> ver | None \<Rightarrow> source_version p s1) DisabledP s1))"

text \<open>\<open>activateAll\<close>: the disabled ids are read first, then one source after the other.\<close>

definition activate_all_begin :: "plugin_manager \<Rightarrow> plugin_manager" where
  "activate_all_begin s = s\<lparr>pm_disabled := remdups (pm_stored s)\<rparr>"

definition activate_all_item :: "jsval \<Rightarrow> plugin_manager \<Rightarrow> (load_error + begun) option \<times> plugin_manager" where
  "activate_all_item v s =
     (case parse_manifest v of
        None \<Rightarrow> (case activate_begin v s of (r, s') \<Rightarrow> (Some r, s'))
      | Some m \<Rightarrow>
          let s1 = s\<lparr>pm_sources := jset (mf_id m) v (pm_sources s)\<rparr> in
          if List.member (pm_disabled s1) (mf_id m) \<and> \<not> jhas (pm_locks s1) (mf_id m)
          then (None, set_status (mf_id m) (mf_version m) DisabledP s1)
          else (case activate_begin v s1 of (r, s') \<Rightarrow> (Some r, s')))"

section \<open>Queries\<close>

record catalog_entry =
  ce_id :: string
  ce_version :: string
  ce_status :: plugin_status
  ce_enabled :: bool
  ce_lock :: "string option"

definition to_catalog_entry :: "plugin_manager \<Rightarrow> string \<Rightarrow> catalog_entry" where
  "to_catalog_entry s p =
     \<lparr>ce_id = p,
      ce_version = (case jget (pm_records s) p of Some r \<Rightarrow> pr_version r | None \<Rightarrow> source_version p s),
      ce_status = (case status_of p s of Some st \<Rightarrow> st | None \<Rightarrow> Discovered),
      ce_enabled = (\<not> List.member (pm_disabled s) p),
      ce_lock = jget (pm_locks s) p\<rparr>"

text \<open>\<open>le\<close> is \<open>localeCompare\<close> read as "not after".\<close>

definition list_catalog :: "(string \<Rightarrow> string \<Rightarrow> bool) \<Rightarrow> plugin_manager \<Rightarrow> catalog_entry list" where
  "list_catalog le s =
     sort_by (\<lambda>l r. if (ce_lock l \<noteq> None) \<noteq> (ce_lock r \<noteq> None) then ce_lock l \<noteq> None else le (ce_id l) (ce_id r))
       (map (to_catalog_entry s)
          (map fst (pm_sources s) @ filter (\<lambda>p. \<not> jhas (pm_sources s) p) (map fst (pm_records s))))"

definition active_manifest :: "string \<Rightarrow> plugin_manager \<Rightarrow> manifest option" where
  "active_manifest p s =
     (case jget (pm_active s) p of None \<Rightarrow> None
      | Some a \<Rightarrow> map_option at_manifest (jget (pm_attempts s) a))"

definition is_active_plugin :: "string \<Rightarrow> plugin_manager \<Rightarrow> bool" where
  "is_active_plugin p s = jhas (pm_active s) p"

definition has_permission :: "string \<Rightarrow> string \<Rightarrow> plugin_manager \<Rightarrow> bool" where
  "has_permission p perm s =
     (case active_manifest p s of None \<Rightarrow> False | Some m \<Rightarrow> List.member (mf_permissions m) perm)"

definition has_declared_event :: "string \<Rightarrow> plugin_manager \<Rightarrow> bool" where
  "has_declared_event e s =
     list_ex (\<lambda>(p, _). case active_manifest p s of None \<Rightarrow> False
        | Some m \<Rightarrow> (case mf_events m of None \<Rightarrow> False | Some es \<Rightarrow> List.member es e)) (pm_active s)"

text \<open>The capability of an active plugin is a fresh UUID, here the identity of its attempt.\<close>

definition resolve_ui_capability :: "nat \<Rightarrow> plugin_manager \<Rightarrow> string option" where
  "resolve_ui_capability cap s = map_option fst (List.find (\<lambda>(_, a). a = cap) (pm_active s))"

definition active_metadata :: "plugin_manager \<Rightarrow> (string \<times> nat \<times> manifest) list" where
  "active_metadata s =
     List.map_filter (\<lambda>p. case jget (pm_active s) p of None \<Rightarrow> None
        | Some a \<Rightarrow> map_option (\<lambda>att. (p, a, at_manifest att)) (jget (pm_attempts s) a)) (pm_order s)"

section \<open>Runs\<close>

text \<open>
  One operation of the manager, or one continuation of an operation in progress. The values that a
  continuation carries over its await are arguments, so a run may hand it stale ones.
\<close>

datatype pm_op =
    Activate jsval
  | LoadedMain nat "plugin_definition option"
  | Stage nat service bool
  | Track nat service
  | DisposeOwn nat disposable bool
  | Returns nat bool bool "bool list"
  | FailEnd nat "bool list"
  | DeactivateBegin string
  | DeactivateEnd nat "bool list"
  | EnabledWritten string bool "string list" "jsval option" "string option"
  | AllBegin
  | AllItem jsval
  | Lock string string

fun pm_step :: "pm_op \<Rightarrow> plugin_manager \<Rightarrow> plugin_manager" where
  "pm_step (Activate v) s = snd (activate_begin v s)"
| "pm_step (LoadedMain a d) s = activate_loaded a d s"
| "pm_step (Stage a svc ok) s = (case plugin_stage a svc ok s of Inl _ \<Rightarrow> s | Inr (_, s') \<Rightarrow> s')"
| "pm_step (Track a svc) s = (case plugin_track a svc s of Inl _ \<Rightarrow> s | Inr (_, s') \<Rightarrow> s')"
| "pm_step (DisposeOwn a d ok) s = dispose_one a d ok s"
| "pm_step (Returns a threw extra outs) s = activate_returned a threw extra outs s"
| "pm_step (FailEnd a outs) s = fail_end a outs s"
| "pm_step (DeactivateBegin p) s = snd (deactivate_begin p s)"
| "pm_step (DeactivateEnd a outs) s = deactivate_end a outs s"
| "pm_step (EnabledWritten p en ds src ver) s = snd (set_enabled_written p en ds src ver s)"
| "pm_step AllBegin s = activate_all_begin s"
| "pm_step (AllItem v) s = snd (activate_all_item v s)"
| "pm_step (Lock p reason) s = set_lock p reason s"

definition pm_run :: "pm_op list \<Rightarrow> plugin_manager \<Rightarrow> plugin_manager" where
  "pm_run ops s = fold pm_step ops s"

section \<open>Registrations are accounted for\<close>

text \<open>A disposable of an attempt that would end the registration \<open>t\<close>.\<close>

definition disposes_of :: "attempt \<Rightarrow> disposable \<Rightarrow> nat \<Rightarrow> bool" where
  "disposes_of att d t \<longleftrightarrow>
     (case d of Tracked u \<Rightarrow> u = t
      | Staged i \<Rightarrow> i < length (at_staged att) \<and> snd (snd (at_staged att ! i)) = Some t)"

definition holds_registration :: "attempt \<Rightarrow> nat \<Rightarrow> bool" where
  "holds_registration att t \<longleftrightarrow> (\<exists>d \<in> set (at_disposables att). disposes_of att d t)"

definition attempt_ok :: "attempt \<Rightarrow> bool" where
  "attempt_ok att \<longleftrightarrow>
     (\<forall>i < length (at_staged att). Staged i \<in> set (at_disposables att)) \<and>
     (at_phase att = Running \<longrightarrow> (\<forall>x \<in> set (at_staged att). snd (snd x) = None))"

definition pm_ok :: "plugin_manager \<Rightarrow> bool" where
  "pm_ok s \<longleftrightarrow>
     (\<forall>a att. jget (pm_attempts s) a = Some att \<longrightarrow> a < pm_next s \<and> attempt_ok att) \<and>
     (\<forall>(t, a, svc) \<in> set (pm_live s). \<exists>att. jget (pm_attempts s) a = Some att \<and> holds_registration att t)"

named_theorems pm_fields "what the setters leave alone"

lemma set_status_fields [simp, pm_fields]:
  "pm_attempts (set_status p v st s) = pm_attempts s" "pm_live (set_status p v st s) = pm_live s"
  "pm_next (set_status p v st s) = pm_next s" "pm_active (set_status p v st s) = pm_active s"
  "pm_order (set_status p v st s) = pm_order s"
  "status_of q (set_status p v st s) = (if q = p then Some st else status_of q s)"
  by (simp_all add: set_status_def status_of_def)

lemma put_attempt_fields [simp, pm_fields]:
  "pm_attempts (put_attempt a att s) = jset a att (pm_attempts s)" "pm_live (put_attempt a att s) = pm_live s"
  "pm_next (put_attempt a att s) = pm_next s" "pm_active (put_attempt a att s) = pm_active s"
  "pm_order (put_attempt a att s) = pm_order s" "status_of q (put_attempt a att s) = status_of q s"
  by (simp_all add: put_attempt_def status_of_def)

lemma sweep_fields [simp, pm_fields]:
  "pm_attempts (sweep svcs p s) = pm_attempts s" "pm_next (sweep svcs p s) = pm_next s"
  "pm_active (sweep svcs p s) = pm_active s" "pm_order (sweep svcs p s) = pm_order s"
  "status_of q (sweep svcs p s) = status_of q s"
  by (simp_all add: sweep_def status_of_def)

lemma sweep_live: "set (pm_live (sweep svcs p s)) \<subseteq> set (pm_live s)"
  by (auto simp: sweep_def jfilter_def)

lemma set_jdel: "set (jdel k m) \<subseteq> set m"
  by (auto simp: AList.delete_eq)

lemma set_jset: "set (jset k v m) \<subseteq> insert (k, v) (set m)"
  by (induction m) auto

text \<open>What a step may do to the registrations and to the attempts, for the ones it is not about.\<close>

lemma pm_okI_fewer:
  assumes "pm_ok s" and "pm_attempts s' = pm_attempts s" and "pm_next s \<le> pm_next s'"
    and "set (pm_live s') \<subseteq> set (pm_live s)"
  shows "pm_ok s'"
  using assms unfolding pm_ok_def by fastforce

lemma pm_ok_live:
  "pm_ok s \<Longrightarrow> (t, a, svc) \<in> set (pm_live s) \<Longrightarrow>
     \<exists>att. jget (pm_attempts s) a = Some att \<and> holds_registration att t"
  by (auto simp: pm_ok_def)

lemma pm_ok_put_attempt:
  assumes "pm_ok s" and "jget (pm_attempts s) a = Some att" and "attempt_ok att'"
    and "\<And>t. holds_registration att t \<Longrightarrow> holds_registration att' t"
  shows "pm_ok (put_attempt a att' s)"
proof -
  have "\<exists>x. jget (pm_attempts (put_attempt a att' s)) b = Some x \<and> holds_registration x t"
    if m: "(t, b, svc) \<in> set (pm_live s)" for t b svc
  proof -
    obtain x where "jget (pm_attempts s) b = Some x" "holds_registration x t"
      using pm_ok_live [OF assms(1) m] by blast
    then show ?thesis
      using assms(2, 4) by (cases "b = a") auto
  qed
  moreover have "b < pm_next s \<and> attempt_ok x"
    if "jget (pm_attempts (put_attempt a att' s)) b = Some x" for b x
    using assms(1-3) that by (auto simp: pm_ok_def split: if_splits)
  ultimately show ?thesis
    unfolding pm_ok_def by auto
qed

lemma disposes_of_phase [simp]: "disposes_of (att\<lparr>at_phase := ph\<rparr>) d t = disposes_of att d t"
  by (simp add: disposes_of_def split: disposable.split)

lemma holds_registration_phase [simp]: "holds_registration (att\<lparr>at_phase := ph\<rparr>) t = holds_registration att t"
  by (simp add: holds_registration_def)

lemma attempt_ok_phase: "attempt_ok att \<Longrightarrow> ph \<noteq> Running \<Longrightarrow> attempt_ok (att\<lparr>at_phase := ph\<rparr>)"
  by (simp add: attempt_ok_def)

lemma pm_ok_attempt: "pm_ok s \<Longrightarrow> jget (pm_attempts s) a = Some att \<Longrightarrow> attempt_ok att \<and> a < pm_next s"
  by (auto simp: pm_ok_def)

lemma pm_ok_put_phase:
  "pm_ok s \<Longrightarrow> jget (pm_attempts s) a = Some att \<Longrightarrow> ph \<noteq> Running \<Longrightarrow> pm_ok (put_attempt a (att\<lparr>at_phase := ph\<rparr>) s)"
  by (rule pm_ok_put_attempt) (auto dest: pm_ok_attempt intro: attempt_ok_phase)

subsection \<open>Disposal\<close>

lemma dispose_one_fields [simp, pm_fields]:
  "pm_next (dispose_one a d ok s) = pm_next s" "pm_active (dispose_one a d ok s) = pm_active s"
  "pm_order (dispose_one a d ok s) = pm_order s" "status_of q (dispose_one a d ok s) = status_of q s"
  by (simp_all add: dispose_one_def status_of_def put_attempt_def Let_def split: option.split disposable.split prod.split)

lemma dispose_one_live: "set (pm_live (dispose_one a d ok s)) \<subseteq> set (pm_live s)"
  by (auto simp: dispose_one_def Let_def dest: subsetD [OF set_jdel]
        split: option.splits disposable.splits prod.splits if_splits)

text \<open>Disposal changes nothing of an attempt but the marks on its placeholders.\<close>

definition same_attempt :: "attempt \<Rightarrow> attempt \<Rightarrow> bool" where
  "same_attempt x y \<longleftrightarrow>
     at_manifest x = at_manifest y \<and> at_phase x = at_phase y \<and> at_disposables x = at_disposables y \<and>
     map snd (at_staged x) = map snd (at_staged y)"

lemma same_attempt_refl [simp]: "same_attempt x x"
  by (simp add: same_attempt_def)

lemma same_attempt_trans: "same_attempt x y \<Longrightarrow> same_attempt y z \<Longrightarrow> same_attempt x z"
  by (simp add: same_attempt_def)

lemma same_attempt_staged:
  assumes "same_attempt x y"
  shows "length (at_staged x) = length (at_staged y)"
    and "i < length (at_staged y) \<Longrightarrow> snd (at_staged x ! i) = snd (at_staged y ! i)"
proof -
  have m: "map snd (at_staged x) = map snd (at_staged y)"
    using assms by (simp add: same_attempt_def)
  show l: "length (at_staged x) = length (at_staged y)"
    using m by (metis length_map)
  show "i < length (at_staged y) \<Longrightarrow> snd (at_staged x ! i) = snd (at_staged y ! i)"
    using m l by (metis nth_map)
qed

lemma same_attempt_disposes: "same_attempt x y \<Longrightarrow> disposes_of x d t = disposes_of y d t"
  using same_attempt_staged [of x y] by (cases d) (auto simp: disposes_of_def)

lemma same_attempt_holds: "same_attempt x y \<Longrightarrow> holds_registration x t = holds_registration y t"
  using same_attempt_disposes [of x y] by (simp add: holds_registration_def same_attempt_def)

lemma same_attempt_ok: "same_attempt x y \<Longrightarrow> attempt_ok y \<Longrightarrow> attempt_ok x"
  using same_attempt_staged [of x y]
  by (simp add: attempt_ok_def same_attempt_def) (metis in_set_conv_nth)

lemma dispose_one_attempts:
  "\<exists>att'. jget (pm_attempts (dispose_one a d ok s)) b = att' \<and>
     rel_option same_attempt att' (jget (pm_attempts s) b)"
proof -
  have e: "map snd (xs[i := (True, svc, c)]) = map snd xs" if "xs ! i = (dead, svc, c)" for xs i svc c and dead :: bool
    using that by (metis list_update_id map_update snd_conv)
  show ?thesis
    by (auto simp: dispose_one_def Let_def same_attempt_def e option.rel_refl
          split: option.split disposable.split prod.split)
qed

definition only_disposed :: "plugin_manager \<Rightarrow> plugin_manager \<Rightarrow> bool" where
  "only_disposed s s' \<longleftrightarrow>
     pm_next s' = pm_next s \<and> pm_active s' = pm_active s \<and> pm_order s' = pm_order s \<and>
     (\<forall>q. status_of q s' = status_of q s) \<and> set (pm_live s') \<subseteq> set (pm_live s) \<and>
     (\<forall>b. rel_option same_attempt (jget (pm_attempts s') b) (jget (pm_attempts s) b))"

lemma only_disposed_refl [simp]: "only_disposed s s"
  by (auto simp: only_disposed_def intro: option.rel_refl)

lemma rel_same_trans:
  "rel_option same_attempt x y \<Longrightarrow> rel_option same_attempt y z \<Longrightarrow> rel_option same_attempt x z"
  by (cases x; cases y; cases z) (auto intro: same_attempt_trans)

lemma only_disposed_trans: "only_disposed s s1 \<Longrightarrow> only_disposed s1 s2 \<Longrightarrow> only_disposed s s2"
  unfolding only_disposed_def by (simp, blast intro: rel_same_trans)

lemma dispose_one_only [simp]: "only_disposed s (dispose_one a d ok s)"
  using dispose_one_attempts [of a d ok s] dispose_one_live [of a d ok s]
  by (auto simp: only_disposed_def)

lemma dispose_fold_only: "only_disposed s (fold (\<lambda>(d, ok). dispose_one a d ok) xs s)"
proof (induction xs arbitrary: s)
  case (Cons x xs)
  show ?case
    by (cases x) (auto intro: only_disposed_trans [OF dispose_one_only Cons])
qed simp

lemma dispose_all_only [simp]: "only_disposed s (dispose_all a outs s)"
  using dispose_fold_only by (auto simp: dispose_all_def split: option.split)

lemma only_disposed_attempt:
  assumes "only_disposed s s'" and "jget (pm_attempts s) a = Some att"
  obtains att' where "jget (pm_attempts s') a = Some att'" "same_attempt att' att"
proof -
  have "rel_option same_attempt (jget (pm_attempts s') a) (Some att)"
    using assms by (metis only_disposed_def)
  then show thesis
    using that by (auto simp: option_rel_Some2)
qed

lemma only_disposed_attempt':
  assumes "only_disposed s s'" and "jget (pm_attempts s') a = Some att'"
  obtains att where "jget (pm_attempts s) a = Some att" "same_attempt att' att"
proof -
  have "rel_option same_attempt (Some att') (jget (pm_attempts s) a)"
    using assms by (metis only_disposed_def)
  then show thesis
    using that by (auto simp: option_rel_Some1)
qed

lemma only_disposed_ok:
  assumes "only_disposed s s'" and "pm_ok s"
  shows "pm_ok s'"
proof -
  have "b < pm_next s' \<and> attempt_ok x" if m: "jget (pm_attempts s') b = Some x" for b x
    using only_disposed_attempt' [OF assms(1) m] pm_ok_attempt [OF assms(2)] same_attempt_ok assms(1)
    unfolding only_disposed_def by metis
  moreover have "\<exists>x. jget (pm_attempts s') b = Some x \<and> holds_registration x t"
    if m: "(t, b, svc) \<in> set (pm_live s')" for t b svc
  proof -
    have "(t, b, svc) \<in> set (pm_live s)"
      using assms(1) m by (auto simp: only_disposed_def)
    then obtain y where y: "jget (pm_attempts s) b = Some y" "holds_registration y t"
      using pm_ok_live [OF assms(2)] by blast
    then show ?thesis
      using only_disposed_attempt [OF assms(1) y(1)] same_attempt_holds by metis
  qed
  ultimately show ?thesis
    unfolding pm_ok_def by auto
qed

text \<open>After a disposal of every disposable that succeeds, the attempt has nothing left.\<close>

lemma dispose_one_gone:
  assumes "jget (pm_attempts s) a = Some att" and "disposes_of att d t"
  shows "(t, b, svc) \<notin> set (pm_live (dispose_one a d True s))"
proof -
  have "(t, b, svc) \<notin> set (jdel t m)" for m :: "(nat, nat \<times> service) jmap"
    by (simp add: AList.delete_eq)
  then show ?thesis
    using assms by (auto simp: dispose_one_def disposes_of_def Let_def split: disposable.splits prod.splits)
qed

lemma dispose_fold_gone:
  assumes "jget (pm_attempts s) a = Some att" and "d \<in> fst ` set xs" and "list_all snd xs" and "disposes_of att d t"
  shows "(t, b, svc) \<notin> set (pm_live (fold (\<lambda>(d, ok). dispose_one a d ok) xs s))"
  using assms
proof (induction xs arbitrary: s att)
  case (Cons x xs)
  obtain e ok where x: "x = (e, ok)" by (cases x)
  have ok: ok using Cons.prems(3) by (simp add: x)
  let ?s = "dispose_one a e ok s"
  obtain att' where att': "jget (pm_attempts ?s) a = Some att'" "same_attempt att' att"
    using only_disposed_attempt [OF dispose_one_only Cons.prems(1)] by blast
  show ?case
  proof (cases "d \<in> fst ` set xs")
    case True
    then show ?thesis
      using Cons.IH [OF att'(1)] Cons.prems(3, 4) same_attempt_disposes [OF att'(2)] by (simp add: x)
  next
    case False
    then have "e = d" using Cons.prems(2) by (auto simp: x)
    then have "(t, b, svc) \<notin> set (pm_live ?s)"
      using dispose_one_gone [OF Cons.prems(1, 4)] ok by auto
    then show ?thesis
      using dispose_fold_only [of ?s a xs] by (auto simp: x only_disposed_def)
  qed
qed simp

lemma dispose_all_gone:
  assumes "pm_ok s" and "jget (pm_attempts s) a = Some att" and "length (at_disposables att) \<le> length outs"
    and "list_all id outs"
  shows "(t, a, svc) \<notin> set (pm_live (dispose_all a outs s))"
proof
  assume l: "(t, a, svc) \<in> set (pm_live (dispose_all a outs s))"
  then have "(t, a, svc) \<in> set (pm_live s)"
    using dispose_all_only [of s a outs] unfolding only_disposed_def by blast
  then have "holds_registration att t"
    using pm_ok_live [OF assms(1), of t a svc] assms(2) by simp
  then obtain d where d: "d \<in> set (at_disposables att)" "disposes_of att d t"
    unfolding holds_registration_def by blast
  let ?xs = "zip (rev (at_disposables att)) outs"
  have "d \<in> fst ` set ?xs"
    using d(1) assms(3) by (simp add: map_fst_zip_take flip: set_map)
  moreover have "list_all snd ?xs"
    unfolding list_all_iff
  proof
    fix x assume "x \<in> set ?xs"
    then have "snd x \<in> set outs"
      by (metis prod.collapse set_zip_rightD)
    then show "snd x"
      using assms(4) unfolding list_all_iff id_apply by (rule bspec [rotated])
  qed
  ultimately have "(t, a, svc) \<notin> set (pm_live (fold (\<lambda>(d, ok). dispose_one a d ok) ?xs s))"
    by (rule dispose_fold_gone [OF assms(2) _ _ d(2)])
  then show False
    using l assms(2) by (simp add: dispose_all_def)
qed

subsection \<open>Every step keeps the account\<close>

lemma pm_ok_set_status [simp]: "pm_ok (set_status p v st s) = pm_ok s"
  by (simp add: pm_ok_def)

lemma pm_ok_sweep: "pm_ok s \<Longrightarrow> pm_ok (sweep svcs p s)"
  by (erule pm_okI_fewer) (simp_all add: sweep_live)

lemma pm_ok_live_irrelevant [simp]:
  "pm_ok (s\<lparr>pm_records := x\<rparr>) = pm_ok s" "pm_ok (s\<lparr>pm_sources := y\<rparr>) = pm_ok s"
  "pm_ok (s\<lparr>pm_locks := z\<rparr>) = pm_ok s" "pm_ok (s\<lparr>pm_disabled := d\<rparr>) = pm_ok s"
  "pm_ok (s\<lparr>pm_stored := d\<rparr>) = pm_ok s" "pm_ok (s\<lparr>pm_active := act\<rparr>) = pm_ok s"
  "pm_ok (s\<lparr>pm_order := d\<rparr>) = pm_ok s"
  by (simp_all add: pm_ok_def)

lemma pm_ok_same:
  "pm_ok s \<Longrightarrow> jget (pm_attempts s') = jget (pm_attempts s) \<Longrightarrow> pm_live s' = pm_live s \<Longrightarrow>
     pm_next s' = pm_next s \<Longrightarrow> pm_ok s'"
  by (simp add: pm_ok_def)

lemma pm_ok_new_attempt:
  assumes "pm_ok s" and "attempt_ok att"
  shows "pm_ok (put_attempt (pm_next s) att (s\<lparr>pm_next := Suc (pm_next s)\<rparr>))"
proof -
  have "\<exists>x. jget (pm_attempts (put_attempt (pm_next s) att (s\<lparr>pm_next := Suc (pm_next s)\<rparr>))) b = Some x \<and>
      holds_registration x t"
    if m: "(t, b, svc) \<in> set (pm_live s)" for t b svc
    using pm_ok_live [OF assms(1) m] pm_ok_attempt [OF assms(1)] by fastforce
  moreover have "b < Suc (pm_next s) \<and> attempt_ok x"
    if "jget (pm_attempts (put_attempt (pm_next s) att (s\<lparr>pm_next := Suc (pm_next s)\<rparr>))) b = Some x" for b x
    using pm_ok_attempt [OF assms(1)] assms(2) that by (fastforce split: if_splits)
  ultimately show ?thesis
    unfolding pm_ok_def by auto
qed

text \<open>A registration that is made at once and tracked.\<close>

definition made_at_once :: "nat \<Rightarrow> attempt \<Rightarrow> service \<Rightarrow> plugin_manager \<Rightarrow> plugin_manager" where
  "made_at_once a att svc s =
     put_attempt a (att\<lparr>at_disposables := at_disposables att @ [Tracked (pm_next s)]\<rparr>)
       (s\<lparr>pm_live := jset (pm_next s) (a, svc) (pm_live s), pm_next := Suc (pm_next s)\<rparr>)"

lemma tracked_attempt:
  "attempt_ok att \<Longrightarrow> attempt_ok (att\<lparr>at_disposables := at_disposables att @ ds\<rparr>)"
  "holds_registration att t \<Longrightarrow> holds_registration (att\<lparr>at_disposables := at_disposables att @ ds\<rparr>) t"
  "holds_registration (att\<lparr>at_disposables := at_disposables att @ [Tracked u]\<rparr>) u"
proof -
  have "disposes_of (att\<lparr>at_disposables := xs\<rparr>) d u = disposes_of att d u" for xs d u
    by (cases d) (simp_all add: disposes_of_def)
  then show "holds_registration att t \<Longrightarrow> holds_registration (att\<lparr>at_disposables := at_disposables att @ ds\<rparr>) t"
    and "holds_registration (att\<lparr>at_disposables := at_disposables att @ [Tracked u]\<rparr>) u"
    by (auto simp: holds_registration_def) (simp add: disposes_of_def)
qed (auto simp: attempt_ok_def)

lemma pm_ok_made_at_once:
  assumes "pm_ok s" and "jget (pm_attempts s) a = Some att"
  shows "pm_ok (made_at_once a att svc s)"
proof -
  let ?att = "att\<lparr>at_disposables := at_disposables att @ [Tracked (pm_next s)]\<rparr>"
  have ok: "pm_ok (put_attempt a ?att s)"
    using assms tracked_attempt pm_ok_attempt [OF assms] by (intro pm_ok_put_attempt [OF assms]) auto
  have "\<exists>x. jget (pm_attempts (made_at_once a att svc s)) b = Some x \<and> holds_registration x t"
    if m: "(t, b, svc') \<in> set (pm_live (made_at_once a att svc s))" for t b svc'
  proof -
    have "(t, b, svc') = (pm_next s, a, svc) \<or> (t, b, svc') \<in> set (pm_live (put_attempt a ?att s))"
      using m subsetD [OF set_jset] by (fastforce simp: made_at_once_def)
    then show ?thesis
      using pm_ok_live [OF ok, of t b svc'] tracked_attempt(3) by (auto simp: made_at_once_def)
  qed
  moreover have "b < pm_next (made_at_once a att svc s) \<and> attempt_ok x"
    if "jget (pm_attempts (made_at_once a att svc s)) b = Some x" for b x
    using pm_ok_attempt [OF ok, of b x] that by (auto simp: made_at_once_def)
  ultimately show ?thesis
    unfolding pm_ok_def by auto
qed

lemma plugin_track_eq:
  "plugin_track a svc s =
     (case jget (pm_attempts s) a of None \<Rightarrow> Inl ContextInactive
      | Some att \<Rightarrow> if attempt_aborted att then Inl ContextInactive
          else Inr (Tracked (pm_next s), made_at_once a att svc s))"
  unfolding plugin_track_def made_at_once_def Let_def by (rule refl)

lemma plugin_track_ok: "pm_ok s \<Longrightarrow> plugin_track a svc s = Inr (d, s') \<Longrightarrow> pm_ok s'"
  by (auto simp: plugin_track_eq pm_ok_made_at_once split: option.splits if_splits)

lemma staged_attempt:
  "attempt_ok att \<Longrightarrow>
     attempt_ok (att\<lparr>at_disposables := at_disposables att @ [Staged (length (at_staged att))],
                  at_staged := at_staged att @ [(False, svc, None)]\<rparr>)"
  "holds_registration att t \<Longrightarrow>
     holds_registration (att\<lparr>at_disposables := at_disposables att @ [Staged (length (at_staged att))],
                  at_staged := at_staged att @ [(False, svc, None)]\<rparr>) t"
  by (auto simp: attempt_ok_def holds_registration_def disposes_of_def nth_append less_Suc_eq split: disposable.splits)

lemma plugin_stage_ok:
  assumes "pm_ok s" and "plugin_stage a svc ok s = Inr (d, s')"
  shows "pm_ok s'"
proof -
  obtain att where att: "jget (pm_attempts s) a = Some att"
    using assms(2) by (auto simp: plugin_stage_def split: option.splits)
  have "s' = made_at_once a att svc s \<or>
      s' = put_attempt a (att\<lparr>at_disposables := at_disposables att @ [Staged (length (at_staged att))],
                  at_staged := at_staged att @ [(False, svc, None)]\<rparr>) s"
    using assms(2) att by (auto simp: plugin_stage_def made_at_once_def Let_def split: if_splits)
  then show ?thesis
    using pm_ok_made_at_once [OF assms(1) att] staged_attempt pm_ok_attempt [OF assms(1) att]
      pm_ok_put_attempt [OF assms(1) att] by blast
qed

lemma fail_begin_ok: "pm_ok s \<Longrightarrow> pm_ok (fail_begin a s)"
  by (auto simp: fail_begin_def split: option.split intro!: pm_ok_sweep pm_ok_put_phase)

lemma fail_end_ok: "pm_ok s \<Longrightarrow> pm_ok (fail_end a outs s)"
  by (auto simp: fail_end_def Let_def split: option.split
        intro!: pm_ok_sweep pm_ok_put_phase intro: only_disposed_ok [OF dispose_all_only])

lemma activate_loaded_ok: "pm_ok s \<Longrightarrow> pm_ok (activate_loaded a d s)"
  by (auto simp: activate_loaded_def split: option.split intro: fail_begin_ok)

lemma deactivate_begin_ok: "pm_ok s \<Longrightarrow> pm_ok (snd (deactivate_begin p s))"
  by (auto simp: deactivate_begin_def split: option.split intro!: pm_ok_sweep pm_ok_put_phase)

lemma deactivate_end_ok:
  assumes "pm_ok s"
  shows "pm_ok (deactivate_end a outs s)"
proof (cases "jget (pm_attempts s) a")
  case (Some att)
  obtain att1 where att1: "jget (pm_attempts (dispose_all a outs s)) a = Some att1"
    using only_disposed_attempt [OF dispose_all_only Some] by blast
  have "pm_ok (put_attempt a (att1\<lparr>at_phase := Closed\<rparr>) (dispose_all a outs s))"
    by (rule pm_ok_put_phase [OF only_disposed_ok [OF dispose_all_only assms] att1]) simp
  then have "pm_ok (put_attempt a (att1\<lparr>at_phase := Closed\<rparr>)
      (dispose_all a outs s\<lparr>pm_active := act, pm_order := ord\<rparr>))" for act ord
    by (rule pm_ok_same) simp_all
  then show ?thesis
    using Some assms att1 by (simp add: deactivate_end_def Let_def)
qed (simp add: deactivate_end_def assms)

lemma activate_begin_ok:
  assumes "pm_ok s"
  shows "pm_ok (snd (activate_begin v s))"
proof -
  have n: "attempt_ok \<lparr>at_manifest = m, at_phase = Running, at_staged = [], at_disposables = []\<rparr>" for m
    by (simp add: attempt_ok_def)
  have new: "pm_ok (put_attempt (pm_next s) att (set_status p ver st (s1\<lparr>pm_next := Suc (pm_next s)\<rparr>)))"
    if "pm_ok s1" "pm_next s1 = pm_next s" "attempt_ok att" for s1 att p ver st
    by (rule pm_ok_same [OF pm_ok_new_attempt [OF that(1, 3)]]) (simp_all add: that(2))
  show ?thesis
  proof (cases "parse_manifest v")
    case (Some m)
    let ?reserved = "List.find is_kernel_only_event (case mf_events m of None \<Rightarrow> [] | Some es \<Rightarrow> es)"
    show ?thesis
      using assms new n unfolding activate_begin_def Let_def Some option.case
      by (cases ?reserved) simp_all
  qed (simp add: activate_begin_def assms)
qed

lemma commit_staged_shape:
  assumes "commit_staged a outs n st = (st', lv, m, ok)"
  shows "map fst st' = map fst st \<and> n \<le> m \<and>
    (\<forall>i < length st. snd (snd (st ! i)) \<noteq> None \<longrightarrow> fst (st ! i) \<longrightarrow> st' ! i = st ! i) \<and>
    (\<forall>(t, b, svc) \<in> set lv. b = a \<and> (\<exists>i < length st'. snd (snd (st' ! i)) = Some t))"
  using assms
proof (induction a outs n st arbitrary: st' lv m ok rule: commit_staged.induct)
  case (2 a outs n dead svc c rest)
  obtain o1 os where o: "outs = o1 # os \<or> outs = []" by (cases outs) auto
  show ?case
  proof (cases dead)
    case True
    obtain st1 where r: "commit_staged a outs n rest = (st1, lv, m, ok)" "st' = (dead, svc, c) # st1"
      using 2(3) True by (auto split: prod.splits)
    show ?thesis
      using 2(1) [OF True r(1)] r(2) by (fastforce simp: nth_Cons split: nat.splits)
  next
    case False
    show ?thesis
    proof (cases "outs = [] \<or> \<not> hd outs")
      case True
      then show ?thesis using 2(3) False by (cases outs) (auto simp: nth_Cons split: nat.splits)
    next
      case c: False
      then obtain os where os: "outs = True # os" by (cases outs) auto
      obtain st1 lv1 where r: "commit_staged a os (Suc n) rest = (st1, lv1, m, ok)"
          "st' = (False, svc, Some n) # st1" "lv = (n, a, svc) # lv1"
        using 2(3) False os by (auto split: prod.splits)
      show ?thesis
        using 2(2) [OF False os _ r(1)] r(2, 3) False by (fastforce simp: nth_Cons split: nat.splits)
    qed
  qed
qed auto

lemma after_commit_ok:
  assumes "pm_ok s" and "jget (pm_attempts s) a = Some att" and "at_phase att = Running"
    and "commit_staged a outs (pm_next s) (at_staged att) = (st, lv, m, ok)" and "ph \<noteq> Running"
  shows "pm_ok (put_attempt a (att\<lparr>at_staged := st, at_phase := ph\<rparr>) (s\<lparr>pm_live := pm_live s @ lv, pm_next := m\<rparr>))"
    (is "pm_ok ?s")
proof -
  let ?att = "att\<lparr>at_staged := st, at_phase := ph\<rparr>"
  have ok: "attempt_ok att" and a: "a < pm_next s"
    using pm_ok_attempt [OF assms(1, 2)] by auto
  have sh: "map fst st = map fst (at_staged att)" "pm_next s \<le> m"
      "\<And>t b svc. (t, b, svc) \<in> set lv \<Longrightarrow> b = a \<and> (\<exists>i < length st. snd (snd (st ! i)) = Some t)"
    using commit_staged_shape [OF assms(4)] by auto
  have len: "length st = length (at_staged att)"
    using sh(1) by (metis length_map)
  have att: "attempt_ok ?att"
    using ok len assms(5) by (simp add: attempt_ok_def)
  have old: "holds_registration ?att t" if h: "holds_registration att t" for t
  proof -
    obtain d where d: "d \<in> set (at_disposables att)" "disposes_of att d t"
      using h by (auto simp: holds_registration_def)
    have "d = Tracked t"
      using d(2) ok assms(3) by (cases d) (auto simp: disposes_of_def attempt_ok_def)
    then show ?thesis
      using d(1) by (auto simp: holds_registration_def disposes_of_def split: disposable.split)
  qed
  have new: "holds_registration ?att t \<and> b = a" if h: "(t, b, svc) \<in> set lv" for t b svc
  proof -
    obtain i where "i < length st" "snd (snd (st ! i)) = Some t"
      using sh(3) [OF h] by blast
    then show ?thesis
      using ok len sh(3) [OF h] by (auto simp: holds_registration_def disposes_of_def attempt_ok_def intro!: bexI [of _ "Staged i"])
  qed
  have "\<exists>x. jget (pm_attempts ?s) b = Some x \<and> holds_registration x t"
    if m: "(t, b, svc) \<in> set (pm_live ?s)" for t b svc
  proof (cases "(t, b, svc) \<in> set lv")
    case True
    then show ?thesis using new by simp
  next
    case False
    then obtain x where "jget (pm_attempts s) b = Some x" "holds_registration x t"
      using m pm_ok_live [OF assms(1)] by fastforce
    then show ?thesis
      using old assms(2) by (cases "b = a") auto
  qed
  moreover have "b < pm_next ?s \<and> attempt_ok x" if m: "jget (pm_attempts ?s) b = Some x" for b x
    using m att a sh(2) pm_ok_attempt [OF assms(1), of b x] by (auto split: if_splits)
  ultimately show ?thesis
    unfolding pm_ok_def by auto
qed

text \<open>The state in which what the plugin's \<open>activate\<close> returned has been tracked.\<close>

definition with_extra :: "nat \<Rightarrow> attempt \<Rightarrow> bool \<Rightarrow> plugin_manager \<Rightarrow> attempt \<times> plugin_manager" where
  "with_extra a att extra s =
     (if extra
      then (att\<lparr>at_disposables := at_disposables att @ [Tracked (pm_next s)]\<rparr>,
            s\<lparr>pm_live := jset (pm_next s) (a, OtherS) (pm_live s), pm_next := Suc (pm_next s)\<rparr>)
      else (att, s))"

lemma activate_returned_eq:
  assumes "jget (pm_attempts s) a = Some att" and "at_phase att = Running"
    and "with_extra a att extra s = (att1, s1)"
    and "commit_staged a outs (pm_next s1) (at_staged att1) = (st, lv, n, ok)"
  shows "activate_returned a False extra outs s =
     (if \<not> ok then fail_begin a (put_attempt a (att1\<lparr>at_staged := st\<rparr>) (s1\<lparr>pm_live := pm_live s1 @ lv, pm_next := n\<rparr>))
      else set_status (mf_id (at_manifest att)) (mf_version (at_manifest att)) Active
         (put_attempt a (att1\<lparr>at_staged := st, at_phase := Committed\<rparr>)
            (s1\<lparr>pm_live := pm_live s1 @ lv, pm_next := n,
               pm_active := jset (mf_id (at_manifest att)) a (pm_active s1),
               pm_order := pm_order s1 @ [mf_id (at_manifest att)]\<rparr>)))"
  using assms by (cases extra) (auto simp: activate_returned_def with_extra_def Let_def)

lemma with_extra_facts:
  assumes "with_extra a att extra s = (att1, s1)"
  shows "pm_attempts s1 = pm_attempts s" "pm_active s1 = pm_active s" "pm_order s1 = pm_order s"
    "status_of q s1 = status_of q s" "at_manifest att1 = at_manifest att" "at_phase att1 = at_phase att"
    "at_staged att1 = at_staged att"
  using assms by (auto simp: with_extra_def status_of_def split: if_splits)

lemma with_extra_ok:
  assumes "pm_ok s" and "jget (pm_attempts s) a = Some att" and "with_extra a att extra s = (att1, s1)"
  shows "pm_ok (put_attempt a att1 s1)"
proof (cases extra)
  case True
  then show ?thesis
    using assms pm_ok_made_at_once [OF assms(1, 2), of OtherS] by (auto simp: with_extra_def made_at_once_def)
next
  case False
  then show ?thesis
    using assms pm_ok_put_attempt [OF assms(1, 2), of att] pm_ok_attempt [OF assms(1, 2)] by (auto simp: with_extra_def)
qed

lemma activate_returned_ok:
  assumes "pm_ok s"
  shows "pm_ok (activate_returned a threw extra outs s)"
proof (cases "jget (pm_attempts s) a")
  case (Some att)
  show ?thesis
  proof (cases "at_phase att = Running \<and> \<not> threw")
    case True
    obtain att1 s1 where x: "with_extra a att extra s = (att1, s1)" by fastforce
    obtain st lv n ok where c: "commit_staged a outs (pm_next s1) (at_staged att1) = (st, lv, n, ok)"
      by (metis prod_cases4)
    note ret = activate_returned_eq [OF Some _ x c]
    have put: "pm_ok (put_attempt a (att1\<lparr>at_staged := st, at_phase := ph\<rparr>)
        ((put_attempt a att1 s1)\<lparr>pm_live := pm_live s1 @ lv, pm_next := n\<rparr>))" if "ph \<noteq> Running" for ph
      using after_commit_ok [OF with_extra_ok [OF assms Some x], of a att1 outs st lv n ok ph] c that True
        with_extra_facts(6) [OF x] by simp
    show ?thesis
      using True ret put [of Committed] put [of Failing]
      by (auto simp: fail_begin_def intro!: pm_ok_sweep intro: pm_ok_same)
  next
    case False
    then show ?thesis
      using Some assms fail_begin_ok by (auto simp: activate_returned_def)
  qed
qed (simp add: activate_returned_def assms)

lemma set_enabled_written_state:
  "snd (set_enabled_written p en ds src ver s) =
     (let s1 = s\<lparr>pm_stored := ds, pm_disabled := ds\<rparr> in
      if en then
        (if jget (pm_active s) p \<noteq> None then s1
         else (case src of None \<Rightarrow> s1 | Some v \<Rightarrow> snd (activate_begin v s1)))
      else if jget (pm_active s) p \<noteq> None then snd (deactivate_begin p s1)
      else set_status p (case ver of Some x \<Rightarrow> x | None \<Rightarrow> source_version p s1) DisabledP s1)"
  unfolding set_enabled_written_def Let_def
  by (simp split: option.split prod.split)

lemma set_enabled_written_cases:
  assumes "\<And>s1. s1 = s\<lparr>pm_stored := ds, pm_disabled := ds\<rparr> \<Longrightarrow> P s1"
    and "\<And>s1 v. s1 = s\<lparr>pm_stored := ds, pm_disabled := ds\<rparr> \<Longrightarrow> en \<Longrightarrow> jget (pm_active s) p = None \<Longrightarrow>
       P (snd (activate_begin v s1))"
    and "\<And>s1 y. s1 = s\<lparr>pm_stored := ds, pm_disabled := ds\<rparr> \<Longrightarrow> \<not> en \<Longrightarrow> jget (pm_active s) p = Some y \<Longrightarrow>
       P (snd (deactivate_begin p s1))"
    and "\<And>s1 x. s1 = s\<lparr>pm_stored := ds, pm_disabled := ds\<rparr> \<Longrightarrow> \<not> en \<Longrightarrow> jget (pm_active s) p = None \<Longrightarrow>
       P (set_status p x DisabledP s1)"
  shows "P (snd (set_enabled_written p en ds src ver s))"
  using assms unfolding set_enabled_written_state Let_def
  by (cases en; cases "jget (pm_active s) p"; cases src) simp_all

lemma set_enabled_written_ok: "pm_ok s \<Longrightarrow> pm_ok (snd (set_enabled_written p en ds src ver s))"
  by (rule set_enabled_written_cases) (simp_all add: activate_begin_ok deactivate_begin_ok)

lemma activate_all_item_cases:
  assumes "P (snd (activate_begin v s))"
    and "\<And>m s1. s1 = s\<lparr>pm_sources := jset (mf_id m) v (pm_sources s)\<rparr> \<Longrightarrow> parse_manifest v = Some m \<Longrightarrow>
       P (snd (activate_begin v s1))"
    and "\<And>m s1. s1 = s\<lparr>pm_sources := jset (mf_id m) v (pm_sources s)\<rparr> \<Longrightarrow> parse_manifest v = Some m \<Longrightarrow>
       List.member (pm_disabled s) (mf_id m) \<Longrightarrow> P (set_status (mf_id m) (mf_version m) DisabledP s1)"
  shows "P (snd (activate_all_item v s))"
  using assms unfolding activate_all_item_def Let_def
  by (cases "parse_manifest v") (auto simp: case_prod_beta)

lemma activate_all_item_ok: "pm_ok s \<Longrightarrow> pm_ok (snd (activate_all_item v s))"
  by (rule activate_all_item_cases) (simp_all add: activate_begin_ok)

lemma pm_step_ok: "pm_ok s \<Longrightarrow> pm_ok (pm_step op s)"
  by (cases op)
    (auto intro: activate_begin_ok activate_loaded_ok plugin_stage_ok plugin_track_ok
       only_disposed_ok [OF dispose_one_only] activate_returned_ok fail_end_ok deactivate_begin_ok
       deactivate_end_ok set_enabled_written_ok activate_all_item_ok
     simp: activate_all_begin_def set_lock_def split: sum.split prod.split)

lemma pm_run_ok: "pm_ok s \<Longrightarrow> pm_ok (pm_run ops s)"
  unfolding pm_run_def by (induction ops arbitrary: s) (simp_all add: pm_step_ok)

lemma pm_ok_initial [simp]: "pm_ok (new_plugin_manager host stored)"
  by (simp add: pm_ok_def new_plugin_manager_def)

lemma pm_reachable_ok: "pm_ok (pm_run ops (new_plugin_manager host stored))"
  by (simp add: pm_run_ok)

subsection \<open>What is over stays over\<close>

definition attempt_gone :: "nat \<Rightarrow> plugin_manager \<Rightarrow> bool" where
  "attempt_gone a s \<longleftrightarrow>
     a < pm_next s \<and> (\<exists>att. jget (pm_attempts s) a = Some att \<and> attempt_aborted att) \<and>
     (\<forall>(t, b, svc) \<in> set (pm_live s). b \<noteq> a)"

lemma attempt_goneI:
  assumes "attempt_gone a s" and "pm_next s \<le> pm_next s'"
    and "jget (pm_attempts s') a = jget (pm_attempts s) a"
    and "\<And>t b svc. (t, b, svc) \<in> set (pm_live s') \<Longrightarrow> (t, b, svc) \<in> set (pm_live s) \<or> b \<noteq> a"
  shows "attempt_gone a s'"
  using assms unfolding attempt_gone_def by fastforce

lemma attempt_gone_same:
  "attempt_gone a s \<Longrightarrow> pm_next s' = pm_next s \<Longrightarrow> pm_attempts s' = pm_attempts s \<Longrightarrow> pm_live s' = pm_live s \<Longrightarrow>
     attempt_gone a s'"
  by (simp add: attempt_gone_def)

lemma attempt_gone_put:
  "attempt_gone a s \<Longrightarrow> b \<noteq> a \<or> attempt_aborted att \<Longrightarrow> attempt_gone a (put_attempt b att s)"
  by (auto simp: attempt_gone_def)

lemma attempt_gone_set_status [simp]: "attempt_gone a (set_status p v st s) = attempt_gone a s"
  by (simp add: attempt_gone_def)

lemma attempt_gone_sweep: "attempt_gone a s \<Longrightarrow> attempt_gone a (sweep svcs p s)"
  by (erule attempt_goneI) (auto dest: subsetD [OF sweep_live])

lemma same_attempt_aborted: "same_attempt x y \<Longrightarrow> attempt_aborted x = attempt_aborted y"
  by (simp add: same_attempt_def attempt_aborted_def)

lemma attempt_gone_disposed:
  assumes "only_disposed s s'" and "attempt_gone a s"
  shows "attempt_gone a s'"
proof -
  obtain att where att: "jget (pm_attempts s) a = Some att" "attempt_aborted att"
    using assms(2) by (auto simp: attempt_gone_def)
  then show ?thesis
    using only_disposed_attempt [OF assms(1) att(1)] same_attempt_aborted assms
    unfolding attempt_gone_def only_disposed_def by fastforce
qed

lemma gone_not_running:
  "attempt_gone a s \<Longrightarrow> jget (pm_attempts s) b = Some att \<Longrightarrow> \<not> attempt_aborted att \<Longrightarrow> b \<noteq> a"
  by (auto simp: attempt_gone_def)

lemma fail_begin_gone: "attempt_gone a s \<Longrightarrow> attempt_gone a (fail_begin b s)"
  by (auto simp: fail_begin_def attempt_aborted_def split: option.split intro!: attempt_gone_sweep attempt_gone_put)

lemma fail_end_gone: "attempt_gone a s \<Longrightarrow> attempt_gone a (fail_end b outs s)"
  by (auto simp: fail_end_def Let_def attempt_aborted_def split: option.split
        intro!: attempt_gone_sweep attempt_gone_put intro: attempt_gone_disposed [OF dispose_all_only])

lemma activate_loaded_gone: "attempt_gone a s \<Longrightarrow> attempt_gone a (activate_loaded b d s)"
  by (auto simp: activate_loaded_def split: option.split intro: fail_begin_gone)

lemma deactivate_begin_gone: "attempt_gone a s \<Longrightarrow> attempt_gone a (snd (deactivate_begin p s))"
  by (auto simp: deactivate_begin_def attempt_aborted_def split: option.split intro!: attempt_gone_sweep attempt_gone_put)

lemma deactivate_end_gone:
  assumes "attempt_gone a s"
  shows "attempt_gone a (deactivate_end b outs s)"
proof -
  have "attempt_gone a (dispose_all b outs s\<lparr>pm_active := act, pm_order := ord\<rparr>)" for act ord
    by (rule attempt_gone_same [OF attempt_gone_disposed [OF dispose_all_only assms]]) simp_all
  then have "attempt_gone a (put_attempt b (x\<lparr>at_phase := Closed\<rparr>)
      (dispose_all b outs s\<lparr>pm_active := act, pm_order := ord\<rparr>))" for x act ord
    by (auto simp: attempt_aborted_def intro!: attempt_gone_put)
  then show ?thesis
    using assms by (auto simp: deactivate_end_def Let_def split: option.split)
qed

lemma made_at_once_gone:
  "attempt_gone a s \<Longrightarrow> b \<noteq> a \<Longrightarrow> attempt_gone a (made_at_once b att svc s)"
  by (erule attempt_goneI) (auto simp: made_at_once_def dest: subsetD [OF set_jset])

lemma plugin_track_gone:
  "attempt_gone a s \<Longrightarrow> plugin_track b svc s = Inr (d, s') \<Longrightarrow> attempt_gone a s'"
  by (auto simp: plugin_track_eq split: option.splits if_splits
        intro: made_at_once_gone dest: gone_not_running)

lemma plugin_stage_gone:
  "attempt_gone a s \<Longrightarrow> plugin_stage b svc ok s = Inr (d, s') \<Longrightarrow> attempt_gone a s'"
  by (auto simp: plugin_stage_def Let_def made_at_once_def [symmetric] split: option.splits if_splits
        intro!: made_at_once_gone attempt_gone_put dest: gone_not_running)

lemma activate_begin_gone:
  assumes "attempt_gone a s"
  shows "attempt_gone a (snd (activate_begin v s))"
proof (cases "parse_manifest v")
  case (Some m)
  let ?reserved = "List.find is_kernel_only_event (case mf_events m of None \<Rightarrow> [] | Some es \<Rightarrow> es)"
  have "attempt_gone a (put_attempt (pm_next s) att (set_status p ver st (s1\<lparr>pm_next := Suc (pm_next s)\<rparr>)))"
    if "pm_attempts s1 = pm_attempts s" "pm_live s1 = pm_live s" for s1 att p ver st
    using that assms by (intro attempt_gone_put) (auto simp: attempt_gone_def)
  moreover have "attempt_gone a (s\<lparr>pm_sources := x\<rparr>)" "attempt_gone a (s\<lparr>pm_sources := x, pm_records := y\<rparr>)" for x y
    using assms by (simp_all add: attempt_gone_def)
  ultimately show ?thesis
    unfolding activate_begin_def Let_def Some option.case by (cases ?reserved) simp_all
qed (simp add: activate_begin_def assms)

lemma activate_returned_gone:
  assumes "attempt_gone a s"
  shows "attempt_gone a (activate_returned b threw extra outs s)"
proof (cases "jget (pm_attempts s) b")
  case (Some att)
  show ?thesis
  proof (cases "at_phase att = Running \<and> \<not> threw")
    case True
    obtain att1 s1 where x: "with_extra b att extra s = (att1, s1)" by fastforce
    obtain st lv n ok where c: "commit_staged b outs (pm_next s1) (at_staged att1) = (st, lv, n, ok)"
      by (metis prod_cases4)
    have b: "b \<noteq> a"
      using gone_not_running [OF assms Some] True by (simp add: attempt_aborted_def)
    have g1: "attempt_gone a s1"
      using x b by (intro attempt_goneI [OF assms]) (auto simp: with_extra_def dest: subsetD [OF set_jset] split: if_splits)
    have "attempt_gone a (s1\<lparr>pm_live := pm_live s1 @ lv, pm_next := n\<rparr>)"
      using commit_staged_shape [OF c] b by (intro attempt_goneI [OF g1]) auto
    then have "attempt_gone a (put_attempt b y (s1\<lparr>pm_live := pm_live s1 @ lv, pm_next := n\<rparr>))"
        "attempt_gone a (put_attempt b y (s1\<lparr>pm_live := pm_live s1 @ lv, pm_next := n, pm_active := act, pm_order := ord\<rparr>))"
      for y act ord
      using b by (auto intro!: attempt_gone_put intro: attempt_gone_same)
    then show ?thesis
      using True activate_returned_eq [OF Some _ x c] by (simp add: fail_begin_gone)
  next
    case False
    then show ?thesis
      using Some assms fail_begin_gone by (auto simp: activate_returned_def)
  qed
qed (simp add: activate_returned_def assms)

lemma pm_step_gone:
  assumes "attempt_gone a s"
  shows "attempt_gone a (pm_step op s)"
proof -
  note same = attempt_gone_same [OF assms]
  have "attempt_gone a (snd (set_enabled_written p en ds src ver s))" for p en ds src ver
  proof -
    have s1: "attempt_gone a (s\<lparr>pm_stored := ds, pm_disabled := ds\<rparr>)"
      by (rule same) simp_all
    show ?thesis
      by (rule set_enabled_written_cases)
        (simp_all add: s1 activate_begin_gone deactivate_begin_gone)
  qed
  moreover have "attempt_gone a (snd (activate_all_item v s))" for v
  proof -
    have s1: "attempt_gone a (s\<lparr>pm_sources := x\<rparr>)" for x
      by (rule same) simp_all
    show ?thesis
      by (rule activate_all_item_cases) (simp_all add: assms s1 activate_begin_gone)
  qed
  ultimately show ?thesis
    using assms
    by (cases op)
      (auto intro: activate_begin_gone activate_loaded_gone plugin_stage_gone plugin_track_gone
         attempt_gone_disposed [OF dispose_one_only] activate_returned_gone fail_end_gone deactivate_begin_gone
         deactivate_end_gone same
       simp: activate_all_begin_def set_lock_def split: sum.split prod.split)
qed

lemma pm_run_gone: "attempt_gone a s \<Longrightarrow> attempt_gone a (pm_run ops s)"
  unfolding pm_run_def by (induction ops arbitrary: s) (simp_all add: pm_step_gone)

section \<open>One activation at a time\<close>

text \<open>
  The operations of a manager whose callers keep three disciplines: nobody disables a plugin that is still
  activating or deactivating; nobody deactivates one twice at the same time, so that the continuation of a
  deactivation runs once; and \<open>activateAll\<close> does not come to a plugin that the stored document disables while
  that plugin is activating, active or deactivating, for it would overwrite the plugin's status with disabled.
\<close>

fun serial_op :: "pm_op \<Rightarrow> plugin_manager \<Rightarrow> bool" where
  "serial_op (EnabledWritten p en ds src ver) s =
     (en \<or> status_of p s \<notin> {Some Activating, Some Deactivating})"
| "serial_op (DeactivateBegin p) s = (status_of p s \<noteq> Some Deactivating)"
| "serial_op (DeactivateEnd a outs) s =
     (case jget (pm_attempts s) a of None \<Rightarrow> True | Some att \<Rightarrow> at_phase att \<noteq> Closed)"
| "serial_op (AllItem v) s =
     (case parse_manifest v of None \<Rightarrow> True
      | Some m \<Rightarrow> \<not> List.member (pm_disabled s) (mf_id m) \<or>
          status_of (mf_id m) s \<notin> {Some Activating, Some Active, Some Deactivating})"
| "serial_op _ s = True"

fun serial_run :: "pm_op list \<Rightarrow> plugin_manager \<Rightarrow> bool" where
  "serial_run [] s = True"
| "serial_run (op # ops) s = (serial_op op s \<and> serial_run ops (pm_step op s))"

text \<open>What the discipline is about: the plugin and the phase of every attempt, statuses and the active map.\<close>

definition phases :: "plugin_manager \<Rightarrow> nat \<Rightarrow> (string \<times> attempt_phase) option" where
  "phases s a = map_option (\<lambda>att. (mf_id (at_manifest att), at_phase att)) (jget (pm_attempts s) a)"

definition phase_fits :: "nat \<Rightarrow> attempt_phase \<Rightarrow> plugin_status option \<Rightarrow> nat option \<Rightarrow> bool" where
  "phase_fits a ph st act =
     (case ph of
        Running \<Rightarrow> st = Some Activating \<and> act = None
      | Failing \<Rightarrow> st = Some Activating \<and> act = None
      | Committed \<Rightarrow> st = Some Active \<and> act = Some a
      | Closing \<Rightarrow> st = Some Deactivating \<and> act = Some a
      | Closed \<Rightarrow> True)"

definition serial_view ::
  "(nat \<Rightarrow> (string \<times> attempt_phase) option) \<Rightarrow> (string \<Rightarrow> plugin_status option) \<Rightarrow> (string \<Rightarrow> nat option)
    \<Rightarrow> string list \<Rightarrow> nat \<Rightarrow> bool" where
  "serial_view ph st act ord n \<longleftrightarrow>
     (\<forall>a p x. ph a = Some (p, x) \<longrightarrow> a < n \<and> phase_fits a x (st p) (act p)) \<and>
     (\<forall>a b p x y. ph a = Some (p, x) \<longrightarrow> ph b = Some (p, y) \<longrightarrow> x \<noteq> Closed \<longrightarrow> y \<noteq> Closed \<longrightarrow> a = b) \<and>
     (\<forall>p a. act p = Some a \<longrightarrow> (\<exists>x. ph a = Some (p, x) \<and> (x = Committed \<or> x = Closing))) \<and>
     distinct ord \<and> (\<forall>p. p \<in> set ord \<longleftrightarrow> act p \<noteq> None)"

definition statuses :: "plugin_manager \<Rightarrow> string \<Rightarrow> plugin_status option" where
  "statuses s p = status_of p s"

lemma statuses_fields [simp]:
  "statuses (set_status q v st s) = (statuses s)(q := Some st)" "statuses (put_attempt a att s) = statuses s"
  "statuses (sweep svcs q s) = statuses s" "statuses (s\<lparr>pm_live := l\<rparr>) = statuses s"
  "statuses (s\<lparr>pm_next := n\<rparr>) = statuses s" "statuses (s\<lparr>pm_active := act\<rparr>) = statuses s"
  "statuses (s\<lparr>pm_order := ord\<rparr>) = statuses s"
  by (simp_all add: statuses_def fun_eq_iff) (simp_all add: status_of_def)

definition pm_serial :: "plugin_manager \<Rightarrow> bool" where
  "pm_serial s = serial_view (phases s) (statuses s) (jget (pm_active s)) (pm_order s) (pm_next s)"

lemma phase_fits_idle:
  "phase_fits a x st act \<Longrightarrow> st \<notin> {Some Activating, Some Active, Some Deactivating} \<Longrightarrow> x = Closed"
  by (cases x) (auto simp: phase_fits_def)

lemma serial_view_idle:
  assumes "serial_view ph st act ord n" and "st p \<notin> {Some Activating, Some Active, Some Deactivating}"
  shows "act p = None" and "ph a = Some (p, x) \<Longrightarrow> x = Closed"
proof -
  show c: "x = Closed" if "ph a = Some (p, x)" for a x
    using assms that phase_fits_idle unfolding serial_view_def by metis
  show "act p = None"
    using assms(1) c unfolding serial_view_def by (metis attempt_phase.distinct(13,19) not_Some_eq)
qed

lemma serial_view_inactive:
  assumes "serial_view ph st act ord n" and "act p = None" and "st p \<noteq> Some Activating" and "ph a = Some (p, x)"
  shows "x = Closed"
proof -
  have "phase_fits a x (st p) (act p)"
    using assms(1, 4) by (simp add: serial_view_def)
  then show ?thesis
    using assms(2, 3) by (cases x) (auto simp: phase_fits_def)
qed

lemma serial_view_status:
  assumes "serial_view ph st act ord n" and "\<And>a x. ph a = Some (p, x) \<Longrightarrow> x = Closed"
  shows "serial_view ph (st(p := y)) act ord n"
  using assms unfolding serial_view_def phase_fits_def by (fastforce split: attempt_phase.splits)

lemma serial_view_start:
  assumes v: "serial_view ph st act ord n" and closed: "\<And>a x. ph a = Some (p, x) \<Longrightarrow> x = Closed" and "act p = None"
  shows "serial_view (ph(n := Some (p, Running))) (st(p := Some Activating)) act ord (Suc n)"
proof -
  have fits: "a < n \<and> phase_fits a x (st q) (act q)" if "ph a = Some (q, x)" for a q x
    using v that unfolding serial_view_def by blast
  have uniq: "a = b" if "ph a = Some (q, x)" "ph b = Some (q, y)" "x \<noteq> Closed" "y \<noteq> Closed" for a b q x y
    using v that unfolding serial_view_def by blast
  have known: "\<exists>x. ph a = Some (q, x) \<and> (x = Committed \<or> x = Closing)" if "act q = Some a" for q a
    using v that unfolding serial_view_def by blast
  have new: "ph n = None"
    using fits by (metis less_irrefl not_Some_eq surj_pair)
  let ?ph = "ph(n := Some (p, Running))"
  have "a < Suc n \<and> phase_fits a x ((st(p := Some Activating)) q) (act q)" if "?ph a = Some (q, x)" for a q x
    using that fits [of a q x] closed [of a x] assms(3)
    by (cases "a = n"; cases "q = p") (auto simp: phase_fits_def less_SucI)
  moreover have "a = b" if "?ph a = Some (q, x)" "?ph b = Some (q, y)" "x \<noteq> Closed" "y \<noteq> Closed" for a b q x y
    using that uniq [of a q x b y] closed by (cases "a = n"; cases "b = n") auto
  moreover have "\<exists>x. ?ph a = Some (q, x) \<and> (x = Committed \<or> x = Closing)" if "act q = Some a" for q a
    using known [OF that] new by auto
  moreover have "distinct ord \<and> (\<forall>q. q \<in> set ord \<longleftrightarrow> act q \<noteq> None)"
    using v unfolding serial_view_def by blast
  ultimately show ?thesis
    unfolding serial_view_def by blast
qed

lemma phase_fits_simps [simp]:
  "phase_fits a Running st act = (st = Some Activating \<and> act = None)"
  "phase_fits a Failing st act = (st = Some Activating \<and> act = None)"
  "phase_fits a Committed st act = (st = Some Active \<and> act = Some a)"
  "phase_fits a Closing st act = (st = Some Deactivating \<and> act = Some a)"
  "phase_fits a Closed st act"
  by (simp_all add: phase_fits_def)

lemma serial_view_fits: "serial_view ph st act ord n \<Longrightarrow> ph a = Some (p, x) \<Longrightarrow> a < n \<and> phase_fits a x (st p) (act p)"
  by (simp add: serial_view_def)

lemma serial_view_active:
  "serial_view ph st act ord n \<Longrightarrow> act p = Some a \<Longrightarrow> \<exists>x. ph a = Some (p, x) \<and> (x = Committed \<or> x = Closing)"
  by (simp add: serial_view_def)

lemma serial_view_only_open:
  assumes "serial_view ph st act ord n" and "ph a = Some (p, x)" and "x \<noteq> Closed" and "ph b = Some (p, y)" and "b \<noteq> a"
  shows "y = Closed"
  using assms unfolding serial_view_def by metis

lemma serial_view_move:
  assumes v: "serial_view ph st act ord n" and a: "ph a = Some (p, x0)" and x0: "x0 \<noteq> Closed"
    and fits: "phase_fits a x1 st1 act1"
    and act1: "act1 = None \<or> act1 = Some a \<and> (x1 = Committed \<or> x1 = Closing)"
    and ord': "distinct ord'" "\<And>q. q \<in> set ord' \<longleftrightarrow> (act(p := act1)) q \<noteq> None"
  shows "serial_view (ph(a := Some (p, x1))) (st(p := st1)) (act(p := act1)) ord' n"
proof -
  let ?ph = "ph(a := Some (p, x1))"
  have others: "y = Closed" if "ph b = Some (p, y)" "b \<noteq> a" for b y
    using serial_view_only_open [OF v a x0] that by blast
  have "b < n \<and> phase_fits b x ((st(p := st1)) q) ((act(p := act1)) q)" if m: "?ph b = Some (q, x)" for b q x
  proof (cases "b = a")
    case True
    then show ?thesis using m fits serial_view_fits [OF v a] by auto
  next
    case False
    then show ?thesis
      using m serial_view_fits [OF v, of b q x] others [of b x] by (cases "q = p") auto
  qed
  moreover have "b = c" if "?ph b = Some (q, x)" "?ph c = Some (q, y)" "x \<noteq> Closed" "y \<noteq> Closed" for b c q x y
    using that others serial_view_only_open [OF v, of b q x c y] by (auto split: if_splits)
  moreover have "\<exists>x. ?ph b = Some (q, x) \<and> (x = Committed \<or> x = Closing)" if m: "(act(p := act1)) q = Some b" for b q
  proof (cases "q = p")
    case True
    then show ?thesis using m act1 by auto
  next
    case False
    then obtain x where "ph b = Some (q, x)" "x = Committed \<or> x = Closing"
      using serial_view_active [OF v, of q b] m by auto
    then show ?thesis using a False by (cases "b = a") auto
  qed
  ultimately show ?thesis
    using ord' unfolding serial_view_def by blast
qed

lemma serial_view_order:
  "serial_view ph st act ord n \<Longrightarrow> distinct ord \<and> (\<forall>q. q \<in> set ord \<longleftrightarrow> act q \<noteq> None)"
  by (simp add: serial_view_def)

lemma serial_view_move_same:
  assumes v: "serial_view ph st act ord n" and a: "ph a = Some (p, x0)" and x0: "x0 \<noteq> Closed"
    and fits: "phase_fits a x1 st1 (act p)"
    and act1: "act p = None \<or> act p = Some a \<and> (x1 = Committed \<or> x1 = Closing)"
  shows "serial_view (ph(a := Some (p, x1))) (st(p := st1)) act ord n"
proof -
  have "serial_view (ph(a := Some (p, x1))) (st(p := st1)) (act(p := act p)) ord n"
    using serial_view_order [OF v] by (intro serial_view_move [OF v a x0 fits act1]) auto
  then show ?thesis by simp
qed

lemma serial_view_next: "serial_view ph st act ord n \<Longrightarrow> n \<le> m \<Longrightarrow> serial_view ph st act ord m"
  unfolding serial_view_def by (simp, blast intro: less_le_trans)

lemma serial_view_fail:
  assumes v: "serial_view ph st act ord n" and a: "ph a = Some (p, Running)"
  shows "serial_view (ph(a := Some (p, Failing))) st act ord n"
proof -
  have "serial_view (ph(a := Some (p, Failing))) (st(p := st p)) act ord n"
    using serial_view_fits [OF v a] by (intro serial_view_move_same [OF v a]) auto
  then show ?thesis by simp
qed

lemma serial_view_failed:
  assumes v: "serial_view ph st act ord n" and a: "ph a = Some (p, Failing)"
  shows "serial_view (ph(a := Some (p, Closed))) (st(p := y)) act ord n"
  using serial_view_fits [OF v a] by (intro serial_view_move_same [OF v a]) auto

lemma serial_view_commit:
  assumes v: "serial_view ph st act ord n" and a: "ph a = Some (p, Running)"
  shows "serial_view (ph(a := Some (p, Committed))) (st(p := Some Active)) (act(p := Some a)) (ord @ [p]) n"
  using serial_view_fits [OF v a] serial_view_order [OF v] by (intro serial_view_move [OF v a]) auto

lemma serial_view_closing:
  assumes v: "serial_view ph st act ord n" and a: "ph a = Some (p, Committed)"
  shows "serial_view (ph(a := Some (p, Closing))) (st(p := Some Deactivating)) act ord n"
  using serial_view_fits [OF v a] by (intro serial_view_move_same [OF v a]) auto

lemma set_remove_last: "distinct xs \<Longrightarrow> set (remove_last x xs) = set xs - {x}"
  by (simp add: remove_last_def)

lemma distinct_remove_last: "distinct xs \<Longrightarrow> distinct (remove_last x xs)"
  by (simp add: remove_last_def)

lemma serial_view_closed:
  assumes v: "serial_view ph st act ord n" and a: "ph a = Some (p, Closing)"
  shows "serial_view (ph(a := Some (p, Closed))) (st(p := y)) (act(p := None)) (remove_last p ord) n"
  using serial_view_order [OF v]
  by (intro serial_view_move [OF v a]) (auto simp: set_remove_last distinct_remove_last)

subsection \<open>The operations as moves\<close>

lemma pm_serial_same:
  assumes "pm_serial s" and "phases s' = phases s" and "\<And>p. status_of p s' = status_of p s"
    and "jget (pm_active s') = jget (pm_active s)" and "pm_order s' = pm_order s" and "pm_next s \<le> pm_next s'"
  shows "pm_serial s'"
proof -
  have "statuses s' = statuses s"
    using assms(3) by (simp add: statuses_def fun_eq_iff)
  then have "serial_view (phases s') (statuses s') (jget (pm_active s')) (pm_order s') (pm_next s)"
    using assms(1, 2, 4, 5) by (simp add: pm_serial_def)
  then show ?thesis
    unfolding pm_serial_def by (rule serial_view_next) (rule assms(6))
qed

lemma pm_serial_disposed: "only_disposed s s' \<Longrightarrow> pm_serial s \<Longrightarrow> pm_serial s'"
proof (erule pm_serial_same)
  assume d: "only_disposed s s'"
  have "map_option (\<lambda>att. (mf_id (at_manifest att), at_phase att)) (jget (pm_attempts s') a) =
      map_option (\<lambda>att. (mf_id (at_manifest att), at_phase att)) (jget (pm_attempts s) a)" for a
  proof -
    have "rel_option same_attempt (jget (pm_attempts s') a) (jget (pm_attempts s) a)"
      using d by (simp add: only_disposed_def)
    then show ?thesis
      by (cases rule: option.rel_cases) (auto simp: same_attempt_def)
  qed
  then show "phases s' = phases s"
    by (simp add: phases_def fun_eq_iff)
qed (auto simp: only_disposed_def)

lemma phases_put:
  "phases (put_attempt a att s) = (phases s)(a := Some (mf_id (at_manifest att), at_phase att))"
  by (auto simp: phases_def fun_eq_iff)

lemma phases_fields [simp]:
  "phases (set_status p v st s) = phases s" "phases (sweep svcs p s) = phases s"
  "phases (s\<lparr>pm_live := l\<rparr>) = phases s" "phases (s\<lparr>pm_next := n\<rparr>) = phases s"
  "phases (s\<lparr>pm_active := act\<rparr>) = phases s" "phases (s\<lparr>pm_order := ord\<rparr>) = phases s"
  by (simp_all add: phases_def fun_eq_iff)

lemma phases_some: "jget (pm_attempts s) a = Some att \<Longrightarrow> phases s a = Some (mf_id (at_manifest att), at_phase att)"
  by (simp add: phases_def)

lemma fail_begin_serial:
  assumes "pm_serial s" and "jget (pm_attempts s) a = Some att" and "at_phase att = Running"
  shows "pm_serial (fail_begin a s)"
  using serial_view_fail assms phases_some [OF assms(2)] unfolding pm_serial_def
  by (fastforce simp: fail_begin_def phases_put)

lemma fail_end_serial:
  assumes "pm_serial s"
  shows "pm_serial (fail_end a outs s)"
proof (cases "\<exists>att. jget (pm_attempts s) a = Some att \<and> at_phase att = Failing")
  case True
  then obtain att where att: "jget (pm_attempts s) a = Some att" "at_phase att = Failing" by blast
  let ?s = "dispose_all a outs s" and ?p = "mf_id (at_manifest att)"
  obtain att1 where att1: "jget (pm_attempts ?s) a = Some att1" "same_attempt att1 att"
    using only_disposed_attempt [OF dispose_all_only att(1)] by blast
  have v: "serial_view (phases ?s) (statuses ?s) (jget (pm_active ?s)) (pm_order ?s) (pm_next ?s)"
    using pm_serial_disposed [OF dispose_all_only assms] by (simp add: pm_serial_def)
  have ph: "phases ?s a = Some (?p, Failing)" and id: "mf_id (at_manifest att1) = ?p"
    using phases_some [OF att1(1)] att1(2) att(2) by (auto simp: same_attempt_def)
  then show ?thesis
    using serial_view_failed [OF v ph, of "Some FailedP"] att att1(1) id
    by (simp add: fail_end_def Let_def pm_serial_def phases_put)
next
  case False
  then show ?thesis
    using assms by (auto simp: fail_end_def split: option.split)
qed

lemma activate_loaded_serial: "pm_serial s \<Longrightarrow> pm_serial (activate_loaded a d s)"
  by (auto simp: activate_loaded_def split: option.split intro: fail_begin_serial)

lemma serial_unfold:
  "pm_serial s \<Longrightarrow> serial_view (phases s) (statuses s) (jget (pm_active s)) (pm_order s) (pm_next s)"
  by (simp add: pm_serial_def)

lemma activate_returned_serial:
  assumes "pm_serial s"
  shows "pm_serial (activate_returned a threw extra outs s)"
proof (cases "jget (pm_attempts s) a")
  case (Some att)
  show ?thesis
  proof (cases "at_phase att = Running \<and> \<not> threw")
    case True
    obtain att1 s1 where x: "with_extra a att extra s = (att1, s1)" by fastforce
    obtain st lv n ok where c: "commit_staged a outs (pm_next s1) (at_staged att1) = (st, lv, n, ok)"
      by (metis prod_cases4)
    let ?p = "mf_id (at_manifest att)"
    let ?s1 = "s1\<lparr>pm_live := pm_live s1 @ lv, pm_next := n\<rparr>"
    have n: "pm_next s \<le> n"
      using commit_staged_shape [OF c] x by (auto simp: with_extra_def split: if_splits)
    have ph: "phases s a = Some (?p, Running)"
      using phases_some [OF Some] True by simp
    have s1: "phases ?s1 = phases s" "\<And>q. status_of q ?s1 = status_of q s" "pm_active ?s1 = pm_active s"
        "pm_order ?s1 = pm_order s"
      using with_extra_facts [OF x] by (simp_all add: phases_def status_of_def fun_eq_iff)
    have ser: "pm_serial ?s1"
      using pm_serial_same [OF assms s1(1, 2)] s1(3, 4) n by simp
    have phs: "phases ?s1 a = Some (?p, Running)"
      using ph s1(1) by simp
    show ?thesis
    proof (cases ok)
      case ok: True
      have m: "at_manifest att1 = at_manifest att"
        using with_extra_facts(5) [OF x] .
      have "serial_view ((phases ?s1)(a := Some (?p, Committed))) ((statuses ?s1)(?p := Some Active))
          ((jget (pm_active ?s1))(?p := Some a)) (pm_order ?s1 @ [?p]) (pm_next ?s1)"
        by (rule serial_view_commit [OF serial_unfold [OF ser] phs])
      then show ?thesis
        using True activate_returned_eq [OF Some _ x c] ok m
        by (simp add: pm_serial_def phases_put) 
    next
      case no: False
      let ?att = "att1\<lparr>at_staged := st\<rparr>"
      have run: "at_phase ?att = Running" and id: "mf_id (at_manifest ?att) = ?p"
        using with_extra_facts(5, 6) [OF x] True by auto
      have "pm_serial (put_attempt a ?att ?s1)"
        by (rule pm_serial_same [OF ser])
          (simp_all only: phases_put run id fun_upd_idem [of "phases ?s1" a, OF phs] put_attempt_fields order_refl)
      then have "pm_serial (fail_begin a (put_attempt a ?att ?s1))"
        by (rule fail_begin_serial [OF _ _ run]) simp
      then show ?thesis
        using True no activate_returned_eq [OF Some _ x c] by simp
    qed
  next
    case False
    then show ?thesis
      using Some assms fail_begin_serial by (auto simp: activate_returned_def)
  qed
qed (simp add: activate_returned_def assms)

lemma deactivate_begin_serial:
  assumes "pm_serial s" and "status_of p s \<noteq> Some Deactivating"
  shows "pm_serial (snd (deactivate_begin p s))"
proof (cases "jget (pm_active s) p")
  case (Some a)
  obtain x where x: "phases s a = Some (p, x)" "x = Committed \<or> x = Closing"
    using serial_unfold [OF assms(1)] Some unfolding serial_view_def by blast
  have x: "phases s a = Some (p, Committed)"
    using x serial_view_fits [OF serial_unfold [OF assms(1)] x(1)] assms(2) by (auto simp: statuses_def)
  then obtain att where att: "jget (pm_attempts s) a = Some att" "mf_id (at_manifest att) = p"
    by (auto simp: phases_def)
  then show ?thesis
    using serial_view_closing [OF serial_unfold [OF assms(1)] x] Some
    by (simp add: deactivate_begin_def pm_serial_def phases_put)
qed (simp add: deactivate_begin_def assms)

lemma deactivate_end_serial:
  assumes "pm_serial s" and "\<And>att. jget (pm_attempts s) a = Some att \<Longrightarrow> at_phase att \<noteq> Closed"
  shows "pm_serial (deactivate_end a outs s)"
proof (cases "\<exists>att. jget (pm_attempts s) a = Some att \<and> at_phase att = Closing")
  case True
  then obtain att where att: "jget (pm_attempts s) a = Some att" "at_phase att = Closing" by blast
  let ?s = "dispose_all a outs s" and ?p = "mf_id (at_manifest att)"
  obtain att1 where att1: "jget (pm_attempts ?s) a = Some att1" "same_attempt att1 att"
    using only_disposed_attempt [OF dispose_all_only att(1)] by blast
  have ph: "phases ?s a = Some (?p, Closing)" and id: "mf_id (at_manifest att1) = ?p"
    using phases_some [OF att1(1)] att1(2) att(2) by (auto simp: same_attempt_def)
  show ?thesis
    using serial_view_closed [OF serial_unfold [OF pm_serial_disposed [OF dispose_all_only assms(1)]] ph, of "Some DisabledP"]
      att att1(1) id
    by (simp add: deactivate_end_def Let_def pm_serial_def phases_put)
next
  case False
  then show ?thesis
    using assms by (auto simp: deactivate_end_def split: option.split)
qed

lemma activate_begin_serial:
  assumes "pm_serial s"
  shows "pm_serial (snd (activate_begin v s))"
proof (cases "parse_manifest v")
  case (Some m)
  let ?reserved = "List.find is_kernel_only_event (case mf_events m of None \<Rightarrow> [] | Some es \<Rightarrow> es)"
  let ?p = "mf_id m"
  let ?s1 = "s\<lparr>pm_sources := jset ?p v (pm_sources s)\<rparr>"
  let ?s2 = "s\<lparr>pm_sources := jset ?p v (pm_sources s), pm_records := jdel ?p (pm_records s)\<rparr>"
  have ser1: "pm_serial ?s1"
    by (rule pm_serial_same [OF assms]) (simp_all add: phases_def status_of_def fun_eq_iff)
  have st2: "(statuses ?s2)(?p := Some x) = (statuses s)(?p := Some x)" for x
    by (auto simp: statuses_def status_of_def fun_eq_iff)
  have ph2: "phases ?s2 = phases s"
    by (simp add: phases_def fun_eq_iff)
  have "pm_serial (set_status ?p ver Incompatible ?s2)"
      "pm_serial (put_attempt (pm_next s) \<lparr>at_manifest = m, at_phase = Running, at_staged = [], at_disposables = []\<rparr>
         (set_status ?p ver Activating (?s2\<lparr>pm_next := Suc (pm_next s)\<rparr>)))"
    if "status_of ?p s = None \<or> status_of ?p s = Some DisabledP" for ver
  proof -
    note v = serial_unfold [OF assms]
    have idle: "statuses s ?p \<notin> {Some Activating, Some Active, Some Deactivating}"
      using that by (auto simp: statuses_def)
    note closed = serial_view_idle(2) [OF v idle]
    show "pm_serial (set_status ?p ver Incompatible ?s2)"
      using serial_view_status [OF v, of ?p "Some Incompatible"] closed by (simp add: pm_serial_def st2 ph2)
    show "pm_serial (put_attempt (pm_next s) \<lparr>at_manifest = m, at_phase = Running, at_staged = [], at_disposables = []\<rparr>
         (set_status ?p ver Activating (?s2\<lparr>pm_next := Suc (pm_next s)\<rparr>)))"
      using serial_view_start [OF v, of ?p] closed serial_view_idle(1) [OF v idle]
      by (simp add: pm_serial_def st2 ph2 phases_put)
  qed
  moreover have "status_of ?p ?s1 = status_of ?p s"
    by (simp add: status_of_def)
  ultimately show ?thesis
    using ser1 unfolding activate_begin_def Let_def Some option.case by (cases ?reserved) auto
qed (simp add: activate_begin_def assms)

lemma pm_step_serial:
  assumes s: "pm_serial s" and op: "serial_op op s"
  shows "pm_serial (pm_step op s)"
proof -
  have same: "pm_serial (s\<lparr>pm_stored := ds, pm_disabled := ds\<rparr>)" "pm_serial (s\<lparr>pm_sources := x\<rparr>)"
      "pm_serial (s\<lparr>pm_locks := y\<rparr>)" "pm_serial (s\<lparr>pm_disabled := ds\<rparr>)" for ds x y
    by (rule pm_serial_same [OF s]; simp add: phases_def status_of_def fun_eq_iff)+
  have idle: "pm_serial (set_status p ver DisabledP s')"
    if "pm_serial s'" "jget (pm_active s') p = None" "statuses s' p \<noteq> Some Activating" for s' p ver
    using serial_view_status [OF serial_unfold [OF that(1)] serial_view_inactive [OF serial_unfold [OF that(1)] that(2, 3)]]
    by (simp add: pm_serial_def)
  have made: "pm_serial s'" if "plugin_stage a svc ok s = Inr (d, s') \<or> plugin_track a svc s = Inr (d, s')" for a svc ok d s'
  proof (rule pm_serial_same [OF s])
    show "phases s' = phases s"
      using that by (auto simp: plugin_stage_def plugin_track_def Let_def phases_put phases_def fun_eq_iff
          split: option.splits if_splits)
  qed (use that in \<open>auto simp: plugin_stage_def plugin_track_def Let_def status_of_def put_attempt_def split: option.splits if_splits\<close>)
  show ?thesis
  proof (cases op)
    case (EnabledWritten p en ds src ver)
    show ?thesis
      unfolding EnabledWritten pm_step.simps
    proof (rule set_enabled_written_cases)
      fix s1 y
      assume s1: "s1 = s\<lparr>pm_stored := ds, pm_disabled := ds\<rparr>" and "\<not> en"
      then show "pm_serial (snd (deactivate_begin p s1))"
        using op EnabledWritten same(1) by (auto intro!: deactivate_begin_serial simp: status_of_def)
    next
      fix s1 x
      assume s1: "s1 = s\<lparr>pm_stored := ds, pm_disabled := ds\<rparr>" and "\<not> en" and "jget (pm_active s) p = None"
      then show "pm_serial (set_status p x DisabledP s1)"
        using op EnabledWritten same(1) by (auto intro!: idle simp: statuses_def status_of_def)
    qed (use same(1) activate_begin_serial in auto)
  next
    case (AllItem v)
    show ?thesis
      unfolding AllItem pm_step.simps
    proof (rule activate_all_item_cases)
      fix m s1
      assume s1: "s1 = s\<lparr>pm_sources := jset (mf_id m) v (pm_sources s)\<rparr>" and m: "parse_manifest v = Some m"
        and d: "List.member (pm_disabled s) (mf_id m)"
      have "statuses s (mf_id m) \<notin> {Some Activating, Some Active, Some Deactivating}"
        using op AllItem m d by (auto simp: statuses_def)
      then show "pm_serial (set_status (mf_id m) (mf_version m) DisabledP s1)"
        using same(2) s1 serial_view_idle(1) [OF serial_unfold [OF s]]
        by (auto intro!: idle simp: statuses_def status_of_def)
    qed (use s same(2) activate_begin_serial in auto)
  qed (use op s made same in \<open>auto intro: made [OF disjI1] made [OF disjI2]
      activate_begin_serial activate_loaded_serial activate_returned_serial fail_end_serial deactivate_begin_serial deactivate_end_serial pm_serial_disposed [OF dispose_one_only]
      simp: activate_all_begin_def set_lock_def split: sum.split prod.split option.splits\<close>)
qed

lemma pm_run_serial: "pm_serial s \<Longrightarrow> serial_run ops s \<Longrightarrow> pm_serial (pm_run ops s)"
  unfolding pm_run_def by (induction ops arbitrary: s) (simp_all add: pm_step_serial)

lemma pm_serial_initial [simp]: "pm_serial (new_plugin_manager host stored)"
  by (simp add: pm_serial_def serial_view_def new_plugin_manager_def phases_def)

section \<open>Properties\<close>

text \<open>A plugin without contributions, for the witnesses.\<close>

definition sample_source :: jsval where
  "sample_source =
     VObj [(''id'', VStr ''acme.x''), (''version'', VStr ''1.2.3''), (''engines'', VObj [(''borg'', VStr ''^0.1.0'')]),
           (''main'', VStr ''m''), (''permissions'', VArr []), (''contributes'', VObj [])]"

definition sample_manifest :: manifest where
  "sample_manifest = \<lparr>mf_id = ''acme.x'', mf_version = ''1.2.3'', mf_engine = ''^0.1.0'', mf_main = ''m'',
     mf_ui = None, mf_permissions = [], mf_commands = None, mf_events = None, mf_points = None, mf_kinds = None\<rparr>"

lemma parse_sample: "parse_manifest sample_source = Some sample_manifest"
  by code_simp

lemma sample_engine: "satisfies_borg_engine ''^0.1.0'' ''0.1.5''"
  by code_simp

lemma activate_begin_plain:
  assumes "parse_manifest v = Some m" and "mf_events m = None" and "satisfies_borg_engine (mf_engine m) (pm_host s)"
    and "status_of (mf_id m) s = None \<or> status_of (mf_id m) s = Some DisabledP"
  shows "snd (activate_begin v s) =
     put_attempt (pm_next s) \<lparr>at_manifest = m, at_phase = Running, at_staged = [], at_disposables = []\<rparr>
       (set_status (mf_id m) (mf_version m) Activating
          (s\<lparr>pm_sources := jset (mf_id m) v (pm_sources s), pm_records := jdel (mf_id m) (pm_records s),
             pm_next := Suc (pm_next s)\<rparr>))"
proof -
  have "status_of (mf_id m) (s\<lparr>pm_sources := x\<rparr>) = status_of (mf_id m) s" for x
    by (simp add: status_of_def)
  then show ?thesis
    using assms by (auto simp: activate_begin_def Let_def)
qed

text \<open>C27: A failed activation or a deactivation whose disposals all succeed leaves no registration of that
  attempt in effect, and none of that attempt comes into effect later, whatever else happens to the manager.\<close>

theorem closed_attempt_holds_nothing:
  assumes "s = pm_run ops (new_plugin_manager host stored)"
    and "jget (pm_attempts s) a = Some att"
    and "op = FailEnd a outs \<and> at_phase att = Failing \<or> op = DeactivateEnd a outs \<and> at_phase att = Closing"
    and "length (at_disposables att) \<le> length outs" and "list_all id outs"
  shows "\<forall>(t, b, svc) \<in> set (pm_live (pm_run later (pm_step op s))). b \<noteq> a"
proof -
  have ok: "pm_ok s"
    using pm_reachable_ok assms(1) by simp
  have none: "\<forall>(t, b, svc) \<in> set (pm_live (dispose_all a outs s)). b \<noteq> a"
    using dispose_all_gone [OF ok assms(2, 4, 5)] by auto
  obtain att1 where att1: "jget (pm_attempts (dispose_all a outs s)) a = Some att1"
    using only_disposed_attempt [OF dispose_all_only assms(2)] by blast
  have swept: "(t, a, svc) \<notin> set (pm_live (sweep svcs p (dispose_all a outs s)))" for t svc svcs p
    using none sweep_live by blast
  have next_id: "pm_next (dispose_all a outs s) = pm_next s"
    using dispose_all_only [of s a outs] by (simp add: only_disposed_def)
  have "attempt_gone a (pm_step op s)"
    using assms(3) none swept att1 assms(2) pm_ok_attempt [OF ok assms(2)] next_id
    by (auto simp: attempt_gone_def fail_end_def deactivate_end_def Let_def attempt_aborted_def)
  then have "attempt_gone a (pm_run later (pm_step op s))"
    by (rule pm_run_gone)
  then show ?thesis
    by (simp add: attempt_gone_def)
qed

definition sample_active :: "pm_op list" where
  "sample_active = [Activate sample_source, Track 0 OtherS, Stage 0 ToolsS True, Returns 0 False True [True],
     Stage 0 PromptsS True, DeactivateBegin ''acme.x'']"

theorem closed_attempt_holds_nothing_witness:
  "list_all (\<lambda>(t, b, svc). b \<noteq> 0) (pm_live (pm_run [Activate sample_source, Track 0 ToolsS]
       (pm_step (DeactivateEnd 0 [True, True, True, True])
          (pm_run sample_active (new_plugin_manager ''0.1.5'' []))))) \<and>
   pm_live (pm_run sample_active (new_plugin_manager ''0.1.5'' [])) \<noteq> []"
proof
  let ?s = "pm_run sample_active (new_plugin_manager ''0.1.5'' [])"
  have e: "map_option (\<lambda>att. (at_phase att, length (at_disposables att))) (jget (pm_attempts ?s) 0) = Some (Closing, 4)"
    by code_simp
  then obtain att where "jget (pm_attempts ?s) 0 = Some att" "at_phase att = Closing" "length (at_disposables att) = 4"
    by auto
  then have "\<forall>(t, b, svc) \<in> set (pm_live (pm_run [Activate sample_source, Track 0 ToolsS]
       (pm_step (DeactivateEnd 0 [True, True, True, True]) ?s))). b \<noteq> 0"
    by (intro closed_attempt_holds_nothing [OF refl]) auto
  then show "list_all (\<lambda>(t, b, svc). b \<noteq> 0) (pm_live (pm_run [Activate sample_source, Track 0 ToolsS]
       (pm_step (DeactivateEnd 0 [True, True, True, True]) ?s)))"
    by (simp add: list_all_iff)
  show "pm_live ?s \<noteq> []"
    by code_simp
qed

text \<open>As long as an activation has not returned, nothing that it staged is in effect: a registration of the
  attempt that is in effect was made and tracked directly.\<close>

theorem staged_only_after_commit:
  assumes "s = pm_run ops (new_plugin_manager host stored)" and "(t, a, svc) \<in> set (pm_live s)"
    and "jget (pm_attempts s) a = Some att" and "at_phase att = Running"
  shows "Tracked t \<in> set (at_disposables att)"
proof -
  have ok: "pm_ok s"
    using pm_reachable_ok assms(1) by simp
  obtain d where d: "d \<in> set (at_disposables att)" "disposes_of att d t"
    using pm_ok_live [OF ok assms(2)] assms(3) by (auto simp: holds_registration_def)
  have "d = Tracked t"
    using d(2) pm_ok_attempt [OF ok assms(3)] assms(4) by (cases d) (auto simp: disposes_of_def attempt_ok_def)
  then show ?thesis
    using d(1) by simp
qed

theorem staged_only_after_commit_witness:
  "\<exists>att. jget (pm_attempts (pm_run [Activate sample_source, Stage 0 ToolsS True, Track 0 OtherS]
     (new_plugin_manager ''0.1.5'' []))) 0 = Some att \<and> Tracked 1 \<in> set (at_disposables att)"
proof -
  let ?s = "pm_run [Activate sample_source, Stage 0 ToolsS True, Track 0 OtherS] (new_plugin_manager ''0.1.5'' [])"
  have "map_option at_phase (jget (pm_attempts ?s) 0) = Some Running"
    by code_simp
  then obtain att where att: "jget (pm_attempts ?s) 0 = Some att" "at_phase att = Running"
    by auto
  have "(1, 0, OtherS) \<in> set (pm_live ?s)"
    by code_simp
  then show ?thesis
    using staged_only_after_commit [OF refl _ att] att(1) by blast
qed

text \<open>C28: While nobody disables a plugin that is activating or deactivating, nobody deactivates one twice at once,
  and \<open>activateAll\<close> is not run over a plugin that the stored document disables while it is activating, active or
  deactivating, at most one attempt of each plugin is open, the activation order lists exactly the active plugins,
  each once, and an active plugin has the status active or deactivating.\<close>

theorem serial_lifecycle:
  assumes "serial_run ops (new_plugin_manager host stored)"
    and "s = pm_run ops (new_plugin_manager host stored)"
  shows "distinct (pm_order s) \<and> (\<forall>p. p \<in> set (pm_order s) \<longleftrightarrow> is_active_plugin p s) \<and>
    (\<forall>p. is_active_plugin p s \<longrightarrow> status_of p s \<in> {Some Active, Some Deactivating}) \<and>
    (\<forall>a b x y. jget (pm_attempts s) a = Some x \<longrightarrow> jget (pm_attempts s) b = Some y \<longrightarrow>
       mf_id (at_manifest x) = mf_id (at_manifest y) \<longrightarrow> at_phase x \<noteq> Closed \<longrightarrow> at_phase y \<noteq> Closed \<longrightarrow> a = b)"
proof -
  have "pm_serial s"
    using pm_run_serial [OF _ assms(1)] assms(2) by simp
  note v = serial_unfold [OF this]
  have "status_of p s \<in> {Some Active, Some Deactivating}" if "is_active_plugin p s" for p
  proof -
    obtain a where a: "jget (pm_active s) p = Some a"
      using \<open>is_active_plugin p s\<close> by (auto simp: is_active_plugin_def)
    then show ?thesis
      using serial_view_active [OF v a] serial_view_fits [OF v] by (fastforce simp: statuses_def)
  qed
  moreover have "a = b" if "jget (pm_attempts s) a = Some x" "jget (pm_attempts s) b = Some y"
      "mf_id (at_manifest x) = mf_id (at_manifest y)" "at_phase x \<noteq> Closed" "at_phase y \<noteq> Closed" for a b x y
    using serial_view_only_open [OF v phases_some [OF that(1)] that(4)] phases_some [OF that(2)] that(3, 5) by metis
  ultimately show ?thesis
    using serial_view_order [OF v] by (auto simp: is_active_plugin_def)
qed

definition sample_serial :: "pm_op list" where
  "sample_serial = [Activate sample_source, Returns 0 False False [], EnabledWritten ''acme.x'' False [''acme.x''] None None,
     DeactivateEnd 0 [], EnabledWritten ''acme.x'' True [] (Some sample_source) None, Returns 1 False False []]"

theorem serial_lifecycle_witness:
  "distinct (pm_order (pm_run sample_serial (new_plugin_manager ''0.1.5'' []))) \<and>
   pm_order (pm_run sample_serial (new_plugin_manager ''0.1.5'' [])) = [''acme.x'']"
proof
  have "serial_run sample_serial (new_plugin_manager ''0.1.5'' [])"
    by code_simp
  then show "distinct (pm_order (pm_run sample_serial (new_plugin_manager ''0.1.5'' [])))"
    using serial_lifecycle [OF _ refl] by blast
  show "pm_order (pm_run sample_serial (new_plugin_manager ''0.1.5'' [])) = [''acme.x'']"
    by code_simp
qed

text \<open>C29: Disabling a plugin that is still activating and enabling it again starts a second activation beside the
  first. When both have returned and the plugin is deactivated, it counts as disabled and not active, yet what
  the first activation tracked is still in effect, its context is not aborted, and the activation order still
  lists the plugin.\<close>

theorem overlapping_activations_leak:
  fixes v m host
  assumes "parse_manifest v = Some m" and "mf_events m = None" and "satisfies_borg_engine (mf_engine m) host"
    and "p = mf_id m"
    and "s1 = pm_run [Activate v, Track 0 OtherS] (new_plugin_manager host [])"
    and "set_enabled_begin p False s1 = Inr ds1"
    and "s2 = pm_step (EnabledWritten p False ds1 (Some v) (Some (mf_version m))) s1"
    and "set_enabled_begin p True s2 = Inr ds2"
    and "s = pm_run [EnabledWritten p True ds2 (Some v) (Some (mf_version m)), Returns 0 False False [],
           Returns 2 False False [], DeactivateBegin p, DeactivateEnd 2 []] s2"
  shows "status_of p s = Some DisabledP \<and> \<not> is_active_plugin p s \<and> (1, 0, OtherS) \<in> set (pm_live s) \<and>
    map_option attempt_aborted (jget (pm_attempts s) 0) = Some False \<and> pm_order s = [p]"
proof -
  have start: "snd (activate_begin v t) =
      put_attempt (pm_next t) \<lparr>at_manifest = m, at_phase = Running, at_staged = [], at_disposables = []\<rparr>
        (set_status p (mf_version m) Activating
          (t\<lparr>pm_sources := jset p v (pm_sources t), pm_records := jdel p (pm_records t), pm_next := Suc (pm_next t)\<rparr>))"
    if "pm_host t = host" "status_of p t = None \<or> status_of p t = Some DisabledP" for t
    using activate_begin_plain [OF assms(1, 2), of t] that assms(3, 4) by simp
  let ?run = "\<lambda>ds. \<lparr>at_manifest = m, at_phase = Running, at_staged = [], at_disposables = ds\<rparr>"
  let ?rec = "\<lambda>st. \<lparr>pr_version = mf_version m, pr_status = st\<rparr>"
  let ?state = "\<lambda>st dis atts n. \<lparr>pm_host = host, pm_records = [(p, ?rec st)], pm_sources = [(p, v)], pm_locks = [],
     pm_disabled = dis, pm_stored = dis, pm_active = [], pm_order = [], pm_attempts = atts,
     pm_live = [(1, 0, OtherS)], pm_next = n\<rparr>"
  have s1: "s1 = ?state Activating [] [(0, ?run [Tracked 1])] 2"
    using start [of "new_plugin_manager host []"] unfolding assms(5)
    by (simp add: pm_run_def plugin_track_def attempt_aborted_def new_plugin_manager_def status_of_def
        put_attempt_def set_status_def)
  have ds1: "ds1 = [p]"
    using assms(6) by (simp add: s1 set_enabled_begin_def next_disabled_def)
  have s2: "s2 = ?state DisabledP [p] [(0, ?run [Tracked 1])] 2"
    unfolding assms(7) ds1 s1 by (simp add: set_enabled_written_state Let_def set_status_def)
  have ds2: "ds2 = []"
    using assms(8) by (simp add: s2 set_enabled_begin_def next_disabled_def)
  let ?late = "\<lambda>st act ord ph0 ph2. \<lparr>pm_host = host, pm_records = [(p, ?rec st)], pm_sources = [(p, v)],
     pm_locks = [], pm_disabled = [], pm_stored = [], pm_active = act, pm_order = ord,
     pm_attempts = [(0, (?run [Tracked 1])\<lparr>at_phase := ph0\<rparr>), (2, (?run [])\<lparr>at_phase := ph2\<rparr>)],
     pm_live = [(1, 0, OtherS)], pm_next = 3\<rparr>"
  have s3: "pm_step (EnabledWritten p True ds2 (Some v) (Some (mf_version m))) s2 = ?late Activating [] [] Running Running"
    using start [of "s2\<lparr>pm_stored := [], pm_disabled := []\<rparr>"] unfolding ds2
    by (simp add: s2 set_enabled_written_state Let_def set_status_def put_attempt_def status_of_def)
  have s4: "pm_step (Returns 0 False False []) (?late Activating [] [] Running Running) =
      ?late Active [(p, 0)] [p] Committed Running"
    using assms(4) by (simp add: activate_returned_def Let_def set_status_def put_attempt_def)
  have s5: "pm_step (Returns 2 False False []) (?late Active [(p, 0)] [p] Committed Running) =
      ?late Active [(p, 2)] [p, p] Committed Committed"
    using assms(4) by (simp add: activate_returned_def Let_def set_status_def put_attempt_def)
  have s6: "pm_step (DeactivateBegin p) (?late Active [(p, 2)] [p, p] Committed Committed) =
      ?late Deactivating [(p, 2)] [p, p] Committed Closing"
    by (simp add: deactivate_begin_def set_status_def put_attempt_def sweep_def jfilter_def DEACTIVATE_SWEEP_def)
  have s7: "pm_step (DeactivateEnd 2 []) (?late Deactivating [(p, 2)] [p, p] Committed Closing) =
      ?late DisabledP [] [p] Committed Closed"
    using assms(4) by (simp add: deactivate_end_def dispose_all_def set_status_def put_attempt_def remove_last_def Let_def)
  have "s = ?late DisabledP [] [p] Committed Closed"
    unfolding assms(9) pm_run_def fold_simps comp_apply id_apply s3 s4 s5 s6 s7 by (rule refl)
  then show ?thesis
    by (simp add: status_of_def is_active_plugin_def attempt_aborted_def)
qed

theorem overlapping_activations_leak_witness:
  "\<exists>s. status_of ''acme.x'' s = Some DisabledP \<and> \<not> is_active_plugin ''acme.x'' s \<and> (1, 0, OtherS) \<in> set (pm_live s)"
proof -
  let ?s1 = "pm_run [Activate sample_source, Track 0 OtherS] (new_plugin_manager ''0.1.5'' [])"
  let ?s2 = "pm_step (EnabledWritten ''acme.x'' False [''acme.x''] (Some sample_source) (Some (mf_version sample_manifest))) ?s1"
  have d1: "set_enabled_begin ''acme.x'' False ?s1 = Inr [''acme.x'']"
    by code_simp
  have d2: "set_enabled_begin ''acme.x'' True ?s2 = Inr []"
    by code_simp
  have m: "mf_events sample_manifest = None" "satisfies_borg_engine (mf_engine sample_manifest) ''0.1.5''"
      "''acme.x'' = mf_id sample_manifest"
    using sample_engine by (simp_all add: sample_manifest_def)
  show ?thesis
    using overlapping_activations_leak [OF parse_sample m refl d1 refl d2 refl] by blast
qed

section \<open>Concurrent changes of the stored document\<close>


























end
