(* ===== verification/File_System.thy ===== *)
theory File_System
  imports Prelude
begin

text \<open>
  What the workspace service uses of \<open>node:fs\<close> and \<open>node:path\<close> on a POSIX system. A file system maps
  the real path of every entry (its components from the root, which is the empty path) to the entry;
  symbolic links are followed by \<open>resolve\<close> as the system does, with a limit on their number, which
  the definitions take as an argument. File contents are bytes, and the size of a file is the number
  of them.
\<close>

type_synonym fs_path = "string list"

datatype fs_entry = FileE string | DirE | LinkE bool fs_path | OtherE

type_synonym fsys = "(fs_path, fs_entry) jmap"

datatype errno = ENOENT | ENOTDIR | ELOOP | EEXIST

section \<open>Paths\<close>

text \<open>\<open>path.join\<close> of an absolute path and a string: normalised without looking at the file system.\<close>

fun norm_comps :: "fs_path \<Rightarrow> string list \<Rightarrow> fs_path" where
  "norm_comps done [] = done"
| "norm_comps done (c # cs) =
     (if c = [] \<or> c = ''.'' then norm_comps done cs
      else if c = ''..'' then norm_comps (butlast done) cs
      else norm_comps (done @ [c]) cs)"

definition path_join :: "fs_path \<Rightarrow> string \<Rightarrow> fs_path" where
  "path_join p s = norm_comps p (js_split (CHR ''/'') s)"

definition path_is_absolute :: "string \<Rightarrow> bool" where
  "path_is_absolute s = js_starts_with ''/'' s"

text \<open>\<open>path.relative\<close> of two normalised absolute paths.\<close>

fun relative_comps :: "fs_path \<Rightarrow> fs_path \<Rightarrow> string list" where
  "relative_comps (x # xs) (y # ys) =
     (if x = y then relative_comps xs ys else replicate (Suc (length xs)) ''..'' @ y # ys)"
| "relative_comps xs ys = replicate (length xs) ''..'' @ ys"

definition path_relative :: "fs_path \<Rightarrow> fs_path \<Rightarrow> string" where
  "path_relative p q = js_join ''/'' (relative_comps p q)"

text \<open>\<open>path.basename\<close>: trailing slashes do not count.\<close>

definition path_basename :: "string \<Rightarrow> string" where
  "path_basename s = (case filter (\<lambda>c. c \<noteq> []) (js_split (CHR ''/'') s) of [] \<Rightarrow> [] | cs \<Rightarrow> last cs)"

text \<open>
  The name and the extension of \<open>path.parse\<close> of a base name: an extension starts at the last dot,
  unless this is the first character or the name is two dots.
\<close>

definition path_ext :: "string \<Rightarrow> string" where
  "path_ext b =
     (let tail_part = takeWhile (\<lambda>c. c \<noteq> CHR ''.'') (rev b)
      in if Suc (length tail_part) \<ge> length b \<or> b = ''..'' then []
         else CHR ''.'' # rev tail_part)"

definition path_stem :: "string \<Rightarrow> string" where
  "path_stem b = take (length b - length (path_ext b)) b"

section \<open>Looking up\<close>

definition entry_at :: "fsys \<Rightarrow> fs_path \<Rightarrow> fs_entry option" where
  "entry_at fs p = (if p = [] then Some DirE else jget fs p)"

text \<open>
  The real path of \<open>todo\<close> read from the directory \<open>done\<close>; \<open>n\<close> is how many links may still be followed.
\<close>

fun resolve :: "nat \<Rightarrow> fsys \<Rightarrow> fs_path \<Rightarrow> string list \<Rightarrow> errno + fs_path" where
  "resolve n fs done [] = Inr done"
| "resolve n fs done (c # cs) =
     (if c = [] \<or> c = ''.'' then resolve n fs done cs
      else if c = ''..'' then resolve n fs (butlast done) cs
      else
        (case entry_at fs (done @ [c]) of
           None \<Rightarrow> Inl ENOENT
         | Some DirE \<Rightarrow> resolve n fs (done @ [c]) cs
         | Some (LinkE absolute target) \<Rightarrow>
             (case n of 0 \<Rightarrow> Inl ELOOP
              | Suc m \<Rightarrow> resolve m fs (if absolute then [] else done) (target @ cs))
         | Some _ \<Rightarrow> if cs = [] then Inr (done @ [c]) else Inl ENOTDIR))"

definition realpath :: "nat \<Rightarrow> fsys \<Rightarrow> fs_path \<Rightarrow> errno + fs_path" where
  "realpath n fs p = resolve n fs [] p"

text \<open>\<open>stat\<close> of a parent directory, and \<open>lstat\<close>, which does not follow a link in the last component.\<close>

definition real_dir :: "nat \<Rightarrow> fsys \<Rightarrow> fs_path \<Rightarrow> errno + fs_path" where
  "real_dir n fs p =
     rbind (realpath n fs p) (\<lambda>d. if entry_at fs d = Some DirE then Inr d else Inl ENOTDIR)"

definition lstat :: "nat \<Rightarrow> fsys \<Rightarrow> fs_path \<Rightarrow> errno + fs_entry" where
  "lstat n fs p =
     (if p = [] \<or> last p \<in> {[], ''.'', ''..''} then
        rbind (realpath n fs p) (\<lambda>d. case entry_at fs d of None \<Rightarrow> Inl ENOENT | Some e \<Rightarrow> Inr e)
      else
        rbind (real_dir n fs (butlast p)) (\<lambda>d.
          case entry_at fs (d @ [last p]) of None \<Rightarrow> Inl ENOENT | Some e \<Rightarrow> Inr e))"

definition children :: "fsys \<Rightarrow> fs_path \<Rightarrow> string list" where
  "children fs d = map (\<lambda>(p, _). last p) (filter (\<lambda>(p, _). p \<noteq> [] \<and> butlast p = d) fs)"

section \<open>Changing\<close>

definition mkdir :: "nat \<Rightarrow> fsys \<Rightarrow> fs_path \<Rightarrow> errno + fsys" where
  "mkdir n fs p =
     (if p = [] then Inl EEXIST
      else rbind (real_dir n fs (butlast p)) (\<lambda>d.
        if entry_at fs (d @ [last p]) \<noteq> None then Inl EEXIST else Inr (fs @ [(d @ [last p], DirE)])))"

text \<open>\<open>mkdir\<close> with \<open>recursive\<close>: one prefix after the other.\<close>

fun mkdirs_from :: "nat \<Rightarrow> fsys \<Rightarrow> fs_path \<Rightarrow> string list \<Rightarrow> errno + fsys" where
  "mkdirs_from n fs done [] = Inr fs"
| "mkdirs_from n fs done (c # cs) =
     (case real_dir n fs (done @ [c]) of
        Inr _ \<Rightarrow> mkdirs_from n fs (done @ [c]) cs
      | Inl ENOENT \<Rightarrow>
          (case mkdir n fs (done @ [c]) of Inl e \<Rightarrow> Inl e | Inr fs' \<Rightarrow> mkdirs_from n fs' (done @ [c]) cs)
      | Inl e \<Rightarrow> Inl e)"

definition mkdirs :: "nat \<Rightarrow> fsys \<Rightarrow> fs_path \<Rightarrow> errno + fsys" where
  "mkdirs n fs p = mkdirs_from n fs [] p"

text \<open>\<open>copyFile\<close> with \<open>COPYFILE_EXCL\<close>.\<close>

definition copy_file_excl :: "nat \<Rightarrow> fsys \<Rightarrow> string \<Rightarrow> fs_path \<Rightarrow> errno + fsys" where
  "copy_file_excl n fs content p =
     (if p = [] then Inl EEXIST
      else rbind (real_dir n fs (butlast p)) (\<lambda>d.
        if entry_at fs (d @ [last p]) \<noteq> None then Inl EEXIST else Inr (fs @ [(d @ [last p], FileE content)])))"

definition rm_recursive :: "fsys \<Rightarrow> fs_path \<Rightarrow> fsys" where
  "rm_recursive fs p = jfilter (\<lambda>q _. take (length p) q \<noteq> p) fs"

section \<open>Well-formed file systems\<close>

definition comp_ok :: "string \<Rightarrow> bool" where
  "comp_ok c \<longleftrightarrow> c \<noteq> [] \<and> c \<noteq> ''.'' \<and> c \<noteq> ''..'' \<and> CHR ''/'' \<notin> set c"

definition fs_ok :: "fsys \<Rightarrow> bool" where
  "fs_ok fs \<longleftrightarrow>
     jkeys_distinct fs \<and>
     (\<forall>(p, e) \<in> set fs. p \<noteq> [] \<and> list_all comp_ok p \<and> entry_at fs (butlast p) = Some DirE)"

section \<open>The relative path tells containment\<close>

lemma relative_comps_prefix [simp]: "relative_comps p (p @ r) = r"
  by (induction p) (cases r; simp)+

lemma relative_comps_outside:
  assumes "\<And>r. q \<noteq> p @ r"
  obtains k r where "relative_comps p q = replicate (Suc k) ''..'' @ r"
proof -
  have "\<exists>k r. relative_comps p q = replicate (Suc k) ''..'' @ r"
    using assms
  proof (induction p arbitrary: q)
    case (Cons x xs)
    show ?case
    proof (cases q)
      case Nil
      then show ?thesis by (auto intro!: exI [of _ "length xs"])
    next
      case q: (Cons y ys)
      show ?thesis
        using Cons.IH [of ys] Cons.prems unfolding q by (cases "x = y") (auto intro: exI [of _ "length xs"])
    qed
  next
    case Nil
    then show ?case using Nil [of q] by simp
  qed
  then show thesis using that by blast
qed

lemma js_join_Cons: "ws \<noteq> [] \<Longrightarrow> js_join sep (w # ws) = w @ sep @ js_join sep ws"
  by (cases ws) auto

definition climbs :: "string \<Rightarrow> bool" where
  "climbs r \<longleftrightarrow> r = [] \<or> r = ''..'' \<or> js_starts_with ''../'' r \<or> path_is_absolute r"

lemma climbs_dots: "climbs (js_join ''/'' (''..'' # ws))"
  by (cases ws) (auto simp: climbs_def js_join_Cons js_starts_with_iff)

lemma comp_ok_no_climb:
  assumes "comp_ok c"
  shows "\<not> climbs (js_join ''/'' (c # ws))"
proof (cases "ws = []")
  case True
  then show ?thesis
    using assms by (auto simp: climbs_def comp_ok_def js_starts_with_iff path_is_absolute_def)
next
  case False
  have "c @ ''/'' @ x \<noteq> ''../'' @ y" for x y
    using sep_cancel [of "CHR ''/''" c "''..''" x y] assms by (auto simp: comp_ok_def)
  moreover have "c @ ''/'' @ x \<noteq> ''/'' @ y" for x y
    using assms by (cases c) (auto simp: comp_ok_def)
  moreover have "c @ ''/'' @ x \<noteq> ''..''" for x
    using assms by (auto simp: comp_ok_def append_eq_Cons_conv)
  ultimately show ?thesis
    using False by (auto simp: climbs_def js_join_Cons js_starts_with_iff path_is_absolute_def)
qed

lemma relative_climbs_iff:
  assumes "list_all comp_ok q"
  shows "climbs (path_relative p q) \<longleftrightarrow> \<not> (\<exists>r. r \<noteq> [] \<and> q = p @ r)"
proof (cases "\<exists>r. q = p @ r")
  case True
  then obtain r where r: "q = p @ r" by blast
  show ?thesis
  proof (cases r)
    case Nil
    then show ?thesis using r relative_comps_prefix [of p "[]"] by (simp add: path_relative_def climbs_def)
  next
    case (Cons c cs)
    then show ?thesis using r assms comp_ok_no_climb [of c cs] by (simp add: path_relative_def)
  qed
next
  case False
  then obtain k r where "relative_comps p q = replicate (Suc k) ''..'' @ r"
    using relative_comps_outside by metis
  then show ?thesis
    using False climbs_dots [of "replicate k ''..'' @ r"] by (auto simp: path_relative_def)
qed

section \<open>Real paths\<close>

lemma entry_at_Nil [simp]: "entry_at fs [] = Some DirE"
  by (simp add: entry_at_def)

lemma fs_ok_entry:
  assumes "fs_ok fs" and "entry_at fs p = Some e" and "p \<noteq> []"
  shows "entry_at fs (butlast p) = Some DirE" and "list_all comp_ok p"
proof -
  have "(p, e) \<in> set fs"
    using assms(2, 3) by (simp add: entry_at_def map_of_SomeD)
  then show "entry_at fs (butlast p) = Some DirE" "list_all comp_ok p"
    using assms(1) by (auto simp: fs_ok_def)
qed

lemma fs_ok_comps: "fs_ok fs \<Longrightarrow> entry_at fs p = Some e \<Longrightarrow> list_all comp_ok p"
  using fs_ok_entry(2) by (cases "p = []") auto

lemma ancestor_dir:
  assumes "fs_ok fs" and "entry_at fs (p @ q) = Some e" and "q \<noteq> []"
  shows "entry_at fs p = Some DirE"
  using assms(2, 3)
proof (induction q arbitrary: e rule: rev_induct)
  case (snoc c q)
  have "entry_at fs (p @ q) = Some DirE"
    using fs_ok_entry(1) [OF assms(1) snoc.prems(1)] by (simp add: butlast_append)
  then show ?case
    using snoc.IH by (cases "q = []") auto
qed simp

lemma resolve_entry:
  assumes "fs_ok fs" and "entry_at fs done = Some DirE" and "resolve n fs done cs = Inr d"
  obtains e where "entry_at fs d = Some e" "\<And>a t. e \<noteq> LinkE a t"
proof -
  have "\<exists>e. entry_at fs d = Some e \<and> (\<forall>a t. e \<noteq> LinkE a t)"
    using assms
  proof (induction n fs "done" cs rule: resolve.induct)
    case (2 n fs "done" c cs)
    have "entry_at fs (butlast done) = Some DirE"
      using fs_ok_entry(1) [OF 2(5, 6)] 2(6) by (cases "done = []") auto
    then show ?case
      using 2 by (auto split: if_splits option.splits fs_entry.splits nat.splits)
  qed auto
  then show thesis using that by blast
qed

lemma resolve_real:
  assumes "fs_ok fs" and "entry_at fs (done @ cs) = Some e" and "\<And>a t. e \<noteq> LinkE a t"
  shows "resolve n fs done cs = Inr (done @ cs)"
  using assms(2)
proof (induction cs arbitrary: "done")
  case (Cons c cs)
  have c: "comp_ok c"
    using fs_ok_comps [OF assms(1) Cons.prems] by simp
  show ?case
  proof (cases "cs = []")
    case True
    then show ?thesis
      using c Cons.prems assms(3) by (cases e) (auto simp: comp_ok_def)
  next
    case False
    then have "entry_at fs (done @ [c]) = Some DirE"
      using ancestor_dir [OF assms(1), of "done @ [c]" cs e] Cons.prems by simp
    then show ?thesis
      using c Cons by (simp add: comp_ok_def)
  qed
qed simp

lemma realpath_entry:
  assumes "fs_ok fs" and "realpath n fs p = Inr d"
  obtains e where "entry_at fs d = Some e" "\<And>a t. e \<noteq> LinkE a t"
  using resolve_entry [OF assms(1) entry_at_Nil] assms(2) unfolding realpath_def by metis

lemma realpath_real: "fs_ok fs \<Longrightarrow> entry_at fs d = Some e \<Longrightarrow> (\<And>a t. e \<noteq> LinkE a t) \<Longrightarrow> realpath n fs d = Inr d"
  unfolding realpath_def using resolve_real [of fs "[]" d e] by simp

lemma real_dir_real: "fs_ok fs \<Longrightarrow> entry_at fs d = Some DirE \<Longrightarrow> real_dir n fs d = Inr d"
  by (simp add: real_dir_def realpath_real)

lemma lstat_in_dir:
  assumes "fs_ok fs" and "entry_at fs d = Some DirE" and "comp_ok c"
  shows "lstat n fs (d @ [c]) = (case entry_at fs (d @ [c]) of None \<Rightarrow> Inl ENOENT | Some e \<Rightarrow> Inr e)"
  using assms(3) by (simp add: lstat_def real_dir_real [OF assms(1, 2)] comp_ok_def)

lemma lstat_dir:
  assumes "fs_ok fs" and "entry_at fs d = Some DirE"
  shows "lstat n fs d = Inr DirE"
proof (cases d rule: rev_cases)
  case Nil
  then show ?thesis by (simp add: lstat_def realpath_def)
next
  case (snoc d' c)
  then show ?thesis
    using lstat_in_dir [OF assms(1), of d' c] fs_ok_entry [OF assms] assms(2) by simp
qed

section \<open>Growing\<close>

lemma entry_at_append: "entry_at (fs @ gs) p = (case entry_at fs p of None \<Rightarrow> entry_at gs p | Some e \<Rightarrow> Some e)"
  by (simp add: entry_at_def map_of_append map_add_def split: option.split)

lemma fs_ok_add:
  assumes "fs_ok fs" and "entry_at fs d = Some DirE" and "comp_ok c" and "entry_at fs (d @ [c]) = None"
  shows "fs_ok (fs @ [(d @ [c], e)])"
proof -
  have "d @ [c] \<notin> fst ` set fs"
    using assms(4) by (simp add: entry_at_def map_of_eq_None_iff)
  moreover have "list_all comp_ok (d @ [c])"
    using fs_ok_comps [OF assms(1, 2)] assms(3) by simp
  ultimately show ?thesis
    using assms(1, 2) unfolding fs_ok_def by (auto simp: entry_at_append)
qed

lemma mkdir_in_dir:
  assumes "fs_ok fs" and "entry_at fs d = Some DirE" and "entry_at fs (d @ [c]) = None"
  shows "mkdir n fs (d @ [c]) = Inr (fs @ [(d @ [c], DirE)])"
  using assms by (simp add: mkdir_def real_dir_real)

lemma copy_file_in_dir:
  assumes "fs_ok fs" and "entry_at fs d = Some DirE" and "entry_at fs (d @ [c]) = None"
  shows "copy_file_excl n fs content (d @ [c]) = Inr (fs @ [(d @ [c], FileE content)])"
  using assms by (simp add: copy_file_excl_def real_dir_real)

lemma path_join_plain: "CHR ''/'' \<notin> set c \<Longrightarrow> path_join d c = (if c = [] \<or> c = ''.'' then d else if c = ''..'' then butlast d else d @ [c])"
  by (simp add: path_join_def js_split_free)

lemma path_join_ok: "comp_ok c \<Longrightarrow> path_join d c = d @ [c]"
  by (simp add: path_join_plain comp_ok_def)

end
