(* ===== verification/Workspace.thy ===== *)
theory Workspace
  imports File_System Distribution
begin

text \<open>
  The workspaces of sessions (\<open>WorkspaceService\<close> in \<open>packages/kernel/src/workspace-service.ts\<close>): allocation
  of a directory per plugin and session, listing, reading and importing files. Each call is one step:
  what other processes do to the file system between two awaits of a call is not modelled. The test
  for a UUID is a parameter. Modification times are left out, and the contents of a preview are the
  bytes before they are encoded.
\<close>

definition TEXT_PREVIEW_LIMIT :: nat where "TEXT_PREVIEW_LIMIT = 1048576"
definition IMAGE_PREVIEW_LIMIT :: nat where "IMAGE_PREVIEW_LIMIT = 8388608"
definition IMPORT_FILE_LIMIT :: nat where "IMPORT_FILE_LIMIT = 33554432"
definition IMPORT_BATCH_FILES :: nat where "IMPORT_BATCH_FILES = 50"
definition IMPORT_BATCH_BYTES :: nat where "IMPORT_BATCH_BYTES = 134217728"
definition IMPORT_MAX_DEPTH :: nat where "IMPORT_MAX_DEPTH = 8"
definition UNIQUE_NAME_LIMIT :: nat where "UNIQUE_NAME_LIMIT = 10000"
definition SNIFF_BYTES :: nat where "SNIFF_BYTES = 512"
definition LIST_LIMIT :: nat where "LIST_LIMIT = 1000"

definition IMAGE_MIME_TYPES :: "(string, string) jmap" where
  "IMAGE_MIME_TYPES =
     [(''.png'', ''image/png''), (''.jpg'', ''image/jpeg''), (''.jpeg'', ''image/jpeg''), (''.gif'', ''image/gif''),
      (''.webp'', ''image/webp''), (''.svg'', ''image/svg+xml''), (''.bmp'', ''image/bmp''), (''.ico'', ''image/x-icon'')]"

definition TEXT_EXTENSIONS :: "string list" where
  "TEXT_EXTENSIONS =
     [''.txt'', ''.md'', ''.markdown'', ''.mdx'', ''.json'', ''.jsonc'', ''.json5'', ''.ts'', ''.tsx'', ''.js'', ''.jsx'',
      ''.mjs'', ''.cjs'', ''.cts'', ''.mts'', ''.css'', ''.scss'', ''.sass'', ''.less'', ''.html'', ''.htm'', ''.xml'',
      ''.yml'', ''.yaml'', ''.toml'', ''.ini'', ''.cfg'', ''.conf'', ''.env'', ''.csv'', ''.tsv'', ''.py'', ''.pyi'',
      ''.rb'', ''.go'', ''.rs'', ''.java'', ''.kt'', ''.kts'', ''.c'', ''.h'', ''.cpp'', ''.cc'', ''.cxx'', ''.hpp'',
      ''.hh'', ''.cs'', ''.swift'', ''.php'', ''.sql'', ''.sh'', ''.bash'', ''.zsh'', ''.fish'', ''.ps1'', ''.lua'', ''.r'',
      ''.pl'', ''.graphql'', ''.gql'', ''.proto'', ''.vue'', ''.svelte'', ''.astro'', ''.lock'', ''.log'', ''.rst'', ''.tex'']"

record workspace_handle =
  wh_owner :: string
  wh_session :: string
  wh_root :: fs_path

record workspaces =
  ws_root :: fs_path
  ws_phys :: fs_path
  ws_handles :: "(string, workspace_handle) jmap"
  ws_fs :: fsys

datatype ws_error =
    OwnerInvalid
  | SessionInvalid
  | RootInvalid
  | WorkspaceUnavailable
  | OutsideRoot
  | PathInvalid
  | PathIsLink
  | NotRegular
  | DestinationInvalid
  | NoUniqueName
  | FsError errno

definition fs_res :: "errno + 'a \<Rightarrow> ws_error + 'a" where
  "fs_res r = (case r of Inl e \<Rightarrow> Inl (FsError e) | Inr x \<Rightarrow> Inr x)"

definition new_workspaces :: "nat \<Rightarrow> fsys \<Rightarrow> fs_path \<Rightarrow> errno + workspaces" where
  "new_workspaces n fs root_dir =
     rbind (mkdirs n fs root_dir) (\<lambda>fs'. rbind (realpath n fs' root_dir) (\<lambda>phys.
       Inr \<lparr>ws_root = root_dir, ws_phys = phys, ws_handles = [], ws_fs = fs'\<rparr>))"

text \<open>\<open>assertContained\<close> looks at the text of the relative path.\<close>

definition contained_test :: "fs_path \<Rightarrow> fs_path \<Rightarrow> bool" where
  "contained_test root_dir candidate =
     (let r = path_relative root_dir candidate
      in \<not> (r = [] \<or> r = ''..'' \<or> js_starts_with ''../'' r \<or> path_is_absolute r))"

definition assert_contained :: "fs_path \<Rightarrow> fs_path \<Rightarrow> ws_error + unit" where
  "assert_contained root_dir candidate = guard_r (contained_test root_dir candidate) OutsideRoot"

section \<open>Handles\<close>

definition handle_key :: "string \<Rightarrow> string \<Rightarrow> string" where
  "handle_key owner session = owner @ '':'' @ session"

definition get_handle :: "(string \<Rightarrow> bool) \<Rightarrow> string \<Rightarrow> string \<Rightarrow> workspaces \<Rightarrow> ws_error + workspace_handle option" where
  "get_handle is_uuid owner session w =
     (if is_uuid session then Inr (jget (ws_handles w) (handle_key owner session)) else Inl SessionInvalid)"

definition require_handle :: "(string \<Rightarrow> bool) \<Rightarrow> string \<Rightarrow> string \<Rightarrow> workspaces \<Rightarrow> ws_error + workspace_handle" where
  "require_handle is_uuid owner session w =
     rbind (get_handle is_uuid owner session w) (\<lambda>h. case h of None \<Rightarrow> Inl WorkspaceUnavailable | Some x \<Rightarrow> Inr x)"

text \<open>The steps of \<open>allocate\<close>: the owner's directory, the directory of the session, the handle.\<close>

definition owner_directory :: "nat \<Rightarrow> string \<Rightarrow> workspaces \<Rightarrow> ws_error + fs_path \<times> workspaces" where
  "owner_directory n owner w =
     rbind (fs_res (mkdirs n (ws_fs w) (path_join (ws_root w) owner))) (\<lambda>fs1.
       rbind (fs_res (realpath n fs1 (path_join (ws_root w) owner))) (\<lambda>phys.
         Inr (phys, w\<lparr>ws_fs := fs1\<rparr>)))"

definition session_directory :: "nat \<Rightarrow> fs_path \<Rightarrow> fsys \<Rightarrow> ws_error + fsys" where
  "session_directory n p fs =
     (case lstat n fs p of
        Inr DirE \<Rightarrow> Inr fs
      | Inr _ \<Rightarrow> Inl RootInvalid
      | Inl ENOENT \<Rightarrow> fs_res (mkdir n fs p)
      | Inl e \<Rightarrow> Inl (FsError e))"

definition allocate_ws ::
  "(string \<Rightarrow> bool) \<Rightarrow> nat \<Rightarrow> string \<Rightarrow> string \<Rightarrow> workspaces \<Rightarrow> (ws_error + workspace_handle) \<times> workspaces" where
  "allocate_ws is_uuid n owner session w =
     (if \<not> rx_match plugin_id_pattern owner then (Inl OwnerInvalid, w)
      else if \<not> is_uuid session then (Inl SessionInvalid, w)
      else
        (case jget (ws_handles w) (handle_key owner session) of
           Some h \<Rightarrow> (Inr h, w)
         | None \<Rightarrow>
             (case owner_directory n owner w of
                Inl e \<Rightarrow> (Inl e, w)
              | Inr (phys_owner, w1) \<Rightarrow>
                  let requested = path_join (path_join (ws_root w) owner) session in
                  (case rbind (assert_contained (ws_phys w) phys_owner) (\<lambda>_. session_directory n requested (ws_fs w1)) of
                     Inl e \<Rightarrow> (Inl e, w1)
                   | Inr fs2 \<Rightarrow>
                       let w2 = w1\<lparr>ws_fs := fs2\<rparr> in
                       (case rbind (fs_res (realpath n fs2 requested))
                               (\<lambda>r. rbind (assert_contained phys_owner r) (\<lambda>_. Inr r)) of
                          Inl e \<Rightarrow> (Inl e, w2)
                        | Inr r \<Rightarrow>
                            let h = \<lparr>wh_owner = owner, wh_session = session, wh_root = r\<rparr> in
                            (Inr h, w2\<lparr>ws_handles := jset (handle_key owner session) h (ws_handles w2)\<rparr>))))))"

definition release_ws ::
  "(string \<Rightarrow> bool) \<Rightarrow> string \<Rightarrow> string \<Rightarrow> workspaces \<Rightarrow> (ws_error + unit) \<times> workspaces" where
  "release_ws is_uuid owner session w =
     (case get_handle is_uuid owner session w of
        Inl e \<Rightarrow> (Inl e, w)
      | Inr None \<Rightarrow> (Inr (), w)
      | Inr (Some h) \<Rightarrow>
          (Inr (), w\<lparr>ws_handles := jdel (handle_key owner session) (ws_handles w),
                     ws_fs := rm_recursive (ws_fs w) (wh_root h)\<rparr>))"

section \<open>Relative paths and containment\<close>

definition posix_relative_path :: "string \<Rightarrow> ws_error + string" where
  "posix_relative_path s =
     (if s = [] \<or> List.member s (CHR 0x00) \<or> List.member s (CHR 0x5C) \<or> path_is_absolute s then Inl PathInvalid
      else
        let segments = js_split (CHR ''/'') s in
        if list_ex (\<lambda>g. g = [] \<or> g = ''.'' \<or> g = ''..'') segments then Inl PathInvalid
        else Inr (js_join ''/'' segments))"

definition join_relative :: "fs_path \<Rightarrow> string \<Rightarrow> fs_path" where
  "join_relative root_dir p = fold (\<lambda>g d. path_join d g) (js_split (CHR ''/'') p) root_dir"

definition resolve_contained_file :: "nat \<Rightarrow> fsys \<Rightarrow> fs_path \<Rightarrow> string \<Rightarrow> ws_error + fs_path" where
  "resolve_contained_file n fs root_dir p =
     rbind (fs_res (lstat n fs (join_relative root_dir p))) (\<lambda>e.
       case e of
         LinkE _ _ \<Rightarrow> Inl PathIsLink
       | FileE _ \<Rightarrow>
           rbind (fs_res (realpath n fs (join_relative root_dir p))) (\<lambda>r.
             rbind (assert_contained root_dir r) (\<lambda>_. Inr r))
       | _ \<Rightarrow> Inl NotRegular)"

definition resolve_native_path ::
  "(string \<Rightarrow> bool) \<Rightarrow> nat \<Rightarrow> string \<Rightarrow> string \<Rightarrow> string \<Rightarrow> workspaces \<Rightarrow> ws_error + fs_path" where
  "resolve_native_path is_uuid n owner session p w =
     rbind (require_handle is_uuid owner session w) (\<lambda>h.
     rbind (posix_relative_path p) (\<lambda>q.
     rbind (fs_res (lstat n (ws_fs w) (join_relative (wh_root h) q))) (\<lambda>e.
       case e of
         LinkE _ _ \<Rightarrow> Inl PathIsLink
       | _ \<Rightarrow>
           rbind (fs_res (realpath n (ws_fs w) (join_relative (wh_root h) q))) (\<lambda>r.
             rbind (assert_contained (wh_root h) r) (\<lambda>_. Inr r)))))"

fun ensure_contained_directory :: "nat \<Rightarrow> fs_path \<Rightarrow> fs_path \<Rightarrow> string list \<Rightarrow> fsys \<Rightarrow> (ws_error + fs_path) \<times> fsys" where
  "ensure_contained_directory n root_dir current [] fs = (Inr current, fs)"
| "ensure_contained_directory n root_dir current (g # gs) fs =
     (let next_dir = path_join current g in
      case (case lstat n fs next_dir of
              Inr e \<Rightarrow> Inr (e, fs)
            | Inl ENOENT \<Rightarrow>
                rbind (mkdir n fs next_dir) (\<lambda>fs1. rbind (lstat n fs1 next_dir) (\<lambda>e. Inr (e, fs1)))
            | Inl e \<Rightarrow> Inl e) of
        Inl e \<Rightarrow> (Inl (FsError e), fs)
      | Inr (e, fs1) \<Rightarrow>
          if e \<noteq> DirE then (Inl DestinationInvalid, fs1)
          else
            (case rbind (fs_res (realpath n fs1 next_dir)) (\<lambda>r. rbind (assert_contained root_dir r) (\<lambda>_. Inr r)) of
               Inl er \<Rightarrow> (Inl er, fs1)
             | Inr r \<Rightarrow> ensure_contained_directory n root_dir r gs fs1))"

section \<open>Listing and reading\<close>

text \<open>
  A listed file: its relative path and its size. \<open>visit_dir\<close> recurses into directories that are not
  links; \<open>fuel\<close> bounds the depth. \<open>le\<close> is \<open>localeCompare\<close> read as "not after".
\<close>

type_synonym ws_file = "string \<times> nat"

fun visit_dir ::
  "nat \<Rightarrow> (string \<Rightarrow> string \<Rightarrow> bool) \<Rightarrow> fsys \<Rightarrow> fs_path \<Rightarrow> fs_path \<Rightarrow> ws_file list \<Rightarrow> ws_file list option" where
  "visit_dir 0 le fs root_dir d files = None"
| "visit_dir (Suc fuel) le fs root_dir d files =
     fold (\<lambda>c acc.
        case acc of
          None \<Rightarrow> None
        | Some fl \<Rightarrow>
            if LIST_LIMIT \<le> length fl then Some fl
            else
              (case entry_at fs (d @ [c]) of
                 Some DirE \<Rightarrow> visit_dir fuel le fs root_dir (d @ [c]) fl
               | Some (FileE content) \<Rightarrow> Some (fl @ [(path_relative root_dir (d @ [c]), length content)])
               | _ \<Rightarrow> Some fl))
       (sort_by le (children fs d)) (Some files)"

text \<open>
  \<open>readdir\<close> of the root follows links, so \<open>visit\<close> starts in the directory that the root denotes; below it, a
  name relative to the root is the name relative to that directory.
\<close>

definition list_files ::
  "(string \<Rightarrow> bool) \<Rightarrow> (string \<Rightarrow> string \<Rightarrow> bool) \<Rightarrow> nat \<Rightarrow> nat \<Rightarrow> string \<Rightarrow> string \<Rightarrow> workspaces
    \<Rightarrow> (ws_error + ws_file list) option" where
  "list_files is_uuid le n fuel owner session w =
     (case require_handle is_uuid owner session w of
        Inl e \<Rightarrow> Some (Inl e)
      | Inr h \<Rightarrow>
          (case fs_res (real_dir n (ws_fs w) (wh_root h)) of
             Inl e \<Rightarrow> Some (Inl e)
           | Inr d \<Rightarrow> map_option Inr (visit_dir fuel le (ws_fs w) d d [])))"

datatype ws_preview =
    BinaryPreview string nat
  | ImagePreview string nat string string
  | TextPreview string nat string bool

definition lower_ext :: "string \<Rightarrow> string" where
  "lower_ext p =
     map (\<lambda>c. if is_upper_c c then char_of (of_char c + (32 :: nat)) else c) (path_ext (path_basename p))"

definition preview_of :: "string \<Rightarrow> string \<Rightarrow> ws_preview" where
  "preview_of p content =
     (let size = length content; extension = lower_ext p in
      case jget IMAGE_MIME_TYPES extension of
        Some mime \<Rightarrow>
          if IMAGE_PREVIEW_LIMIT < size then BinaryPreview p size else ImagePreview p size mime (take size content)
      | None \<Rightarrow>
          if \<not> List.member TEXT_EXTENSIONS extension \<and> 0 < size \<and>
             List.member (take (min SNIFF_BYTES size) content) (CHR 0x00)
          then BinaryPreview p size
          else TextPreview p size (take (min size TEXT_PREVIEW_LIMIT) content) (TEXT_PREVIEW_LIMIT < size))"

definition read_ws_file ::
  "(string \<Rightarrow> bool) \<Rightarrow> nat \<Rightarrow> string \<Rightarrow> string \<Rightarrow> string \<Rightarrow> workspaces \<Rightarrow> ws_error + ws_preview" where
  "read_ws_file is_uuid n owner session p w =
     rbind (require_handle is_uuid owner session w) (\<lambda>h.
     rbind (posix_relative_path p) (\<lambda>q.
     rbind (resolve_contained_file n (ws_fs w) (wh_root h) q) (\<lambda>r.
       case entry_at (ws_fs w) r of
         Some (FileE content) \<Rightarrow> Inr (preview_of q content)
       | _ \<Rightarrow> Inl NotRegular)))"

section \<open>Importing\<close>

record import_acc =
  ia_imported :: nat
  ia_skipped :: nat
  ia_bytes :: nat

definition skip_entry :: "import_acc \<Rightarrow> import_acc" where
  "skip_entry acc = acc\<lparr>ia_skipped := Suc (ia_skipped acc)\<rparr>"

definition exists_path :: "nat \<Rightarrow> fsys \<Rightarrow> fs_path \<Rightarrow> ws_error + bool" where
  "exists_path n fs p =
     (case lstat n fs p of Inr _ \<Rightarrow> Inr True | Inl ENOENT \<Rightarrow> Inr False | Inl e \<Rightarrow> Inl (FsError e))"

text \<open>The loop of \<open>allocateUniqueName\<close> from the \<open>k\<close>-th name on; \<open>m\<close> names are still to be tried.\<close>

definition numbered_name :: "string \<Rightarrow> nat \<Rightarrow> string" where
  "numbered_name b k = path_stem b @ '' ('' @ show_nat k @ '')'' @ path_ext b"

fun unique_name_from :: "nat \<Rightarrow> fsys \<Rightarrow> fs_path \<Rightarrow> string \<Rightarrow> string \<Rightarrow> nat \<Rightarrow> nat \<Rightarrow> ws_error + string" where
  "unique_name_from n fs d b candidate k 0 = Inl NoUniqueName"
| "unique_name_from n fs d b candidate k (Suc m) =
     rbind (exists_path n fs (path_join d candidate)) (\<lambda>taken.
       if \<not> taken then Inr candidate else unique_name_from n fs d b (numbered_name b k) (Suc k) m)"

definition allocate_unique_name :: "nat \<Rightarrow> fsys \<Rightarrow> fs_path \<Rightarrow> string \<Rightarrow> ws_error + string" where
  "allocate_unique_name n fs d b = unique_name_from n fs d b b 2 (UNIQUE_NAME_LIMIT - 1)"

text \<open>
  \<open>importEntry\<close> for a list of sources, one after the other. A source is its path and its base name. The
  function returns what was thrown, if anything, with the file system and the counts so far; the list of
  files that \<open>importNativePaths\<close> adds to the counts is \<open>list_files\<close> in the state it leaves.
\<close>

definition child_source :: "fs_path \<Rightarrow> string \<Rightarrow> fs_path \<times> string" where
  "child_source src c = (let p = path_join (norm_comps [] src) c in (p, if p = [] then [] else last p))"

definition import_file ::
  "nat \<Rightarrow> string \<Rightarrow> string \<Rightarrow> fs_path \<Rightarrow> fsys \<times> import_acc \<Rightarrow> ws_error option \<times> fsys \<times> import_acc" where
  "import_file n b content dest st =
     (case st of (fs, acc) \<Rightarrow>
        if IMPORT_FILE_LIMIT < length content \<or> IMPORT_BATCH_FILES \<le> ia_imported acc \<or>
           IMPORT_BATCH_BYTES < ia_bytes acc + length content
        then (None, fs, skip_entry acc)
        else
          (case allocate_unique_name n fs dest b of
             Inl e \<Rightarrow> (Some e, fs, acc)
           | Inr nm \<Rightarrow>
               (case copy_file_excl n fs content (path_join dest nm) of
                  Inl _ \<Rightarrow> (None, fs, skip_entry acc)
                | Inr fs1 \<Rightarrow>
                    (None, fs1, acc\<lparr>ia_imported := Suc (ia_imported acc), ia_bytes := ia_bytes acc + length content\<rparr>))))"

definition import_subdirectory :: "nat \<Rightarrow> string \<Rightarrow> fs_path \<Rightarrow> fsys \<Rightarrow> ws_error + fs_path \<times> fsys" where
  "import_subdirectory n b dest fs =
     rbind (allocate_unique_name n fs dest b) (\<lambda>nm.
     rbind (fs_res (mkdir n fs (path_join dest nm))) (\<lambda>fs1. Inr (path_join dest nm, fs1)))"

function import_entries ::
  "nat \<Rightarrow> nat \<Rightarrow> fs_path \<Rightarrow> (fs_path \<times> string) list \<Rightarrow> fsys \<times> import_acc \<Rightarrow> ws_error option \<times> fsys \<times> import_acc" where
  "import_entries n lvl dest [] st = (None, st)"
| "import_entries n lvl dest ((src, b) # srcs) (fs, acc) =
     (case lstat n fs src of
        Inr DirE \<Rightarrow>
          if IMPORT_MAX_DEPTH \<le> lvl then import_entries n lvl dest srcs (fs, skip_entry acc)
          else
            (case import_subdirectory n b dest fs of
               Inl e \<Rightarrow> (Some e, fs, acc)
             | Inr (next_dir, fs1) \<Rightarrow>
                 (case fs_res (realpath n fs1 src) of
                    Inl e \<Rightarrow> (Some e, fs1, acc)
                  | Inr real_src \<Rightarrow>
                      (case import_entries n (Suc lvl) next_dir (map (child_source src) (children fs1 real_src)) (fs1, acc) of
                         (Some e, st) \<Rightarrow> (Some e, st)
                       | (None, st) \<Rightarrow> import_entries n lvl dest srcs st)))
      | Inr (FileE content) \<Rightarrow>
          (case import_file n b content dest (fs, acc) of
             (Some e, st) \<Rightarrow> (Some e, st)
           | (None, st) \<Rightarrow> import_entries n lvl dest srcs st)
      | _ \<Rightarrow> import_entries n lvl dest srcs (fs, skip_entry acc))"
  by pat_completeness auto

termination
  by (relation "measures [\<lambda>(n, lvl, dest, srcs, st). IMPORT_MAX_DEPTH - lvl, \<lambda>(n, lvl, dest, srcs, st). length srcs]")
    auto

definition native_source :: "string \<Rightarrow> fs_path \<times> string" where
  "native_source s = (js_split (CHR ''/'') (tl s), path_basename s)"

fun import_natives ::
  "nat \<Rightarrow> fs_path \<Rightarrow> string list \<Rightarrow> fsys \<times> import_acc \<Rightarrow> ws_error option \<times> fsys \<times> import_acc" where
  "import_natives n dest [] st = (None, st)"
| "import_natives n dest (s # ss) (fs, acc) =
     (if \<not> path_is_absolute s \<or> List.member s (CHR 0x00) then import_natives n dest ss (fs, skip_entry acc)
      else
        (case import_entries n 0 dest [native_source s] (fs, acc) of
           (Some e, st) \<Rightarrow> (Some e, st)
         | (None, st) \<Rightarrow> import_natives n dest ss st))"

definition import_native_paths ::
  "(string \<Rightarrow> bool) \<Rightarrow> nat \<Rightarrow> string \<Rightarrow> string \<Rightarrow> string list \<Rightarrow> string option \<Rightarrow> workspaces
    \<Rightarrow> (ws_error + import_acc) \<times> workspaces" where
  "import_native_paths is_uuid n owner session paths dest_dir w =
     (case rbind (require_handle is_uuid owner session w) (\<lambda>h.
             case dest_dir of None \<Rightarrow> Inr (h, [])
             | Some dd \<Rightarrow> rbind (posix_relative_path dd) (\<lambda>q. Inr (h, js_split (CHR ''/'') q))) of
        Inl e \<Rightarrow> (Inl e, w)
      | Inr (h, segments) \<Rightarrow>
          (case ensure_contained_directory n (wh_root h) (wh_root h) segments (ws_fs w) of
             (Inl e, fs1) \<Rightarrow> (Inl e, w\<lparr>ws_fs := fs1\<rparr>)
           | (Inr dest, fs1) \<Rightarrow>
               (case import_natives n dest paths (fs1, \<lparr>ia_imported = 0, ia_skipped = 0, ia_bytes = 0\<rparr>) of
                  (Some e, fs2, acc) \<Rightarrow> (Inl e, w\<lparr>ws_fs := fs2\<rparr>)
                | (None, fs2, acc) \<Rightarrow> (Inr acc, w\<lparr>ws_fs := fs2\<rparr>))))"

section \<open>Containment\<close>

definition strictly_below :: "fs_path \<Rightarrow> fs_path \<Rightarrow> bool" where
  "strictly_below d p \<longleftrightarrow> (\<exists>r. r \<noteq> [] \<and> p = d @ r)"

lemma strictly_below_trans: "strictly_below d p \<Longrightarrow> strictly_below p q \<Longrightarrow> strictly_below d q"
  unfolding strictly_below_def by (metis append.assoc append_is_Nil_conv)

lemma strictly_below_append: "strictly_below d p \<Longrightarrow> strictly_below d (p @ r)"
  unfolding strictly_below_def by (metis append.assoc append_is_Nil_conv)

lemma contained_test_iff: "list_all comp_ok q \<Longrightarrow> contained_test p q \<longleftrightarrow> strictly_below p q"
  using relative_climbs_iff [of q p]
  unfolding contained_test_def climbs_def [symmetric] strictly_below_def Let_def by blast

lemma assert_contained_iff: "list_all comp_ok q \<Longrightarrow> assert_contained p q = Inr u \<longleftrightarrow> strictly_below p q"
  by (simp add: assert_contained_def guard_r_def contained_test_iff)

lemma fs_res_Inr [simp]: "fs_res r = Inr x \<longleftrightarrow> r = Inr x"
  by (cases r) (auto simp: fs_res_def)

lemma resolve_contained_file_ok:
  assumes "fs_ok fs" and "resolve_contained_file n fs d p = Inr r"
  shows "strictly_below d r \<and> (\<exists>e. entry_at fs r = Some e)"
proof -
  obtain x where x: "lstat n fs (join_relative d p) = Inr x"
    using assms(2) by (auto simp: resolve_contained_file_def rbind_Inr)
  have r: "realpath n fs (join_relative d p) = Inr r" "assert_contained d r = Inr ()"
    using assms(2) x by (cases x; auto simp: resolve_contained_file_def rbind_Inr fs_res_def split: sum.splits)+
  obtain e where e: "entry_at fs r = Some e"
    using realpath_entry [OF assms(1) r(1)] by blast
  then show ?thesis
    using r(2) fs_ok_comps [OF assms(1) e] assert_contained_iff by blast
qed

section \<open>What importing adds\<close>

text \<open>
  The files and bytes of a list of new entries, and what an import may do: append entries below its
  destination, and count their files and bytes within the limits.
\<close>

definition file_sizes :: "fsys \<Rightarrow> nat list" where
  "file_sizes fs = List.map_filter (\<lambda>(_, e). case e of FileE content \<Rightarrow> Some (length content) | _ \<Rightarrow> None) fs"

lemma file_sizes_simps [simp]:
  "file_sizes [] = []" "file_sizes (fs @ gs) = file_sizes fs @ file_sizes gs"
  "file_sizes [(p, DirE)] = []" "file_sizes [(p, FileE content)] = [length content]"
  by (simp_all add: file_sizes_def List.map_filter_def)

definition acc_ok :: "import_acc \<Rightarrow> bool" where
  "acc_ok acc \<longleftrightarrow> ia_imported acc \<le> IMPORT_BATCH_FILES \<and> ia_bytes acc \<le> IMPORT_BATCH_BYTES"

definition import_adds :: "fs_path \<Rightarrow> fsys \<times> import_acc \<Rightarrow> fsys \<times> import_acc \<Rightarrow> bool" where
  "import_adds dest st st' \<longleftrightarrow>
     (\<exists>new. fst st' = fst st @ new \<and> fs_ok (fst st') \<and> (\<forall>(p, e) \<in> set new. strictly_below dest p) \<and>
        ia_imported (snd st') = ia_imported (snd st) + length (file_sizes new) \<and>
        ia_bytes (snd st') = ia_bytes (snd st) + sum_list (file_sizes new) \<and>
        (acc_ok (snd st) \<longrightarrow> acc_ok (snd st')) \<and> (\<forall>z \<in> set (file_sizes new). z \<le> IMPORT_FILE_LIMIT))"

lemma import_adds_refl [simp]: "fs_ok (fst st) \<Longrightarrow> import_adds dest st st"
  by (simp add: import_adds_def)

lemma import_adds_fs_ok: "import_adds dest st st' \<Longrightarrow> fs_ok (fst st')"
  unfolding import_adds_def by blast

lemma import_adds_trans:
  assumes "import_adds dest st st1" and "import_adds dest st1 st2"
  shows "import_adds dest st st2"
proof -
  obtain new1 where n1: "fst st1 = fst st @ new1" "\<forall>(p, e) \<in> set new1. strictly_below dest p"
      "ia_imported (snd st1) = ia_imported (snd st) + length (file_sizes new1)"
      "ia_bytes (snd st1) = ia_bytes (snd st) + sum_list (file_sizes new1)"
      "acc_ok (snd st) \<longrightarrow> acc_ok (snd st1)" "\<forall>z \<in> set (file_sizes new1). z \<le> IMPORT_FILE_LIMIT"
    using assms(1) unfolding import_adds_def by blast
  obtain new2 where n2: "fst st2 = fst st1 @ new2" "fs_ok (fst st2)" "\<forall>(p, e) \<in> set new2. strictly_below dest p"
      "ia_imported (snd st2) = ia_imported (snd st1) + length (file_sizes new2)"
      "ia_bytes (snd st2) = ia_bytes (snd st1) + sum_list (file_sizes new2)"
      "acc_ok (snd st1) \<longrightarrow> acc_ok (snd st2)" "\<forall>z \<in> set (file_sizes new2). z \<le> IMPORT_FILE_LIMIT"
    using assms(2) unfolding import_adds_def by blast
  show ?thesis
    unfolding import_adds_def using n1 n2 by (intro exI [of _ "new1 @ new2"]) auto
qed

lemma import_adds_below:
  assumes "import_adds next_dir st st'" and "strictly_below dest next_dir"
  shows "import_adds dest st st'"
proof -
  obtain new where n: "fst st' = fst st @ new" "fs_ok (fst st')" "\<forall>(p, e) \<in> set new. strictly_below next_dir p"
      "ia_imported (snd st') = ia_imported (snd st) + length (file_sizes new)"
      "ia_bytes (snd st') = ia_bytes (snd st) + sum_list (file_sizes new)"
      "acc_ok (snd st) \<longrightarrow> acc_ok (snd st')" "\<forall>z \<in> set (file_sizes new). z \<le> IMPORT_FILE_LIMIT"
    using assms(1) unfolding import_adds_def by blast
  have "\<forall>(p, e) \<in> set new. strictly_below dest p"
    using n(3) strictly_below_trans [OF assms(2)] by blast
  then show ?thesis
    unfolding import_adds_def using n by blast
qed

lemma import_adds_skip [simp]: "fs_ok fs \<Longrightarrow> import_adds dest (fs, acc) (fs, skip_entry acc)"
  unfolding import_adds_def by (intro exI [of _ "[]"]) (simp add: skip_entry_def acc_ok_def)

lemma import_adds_keeps:
  assumes "import_adds dest st st'" and "entry_at (fst st) p = Some e"
  shows "entry_at (fst st') p = Some e"
  using assms by (auto simp: import_adds_def entry_at_append)

subsection \<open>Unique names\<close>

definition slash_free :: "string \<Rightarrow> bool" where
  "slash_free b \<longleftrightarrow> CHR ''/'' \<notin> set b"

lemma show_nat_slash_free: "CHR ''/'' \<notin> set (show_nat k)"
proof (induction k rule: show_nat.induct)
  case (1 k)
  have digit: "CHR ''/'' \<noteq> char_of (48 + d)" if "d < 10" for d :: nat
  proof
    assume "CHR ''/'' = char_of (48 + d)"
    then have "(of_char (CHR ''/'') :: nat) = of_char (char_of (48 + d) :: char)"
      by (rule arg_cong)
    then show False
      using that by simp
  qed
  then show ?case
    using 1 digit [of k] digit [of "k mod 10"] by (subst show_nat.simps) simp
qed

lemma path_ext_slash_free: "CHR ''/'' \<notin> set b \<Longrightarrow> CHR ''/'' \<notin> set (path_ext b)"
  by (auto simp: path_ext_def Let_def dest: set_takeWhileD)

lemma numbered_name_slash_free: "slash_free b \<Longrightarrow> slash_free (numbered_name b k)"
  by (auto simp: slash_free_def numbered_name_def path_stem_def show_nat_slash_free path_ext_slash_free dest: in_set_takeD)

lemma unique_name_from_ok:
  "unique_name_from n fs d b candidate k m = Inr nm \<Longrightarrow> slash_free b \<Longrightarrow> slash_free candidate \<Longrightarrow>
     slash_free nm \<and> exists_path n fs (path_join d nm) = Inr False"
proof (induction n fs d b candidate k m rule: unique_name_from.induct)
  case (2 n fs d b candidate k m)
  then show ?case
    using numbered_name_slash_free by (auto simp: rbind_Inr split: if_splits)
qed simp

lemma unique_name_fresh:
  assumes "fs_ok fs" and "entry_at fs d = Some DirE" and "slash_free b" and "allocate_unique_name n fs d b = Inr nm"
  shows "comp_ok nm" and "path_join d nm = d @ [nm]" and "entry_at fs (d @ [nm]) = None"
proof -
  have nm: "slash_free nm" "exists_path n fs (path_join d nm) = Inr False"
    using unique_name_from_ok assms(3, 4) unfolding allocate_unique_name_def by blast+
  have up: "entry_at fs (butlast d) = Some DirE"
    using fs_ok_entry(1) [OF assms(1, 2)] by (cases "d = []") auto
  have "exists_path n fs d = Inr True" "exists_path n fs (butlast d) = Inr True"
    using lstat_dir [OF assms(1)] assms(2) up by (simp_all add: exists_path_def)
  then show ok: "comp_ok nm"
    using nm path_join_plain [of nm d] by (auto simp: slash_free_def comp_ok_def split: if_splits)
  then show j: "path_join d nm = d @ [nm]"
    by (rule path_join_ok)
  show "entry_at fs (d @ [nm]) = None"
    using nm(2) lstat_in_dir [OF assms(1, 2) ok, of n] unfolding j
    by (auto simp: exists_path_def split: option.splits)
qed

subsection \<open>Entries\<close>

lemma import_file_adds:
  assumes "fs_ok fs" and "entry_at fs dest = Some DirE" and "slash_free b"
    and "import_file n b content dest (fs, acc) = (r, st')"
  shows "import_adds dest (fs, acc) st'"
proof (cases "IMPORT_FILE_LIMIT < length content \<or> IMPORT_BATCH_FILES \<le> ia_imported acc \<or>
    IMPORT_BATCH_BYTES < ia_bytes acc + length content")
  case True
  then show ?thesis
    using assms by (auto simp: import_file_def)
next
  case False
  show ?thesis
  proof (cases "allocate_unique_name n fs dest b")
    case (Inl e)
    then show ?thesis
      using assms False by (auto simp: import_file_def)
  next
    case (Inr nm)
    note fresh = unique_name_fresh [OF assms(1-3) Inr]
    have st': "st' = (fs @ [(dest @ [nm], FileE content)],
        acc\<lparr>ia_imported := Suc (ia_imported acc), ia_bytes := ia_bytes acc + length content\<rparr>)"
      using assms(4) False Inr fresh copy_file_in_dir [OF assms(1, 2) fresh(3)] by (simp add: import_file_def)
    have "fs_ok (fs @ [(dest @ [nm], FileE content)])"
      by (rule fs_ok_add [OF assms(1, 2) fresh(1, 3)])
    then show ?thesis
      unfolding import_adds_def st' using False
      by (intro exI [of _ "[(dest @ [nm], FileE content)]"]) (auto simp: strictly_below_def acc_ok_def)
  qed
qed

lemma import_subdirectory_adds:
  assumes "fs_ok fs" and "entry_at fs dest = Some DirE" and "slash_free b"
    and "import_subdirectory n b dest fs = Inr (next_dir, fs1)"
  shows "import_adds dest (fs, acc) (fs1, acc)" and "entry_at fs1 next_dir = Some DirE"
    and "strictly_below dest next_dir"
proof -
  obtain nm where nm: "allocate_unique_name n fs dest b = Inr nm"
    using assms(4) by (auto simp: import_subdirectory_def rbind_Inr)
  note fresh = unique_name_fresh [OF assms(1-3) nm]
  have r: "next_dir = dest @ [nm]" "fs1 = fs @ [(dest @ [nm], DirE)]"
    using assms(4) nm fresh mkdir_in_dir [OF assms(1, 2) fresh(3)]
    by (auto simp: import_subdirectory_def fs_res_def)
  show "import_adds dest (fs, acc) (fs1, acc)"
    unfolding import_adds_def r using fs_ok_add [OF assms(1, 2) fresh(1, 3)]
    by (intro exI [of _ "[(dest @ [nm], DirE)]"]) (auto simp: strictly_below_def)
  show "entry_at fs1 next_dir = Some DirE"
    using fresh(3) by (simp add: r entry_at_append) (simp add: entry_at_def)
  show "strictly_below dest next_dir"
    by (simp add: r strictly_below_def)
qed

definition import_source_ok :: "fs_path \<times> string \<Rightarrow> bool" where
  "import_source_ok s \<longleftrightarrow> slash_free (snd s) \<and> list_all slash_free (fst s)"

lemma norm_comps_slash_free:
  "list_all slash_free done \<Longrightarrow> list_all slash_free cs \<Longrightarrow> list_all slash_free (norm_comps done cs)"
  by (induction "done" cs rule: norm_comps.induct) (auto simp: list_all_iff dest: in_set_butlastD)

lemma js_split_slash_free: "list_all slash_free (js_split (CHR ''/'') s)"
  by (induction s) (auto simp: slash_free_def split: list.split)

lemma child_source_ok: "list_all slash_free src \<Longrightarrow> import_source_ok (child_source src c)"
  using norm_comps_slash_free [OF norm_comps_slash_free [of "[]" src] js_split_slash_free, of c]
  by (auto simp: import_source_ok_def child_source_def path_join_def Let_def slash_free_def list_all_iff)

lemma import_entries_adds:
  "import_entries n lvl dest srcs st = (r, st') \<Longrightarrow> fs_ok (fst st) \<Longrightarrow> entry_at (fst st) dest = Some DirE \<Longrightarrow>
     list_all import_source_ok srcs \<Longrightarrow> import_adds dest st st'"
proof (induction n lvl dest srcs st arbitrary: r st' rule: import_entries.induct)
  case (1 n lvl dest st)
  then show ?case by simp
next
  case (2 n lvl dest src b srcs fs acc)
  have fs: "fs_ok fs" "entry_at fs dest = Some DirE" "slash_free b" "list_all slash_free src" "list_all import_source_ok srcs"
    using "2.prems"(2-4) by (simp_all add: import_source_ok_def [of "(src, b)"])
  have skipped: "import_adds dest (fs, acc) st'"
    if "import_entries n lvl dest srcs (fs, skip_entry acc) = (r, st')"
      and "\<And>r st'. import_entries n lvl dest srcs (fs, skip_entry acc) = (r, st') \<Longrightarrow> import_adds dest (fs, skip_entry acc) st'"
    using import_adds_trans [OF import_adds_skip [OF fs(1)]] that by blast
  have continued: "import_adds dest (fs, acc) st'"
    if "import_adds dest (fs, acc) st1" and "import_entries n lvl dest srcs st1 = (r, st')"
      and "fs_ok (fst st1) \<Longrightarrow> entry_at (fst st1) dest = Some DirE \<Longrightarrow> import_adds dest st1 st'" for st1
  proof -
    have "fs_ok (fst st1)" "entry_at (fst st1) dest = Some DirE"
      using import_adds_fs_ok [OF that(1)] import_adds_keeps [OF that(1), of dest DirE] fs(2) by simp_all
    then show ?thesis
      using import_adds_trans [OF that(1)] that(3) by blast
  qed
  have rest: "import_adds dest (fs, acc) st'"
    if skip: "import_entries n lvl dest srcs (fs, skip_entry acc) = (r, st')"
      and l: "lstat n fs src \<noteq> Inr DirE \<or> IMPORT_MAX_DEPTH \<le> lvl" "\<And>content. lstat n fs src \<noteq> Inr (FileE content)"
  proof (rule skipped [OF skip])
    show "import_adds dest (fs, skip_entry acc) st1" if "import_entries n lvl dest srcs (fs, skip_entry acc) = (r1, st1)" for r1 st1
    proof (cases "lstat n fs src")
      case (Inl e)
      then show ?thesis using "2.IH"(1) [OF Inl that] fs by simp
    next
      case (Inr e)
      show ?thesis
        using "2.IH"(3) "2.IH"(6) "2.IH"(7) Inr that l fs by (cases e) auto
    qed
  qed
  show ?case
  proof (cases "lstat n fs src")
    case (Inl e)
    then show ?thesis using rest "2.prems"(1) by simp
  next
    case (Inr e)
    show ?thesis
    proof (cases e)
      case (FileE content)
      obtain r1 st1 where f: "import_file n b content dest (fs, acc) = (r1, st1)" by (metis surj_pair)
      note add = import_file_adds [OF fs(1-3) f]
      show ?thesis
      proof (cases r1)
        case None
        then show ?thesis
          using "2.prems"(1) Inr FileE f fs(5) by (intro continued [OF add]) (auto intro: "2.IH"(2))
      next
        case (Some er)
        then show ?thesis using "2.prems"(1) Inr FileE f add by auto
      qed
    next
      case DirE
      show ?thesis
      proof (cases "IMPORT_MAX_DEPTH \<le> lvl")
        case True
        then show ?thesis using rest "2.prems"(1) Inr DirE by simp
      next
        case shallow: False
        show ?thesis
        proof (cases "import_subdirectory n b dest fs")
          case (Inl er)
          then show ?thesis using "2.prems"(1) Inr DirE shallow fs(1) by auto
        next
          case sub: (Inr x)
          obtain next_dir fs1 where x: "x = (next_dir, fs1)" by fastforce
          note made = import_subdirectory_adds(1) [OF fs(1-3) sub [unfolded x], of acc]
            import_subdirectory_adds(2) [OF fs(1-3) sub [unfolded x]]
            import_subdirectory_adds(3) [OF fs(1-3) sub [unfolded x]]
          have fs1: "fs_ok fs1"
            using import_adds_fs_ok [OF made(1)] by simp
          show ?thesis
          proof (cases "realpath n fs1 src")
            case (Inl er)
            then show ?thesis using "2.prems"(1) Inr DirE shallow sub x made(1) by (auto simp: fs_res_def)
          next
            case real: (Inr real_src)
            let ?kids = "map (child_source src) (children fs1 real_src)"
            have kids: "list_all import_source_ok ?kids"
              using child_source_ok [OF fs(4)] by (simp add: list_all_iff)
            obtain r1 st1 where k: "import_entries n (Suc lvl) next_dir ?kids (fs1, acc) = (r1, st1)" by (metis surj_pair)
            have "import_adds next_dir (fs1, acc) st1"
              by (rule "2.IH"(4) [OF Inr DirE shallow sub x [symmetric] _ k]) (use real fs1 made(2) kids in \<open>auto simp: fs_res_def\<close>)
            then have add: "import_adds dest (fs, acc) st1"
              using import_adds_trans [OF made(1)] import_adds_below made(3) by blast
            show ?thesis
            proof (cases r1)
              case None
              have res: "fs_res (realpath n fs1 src) = Inr real_src"
                using real by (simp add: fs_res_def)
              have c: "import_entries n lvl dest srcs st1 = (r, st')"
                using "2.prems"(1) Inr DirE shallow sub x res k None by simp
              show ?thesis
                by (rule continued [OF add c]) (rule "2.IH"(5) [OF Inr DirE shallow sub x [symmetric] res k [symmetric] None c _ _ fs(5)])
            next
              case (Some er)
              then show ?thesis using "2.prems"(1) Inr DirE shallow sub x real k add by (auto simp: fs_res_def)
            qed
          qed
        qed
      qed
    qed (use Inr rest "2.prems"(1) in auto)
  qed
qed

subsection \<open>A whole import\<close>

lemma native_source_ok: "import_source_ok (native_source s)"
proof -
  have sp: "list_all slash_free (js_split (CHR ''/'') z)" for z
    by (rule js_split_slash_free)
  have "slash_free (path_basename s)"
  proof (cases "filter (\<lambda>c. c \<noteq> []) (js_split (CHR ''/'') s)")
    case Nil
    then show ?thesis by (simp add: path_basename_def slash_free_def)
  next
    case (Cons c cs)
    then have "last (c # cs) \<in> set (js_split (CHR ''/'') s)"
      by (metis filter_is_subset last_in_set list.distinct(1) subsetD)
    then show ?thesis
      using sp [of s] Cons by (auto simp: path_basename_def list_all_iff)
  qed
  then show ?thesis
    using sp by (simp add: import_source_ok_def native_source_def)
qed

lemma import_natives_adds:
  "import_natives n dest ss st = (r, st') \<Longrightarrow> fs_ok (fst st) \<Longrightarrow> entry_at (fst st) dest = Some DirE \<Longrightarrow>
     import_adds dest st st'"
proof (induction n dest ss st arbitrary: r st' rule: import_natives.induct)
  case (2 n dest s ss fs acc)
  have fs: "fs_ok fs" "entry_at fs dest = Some DirE"
    using "2.prems"(2, 3) by simp_all
  show ?case
  proof (cases "\<not> path_is_absolute s \<or> List.member s (CHR 0x00)")
    case True
    then have "import_adds dest (fs, skip_entry acc) st'"
      using 2 by auto
    then show ?thesis
      using import_adds_trans [OF import_adds_skip [OF fs(1)]] by blast
  next
    case False
    obtain r1 st1 where e: "import_entries n 0 dest [native_source s] (fs, acc) = (r1, st1)" by (metis surj_pair)
    have add: "import_adds dest (fs, acc) st1"
      by (rule import_entries_adds [OF e]) (use fs native_source_ok in auto)
    show ?thesis
    proof (cases r1)
      case None
      have "import_natives n dest ss st1 = (r, st')"
        using "2.prems"(1) False e None by simp
      moreover have "fs_ok (fst st1)" "entry_at (fst st1) dest = Some DirE"
        using import_adds_fs_ok [OF add] import_adds_keeps [OF add] fs(2) by simp_all
      ultimately have "import_adds dest st1 st'"
        using "2.IH"(2) [OF False e [symmetric] None] by blast
      then show ?thesis
        using import_adds_trans [OF add] by blast
    next
      case (Some er)
      then show ?thesis using "2.prems"(1) False e add by auto
    qed
  qed
qed simp

text \<open>The destination: created below the root, and a directory when it is returned.\<close>

definition dirs_added :: "fs_path \<Rightarrow> fsys \<Rightarrow> fsys \<Rightarrow> bool" where
  "dirs_added root_dir fs fs' \<longleftrightarrow>
     fs_ok fs' \<and> (\<exists>new. fs' = fs @ new \<and> (\<forall>(p, e) \<in> set new. strictly_below root_dir p \<and> e = DirE))"

lemma dirs_added_refl: "fs_ok fs \<Longrightarrow> dirs_added root_dir fs fs"
  by (simp add: dirs_added_def)

lemma dirs_added_trans:
  assumes "dirs_added d fs fs1" and "dirs_added d fs1 fs2"
  shows "dirs_added d fs fs2"
proof -
  obtain n1 where n1: "fs1 = fs @ n1" "\<forall>(p, e) \<in> set n1. strictly_below d p \<and> e = DirE"
    using assms(1) unfolding dirs_added_def by blast
  obtain n2 where n2: "fs2 = fs1 @ n2" "\<forall>(p, e) \<in> set n2. strictly_below d p \<and> e = DirE" "fs_ok fs2"
    using assms(2) unfolding dirs_added_def by blast
  show ?thesis
    unfolding dirs_added_def using n1 n2 by (intro conjI exI [of _ "n1 @ n2"]) (simp_all add: ball_Un)
qed

lemma ensure_contained_directory_ok:
  "ensure_contained_directory n root_dir current gs fs = (res, fs') \<Longrightarrow> fs_ok fs \<Longrightarrow>
     entry_at fs current = Some DirE \<Longrightarrow> (current = root_dir \<or> strictly_below root_dir current) \<Longrightarrow>
     list_all comp_ok gs \<Longrightarrow>
     dirs_added root_dir fs fs' \<and>
     (\<forall>dest. res = Inr dest \<longrightarrow> entry_at fs' dest = Some DirE \<and> (dest = root_dir \<or> strictly_below root_dir dest))"
proof (induction n root_dir current gs fs arbitrary: res fs' rule: ensure_contained_directory.induct)
  case (2 n root_dir current g gs fs)
  let ?next = "current @ [g]"
  have g: "comp_ok g" "path_join current g = ?next"
    using "2.prems"(5) path_join_ok by auto
  have below: "strictly_below root_dir ?next"
    using "2.prems"(4) strictly_below_append [of root_dir current "[g]"] by (auto simp: strictly_below_def [of root_dir "root_dir @ [g]"])
  note fs = "2.prems"(2, 3)
  have go: "dirs_added root_dir fs fs' \<and>
     (\<forall>dest. res = Inr dest \<longrightarrow> entry_at fs' dest = Some DirE \<and> (dest = root_dir \<or> strictly_below root_dir dest))"
    if added: "dirs_added root_dir fs fs1" and dir: "entry_at fs1 ?next = Some DirE"
      and e: "ensure_contained_directory n root_dir ?next gs fs1 = (res, fs')"
      and ih: "\<And>res fs'. ensure_contained_directory n root_dir ?next gs fs1 = (res, fs') \<Longrightarrow> fs_ok fs1 \<Longrightarrow>
        entry_at fs1 ?next = Some DirE \<Longrightarrow> (?next = root_dir \<or> strictly_below root_dir ?next) \<Longrightarrow>
        list_all comp_ok gs \<Longrightarrow> dirs_added root_dir fs1 fs' \<and>
          (\<forall>dest. res = Inr dest \<longrightarrow> entry_at fs' dest = Some DirE \<and> (dest = root_dir \<or> strictly_below root_dir dest))"
    for fs1
  proof -
    have "fs_ok fs1"
      using added by (simp add: dirs_added_def)
    then show ?thesis
      using ih [OF e] dir below "2.prems"(5) dirs_added_trans [OF added] by simp
  qed
  have checked: "rbind (fs_res (realpath n fs1 ?next)) (\<lambda>r. rbind (assert_contained root_dir r) (\<lambda>_. Inr r)) = Inr ?next"
    if "fs_ok fs1" "entry_at fs1 ?next = Some DirE" for fs1
  proof -
    have "assert_contained root_dir ?next = Inr ()"
      using assert_contained_iff [OF fs_ok_comps [OF that]] below by blast
    then show ?thesis
      using realpath_real [OF that] by (simp add: fs_res_def)
  qed
  note ls = lstat_in_dir [OF fs g(1), of n]
  show ?case
  proof (cases "entry_at fs ?next")
    case None
    let ?fs1 = "fs @ [(?next, DirE)]"
    have ok1: "fs_ok ?fs1"
      by (rule fs_ok_add [OF fs g(1) None])
    have dir1: "entry_at ?fs1 ?next = Some DirE" "entry_at ?fs1 current = Some DirE"
      using None fs(2) by (simp_all add: entry_at_append) (simp add: entry_at_def)
    have added: "dirs_added root_dir fs ?fs1"
      using ok1 below by (auto simp: dirs_added_def)
    have ls1: "lstat n ?fs1 ?next = Inr DirE"
      using lstat_in_dir [OF ok1 dir1(2) g(1), of n] dir1(1) by simp
    have c: "ensure_contained_directory n root_dir ?next gs ?fs1 = (res, fs')"
      using "2.prems"(1) None ls ls1 g(2) mkdir_in_dir [OF fs None] checked [OF ok1 dir1(1)] by (simp add: Let_def)
    show ?thesis
      by (rule go [OF added dir1(1) c],
          rule "2.IH" [OF g(2) [symmetric] _ refl [of "(DirE, ?fs1)"] _ checked [OF ok1 dir1(1)]])
        (simp_all add: ls ls1 None mkdir_in_dir [OF fs None])
  next
    case (Some e)
    show ?thesis
    proof (cases "e = DirE")
      case True
      have dir: "entry_at fs ?next = Some DirE"
        using Some True by simp
      have c: "ensure_contained_directory n root_dir ?next gs fs = (res, fs')"
        using "2.prems"(1) dir ls g(2) checked [OF fs(1) dir] by (simp add: Let_def)
      show ?thesis
        by (rule go [OF dirs_added_refl [OF fs(1)] dir c],
            rule "2.IH" [OF g(2) [symmetric] _ refl [of "(DirE, fs)"] _ checked [OF fs(1) dir]])
          (simp_all add: ls dir)
    next
      case False
      then show ?thesis
        using "2.prems"(1) Some ls g(2) dirs_added_refl [OF fs(1)] by auto
    qed
  qed
qed (simp add: dirs_added_refl)

section \<open>Listing terminates and is exact\<close>

lemma children_iff:
  assumes "fs_ok fs"
  shows "c \<in> set (children fs d) \<longleftrightarrow> entry_at fs (d @ [c]) \<noteq> None"
proof
  assume "c \<in> set (children fs d)"
  then obtain p e where p: "(p, e) \<in> set fs" "p \<noteq> []" "butlast p = d" "last p = c"
    by (auto simp: children_def)
  then have "p = d @ [c]"
    by (metis append_butlast_last_id)
  then show "entry_at fs (d @ [c]) \<noteq> None"
    using p(1) by (auto simp: entry_at_def map_of_eq_None_iff rev_image_eqI)
next
  assume "entry_at fs (d @ [c]) \<noteq> None"
  then obtain e where "(d @ [c], e) \<in> set fs"
    by (auto simp: entry_at_def dest: map_of_SomeD)
  then show "c \<in> set (children fs d)"
    by (force simp: children_def)
qed

text \<open>A directory lies no deeper than there are entries: its ancestors are entries of their own.\<close>

lemma depth_bound:
  assumes "fs_ok fs" and "entry_at fs d = Some DirE"
  shows "length d \<le> length fs"
proof -
  have pre: "take i d \<in> fst ` set fs" if "i \<in> {1..length d}" for i
  proof (cases "i = length d")
    case True
    then have "d \<noteq> []" using that by auto
    then show ?thesis
      using assms(2) True by (simp add: entry_at_def rev_image_eqI [OF map_of_SomeD])
  next
    case False
    then have "drop i d \<noteq> []" "take i d \<noteq> []" using that by auto
    then have "entry_at fs (take i d) = Some DirE"
      using ancestor_dir [OF assms(1), of "take i d" "drop i d" DirE] assms(2) by simp
    then show ?thesis
      using \<open>take i d \<noteq> []\<close> by (simp add: entry_at_def rev_image_eqI [OF map_of_SomeD])
  qed
  have "inj_on (\<lambda>i. take i d) {1..length d}"
  proof (rule inj_onI)
    fix i j assume "i \<in> {1..length d}" "j \<in> {1..length d}" "take i d = take j d"
    then have "length (take i d) = length (take j d)" by simp
    then show "i = j" using \<open>i \<in> _\<close> \<open>j \<in> _\<close> by auto
  qed
  then have "length d = card ((\<lambda>i. take i d) ` {1..length d})"
    by (simp add: card_image)
  also have "\<dots> \<le> card (fst ` set fs)"
    using pre by (intro card_mono) auto
  also have "\<dots> \<le> length fs"
    by (metis card_image_le card_length finite_set le_trans)
  finally show ?thesis .
qed

text \<open>One name of a directory, as the loop of \<open>visit\<close> takes it.\<close>

definition visit_step ::
  "(fs_path \<Rightarrow> ws_file list \<Rightarrow> ws_file list option) \<Rightarrow> fsys \<Rightarrow> fs_path \<Rightarrow> fs_path \<Rightarrow> string \<Rightarrow> ws_file list option \<Rightarrow> ws_file list option" where
  "visit_step visit fs root_dir d c acc =
     (case acc of None \<Rightarrow> None
      | Some fl \<Rightarrow>
          if LIST_LIMIT \<le> length fl then Some fl
          else
            (case entry_at fs (d @ [c]) of
               Some DirE \<Rightarrow> visit (d @ [c]) fl
             | Some (FileE content) \<Rightarrow> Some (fl @ [(path_relative root_dir (d @ [c]), length content)])
             | _ \<Rightarrow> Some fl))"

lemma visit_dir_Suc:
  "visit_dir (Suc fuel) le fs root_dir d files =
     fold (visit_step (visit_dir fuel le fs root_dir) fs root_dir d) (sort_by le (children fs d)) (Some files)"
  unfolding visit_dir.simps visit_step_def by (rule refl)

text \<open>
  What a visit of a set of files (\<open>W\<close>, as pairs of real path and content) makes of a list: it appends some
  of them, no more than the limit, and all of them when it stays below the limit.
\<close>

definition listed :: "fs_path \<Rightarrow> fs_path \<times> string \<Rightarrow> ws_file" where
  "listed root_dir f = (path_relative root_dir (fst f), length (snd f))"

definition visits :: "fs_path \<Rightarrow> (fs_path \<times> string) set \<Rightarrow> ws_file list \<Rightarrow> ws_file list \<Rightarrow> bool" where
  "visits root_dir W fl fl' \<longleftrightarrow>
     (\<exists>new. fl' = fl @ new \<and> set new \<subseteq> listed root_dir ` W \<and>
        (length fl \<le> LIST_LIMIT \<longrightarrow> length fl' \<le> LIST_LIMIT) \<and>
        (length fl' < LIST_LIMIT \<longrightarrow> listed root_dir ` W \<subseteq> set new))"

lemma visits_empty [simp]: "visits root_dir {} fl fl"
  by (simp add: visits_def)

lemma visits_full: "LIST_LIMIT \<le> length fl \<Longrightarrow> visits root_dir W fl fl"
  by (simp add: visits_def)

lemma visits_one: "length fl < LIST_LIMIT \<Longrightarrow> visits root_dir {f} fl (fl @ [listed root_dir f])"
  by (simp add: visits_def)

lemma visits_trans:
  assumes "visits root_dir W fl fl1" and "visits root_dir V fl1 fl2"
  shows "visits root_dir (W \<union> V) fl fl2"
proof -
  obtain n1 where n1: "fl1 = fl @ n1" "set n1 \<subseteq> listed root_dir ` W"
      "length fl \<le> LIST_LIMIT \<longrightarrow> length fl1 \<le> LIST_LIMIT" "length fl1 < LIST_LIMIT \<longrightarrow> listed root_dir ` W \<subseteq> set n1"
    using assms(1) unfolding visits_def by blast
  obtain n2 where n2: "fl2 = fl1 @ n2" "set n2 \<subseteq> listed root_dir ` V"
      "length fl1 \<le> LIST_LIMIT \<longrightarrow> length fl2 \<le> LIST_LIMIT" "length fl2 < LIST_LIMIT \<longrightarrow> listed root_dir ` V \<subseteq> set n2"
    using assms(2) unfolding visits_def by blast
  show ?thesis
    unfolding visits_def by (rule exI [of _ "n1 @ n2"]) (use n1 n2 in \<open>auto simp: image_Un\<close>)
qed

definition files_below :: "fsys \<Rightarrow> fs_path \<Rightarrow> (fs_path \<times> string) set" where
  "files_below fs d = {(p, content). strictly_below d p \<and> entry_at fs p = Some (FileE content)}"

text \<open>The files at or below one name of a directory.\<close>

definition files_at :: "fsys \<Rightarrow> fs_path \<Rightarrow> (fs_path \<times> string) set" where
  "files_at fs p = files_below fs p \<union> {(q, content). q = p \<and> entry_at fs q = Some (FileE content)}"

lemma below_file:
  assumes "fs_ok fs" and "entry_at fs p \<noteq> Some DirE"
  shows "files_below fs p = {}"
  using ancestor_dir [OF assms(1), of p] assms(2) by (auto simp: files_below_def strictly_below_def)

lemma files_below_children:
  assumes "fs_ok fs"
  shows "files_below fs d = (\<Union>c \<in> set (children fs d). files_at fs (d @ [c]))"
proof -
  have "c \<in> set (children fs d) \<and> (p, content) \<in> files_at fs (d @ [c])"
    if "p = d @ c # r" "entry_at fs p = Some (FileE content)" for p content c r
  proof
    have "entry_at fs (d @ [c]) \<noteq> None"
      using ancestor_dir [OF assms, of "d @ [c]" r] that by (cases "r = []") auto
    then show "c \<in> set (children fs d)"
      using children_iff [OF assms] by blast
    show "(p, content) \<in> files_at fs (d @ [c])"
      using that by (cases r) (auto simp: files_at_def files_below_def strictly_below_def)
  qed
  moreover have "(p, content) \<in> files_below fs d" if "(p, content) \<in> files_at fs (d @ [c])" for p content c
    using that by (fastforce simp: files_at_def files_below_def strictly_below_def)
  ultimately show ?thesis
    unfolding files_below_def strictly_below_def by (auto simp: neq_Nil_conv) blast+
qed

lemma visit_step_visits:
  assumes ok: "fs_ok fs"
    and rec: "\<And>fl. entry_at fs (d @ [c]) = Some DirE \<Longrightarrow>
      \<exists>fl'. visit (d @ [c]) fl = Some fl' \<and> visits root_dir (files_below fs (d @ [c])) fl fl'"
  shows "\<exists>fl'. visit_step visit fs root_dir d c (Some fl) = Some fl' \<and> visits root_dir (files_at fs (d @ [c])) fl fl'"
proof (cases "LIST_LIMIT \<le> length fl")
  case True
  then show ?thesis by (simp add: visit_step_def visits_full)
next
  case False
  show ?thesis
  proof (cases "entry_at fs (d @ [c]) = Some DirE")
    case True
    then have "files_at fs (d @ [c]) = files_below fs (d @ [c])"
      by (auto simp: files_at_def)
    then show ?thesis
      using True False rec [OF True, of fl] by (simp add: visit_step_def)
  next
    case other: False
    note none = below_file [OF ok other]
    show ?thesis
    proof (cases "\<exists>content. entry_at fs (d @ [c]) = Some (FileE content)")
      case True
      then obtain content where e: "entry_at fs (d @ [c]) = Some (FileE content)" by blast
      then have "files_at fs (d @ [c]) = {(d @ [c], content)}"
        using none by (auto simp: files_at_def)
      then show ?thesis
        using e False visits_one [of fl root_dir "(d @ [c], content)"] by (simp add: visit_step_def listed_def)
    next
      case no: False
      then have "files_at fs (d @ [c]) = {}"
        using none by (auto simp: files_at_def)
      moreover have "visit_step visit fs root_dir d c (Some fl) = Some fl"
        using no other False by (auto simp: visit_step_def split: option.split fs_entry.split)
      ultimately show ?thesis by simp
    qed
  qed
qed

lemma visit_fold_visits:
  assumes "\<And>c fl. c \<in> set cs \<Longrightarrow> \<exists>fl'. f c (Some fl) = Some fl' \<and> visits root_dir (W c) fl fl'"
  shows "\<exists>fl'. fold f cs (Some fl) = Some fl' \<and> visits root_dir (\<Union>c \<in> set cs. W c) fl fl'"
  using assms
proof (induction cs arbitrary: fl)
  case (Cons c cs)
  obtain fl1 where fl1: "f c (Some fl) = Some fl1" "visits root_dir (W c) fl fl1"
    using Cons.prems by force
  obtain fl2 where fl2: "fold f cs (Some fl1) = Some fl2" "visits root_dir (\<Union>c \<in> set cs. W c) fl1 fl2"
    using Cons.IH [of fl1] Cons.prems by force
  then show ?case
    using fl1 visits_trans [OF fl1(2) fl2(2)] by auto
qed simp

lemma visit_dir_visits:
  "fs_ok fs \<Longrightarrow> entry_at fs d = Some DirE \<Longrightarrow> length fs < fuel + length d \<Longrightarrow>
     \<exists>fl'. visit_dir fuel le fs root_dir d fl = Some fl' \<and> visits root_dir (files_below fs d) fl fl'"
proof (induction fuel arbitrary: d fl)
  case 0
  then show ?case
    using depth_bound [of fs d] by simp
next
  case (Suc fuel)
  have "\<exists>fl'. visit_step (visit_dir fuel le fs root_dir) fs root_dir d c (Some fl) = Some fl' \<and>
      visits root_dir (files_at fs (d @ [c])) fl fl'" for c fl
    by (rule visit_step_visits [OF Suc.prems(1)], rule Suc.IH [OF Suc.prems(1)]) (use Suc.prems(3) in auto)
  then show ?case
    using visit_fold_visits [of "sort_by le (children fs d)" "visit_step (visit_dir fuel le fs root_dir) fs root_dir d"
        root_dir "\<lambda>c. files_at fs (d @ [c])" fl] files_below_children [OF Suc.prems(1), of d]
    unfolding visit_dir_Suc by auto
qed

section \<open>The state of the service\<close>

lemma real_dir_entry: "real_dir n fs p = Inr d \<Longrightarrow> entry_at fs d = Some DirE"
  by (auto simp: real_dir_def rbind_Inr split: if_splits)

lemma mkdir_fs_ok:
  assumes "fs_ok fs" and "comp_ok c" and "mkdir n fs (p @ [c]) = Inr fs'"
  shows "fs_ok fs'"
proof -
  obtain d where d: "real_dir n fs p = Inr d" "entry_at fs (d @ [c]) = None" "fs' = fs @ [(d @ [c], DirE)]"
    using assms(3) by (auto simp: mkdir_def rbind_Inr split: if_splits)
  show ?thesis
    unfolding d(3) by (rule fs_ok_add [OF assms(1) real_dir_entry [OF d(1)] assms(2) d(2)])
qed

lemma mkdirs_from_fs_ok:
  "mkdirs_from n fs done cs = Inr fs' \<Longrightarrow> fs_ok fs \<Longrightarrow> list_all comp_ok cs \<Longrightarrow> fs_ok fs'"
proof (induction n fs "done" cs rule: mkdirs_from.induct)
  case (2 n fs "done" c cs)
  show ?case
  proof (cases "real_dir n fs (done @ [c])")
    case (Inr d)
    then show ?thesis using 2 by simp
  next
    case (Inl e)
    then show ?thesis
      using 2 mkdir_fs_ok [OF "2.prems"(2), of c] by (cases e) (auto split: sum.splits)
  qed
qed simp

lemma list_all_butlast: "list_all P xs \<Longrightarrow> list_all P (butlast xs)"
  by (auto simp: list_all_iff dest: in_set_butlastD)

lemma norm_comps_ok:
  "list_all comp_ok done \<Longrightarrow> list_all (\<lambda>c. CHR ''/'' \<notin> set c) cs \<Longrightarrow> list_all comp_ok (norm_comps done cs)"
  by (induction "done" cs rule: norm_comps.induct) (simp_all add: list_all_butlast comp_ok_def)

lemma path_join_comps: "list_all comp_ok p \<Longrightarrow> list_all comp_ok (path_join p s)"
proof -
  have "slash_free = (\<lambda>c. CHR ''/'' \<notin> set c)"
    by (simp add: fun_eq_iff slash_free_def)
  then show "list_all comp_ok p \<Longrightarrow> list_all comp_ok (path_join p s)"
    using norm_comps_ok [of p] js_split_slash_free [of s] by (simp add: path_join_def)
qed

lemma rm_recursive_entry:
  assumes "jkeys_distinct fs" and "q \<noteq> []"
  shows "entry_at (rm_recursive fs p) q = (if take (length p) q = p then None else entry_at fs q)"
  using assms by (simp add: entry_at_def rm_recursive_def jget_jfilter split: option.split)

lemma rm_recursive_ok:
  assumes "fs_ok fs" and "p \<noteq> []"
  shows "fs_ok (rm_recursive fs p)"
proof -
  have d: "jkeys_distinct fs"
    using assms(1) by (simp add: fs_ok_def)
  have "q \<noteq> [] \<and> list_all comp_ok q \<and> entry_at (rm_recursive fs p) (butlast q) = Some DirE"
    if m: "(q, e) \<in> set (rm_recursive fs p)" for q e
  proof -
    have q: "(q, e) \<in> set fs" "take (length p) q \<noteq> p"
      using m by (auto simp: rm_recursive_def jfilter_def)
    have "take (length p) (butlast q) \<noteq> p"
    proof
      assume t: "take (length p) (butlast q) = p"
      then have "length p \<le> length q - 1"
        by (metis length_butlast length_take min.cobounded1)
      then show False
        using t q(2) by (simp add: butlast_conv_take)
    qed
    moreover have "q \<noteq> []" "list_all comp_ok q" "entry_at fs (butlast q) = Some DirE"
      using q(1) assms(1) by (auto simp: fs_ok_def)
    ultimately show ?thesis
      using rm_recursive_entry [OF d] by (cases "butlast q = []") auto
  qed
  then show ?thesis
    using d by (auto simp: fs_ok_def rm_recursive_def)
qed

definition workspaces_ok :: "workspaces \<Rightarrow> bool" where
  "workspaces_ok w \<longleftrightarrow>
     fs_ok (ws_fs w) \<and> list_all comp_ok (ws_root w) \<and>
     (\<forall>k h. jget (ws_handles w) k = Some h \<longrightarrow>
        k = handle_key (wh_owner h) (wh_session h) \<and> strictly_below (ws_phys w) (wh_root h) \<and>
        list_all comp_ok (wh_root h))"

lemma workspaces_ok_fs:
  "workspaces_ok w \<Longrightarrow> fs_ok fs \<Longrightarrow> workspaces_ok (w\<lparr>ws_fs := fs\<rparr>)"
  by (simp add: workspaces_ok_def)

lemma new_workspaces_ok:
  assumes "fs_ok fs" and "list_all comp_ok root_dir" and "new_workspaces n fs root_dir = Inr w"
  shows "workspaces_ok w"
  using assms mkdirs_from_fs_ok [of n fs "[]" root_dir]
  by (auto simp: new_workspaces_def mkdirs_def rbind_Inr workspaces_ok_def)

lemma session_directory_fs_ok:
  assumes "fs_ok fs" and "session_directory n p fs = Inr fs'" and "list_all comp_ok p"
  shows "fs_ok fs'"
proof (cases "lstat n fs p")
  case (Inr e)
  then show ?thesis using assms(1, 2) by (cases e) (auto simp: session_directory_def)
next
  case (Inl e)
  then have "mkdir n fs p = Inr fs'"
    using assms(2) by (cases e) (auto simp: session_directory_def)
  then show ?thesis
    using assms(1, 3) mkdir_fs_ok [of fs "last p" n "butlast p"] by (cases "p = []") (auto simp: mkdir_def list_all_iff)
qed

lemma owner_directory_ok:
  assumes "workspaces_ok w" and "owner_directory n owner w = Inr (phys, w1)"
  shows "workspaces_ok w1 \<and> ws_phys w1 = ws_phys w \<and> ws_root w1 = ws_root w \<and> ws_handles w1 = ws_handles w \<and>
    (\<exists>e. entry_at (ws_fs w1) phys = Some e)"
proof -
  obtain fs1 where fs1: "mkdirs n (ws_fs w) (path_join (ws_root w) owner) = Inr fs1"
      "realpath n fs1 (path_join (ws_root w) owner) = Inr phys" "w1 = w\<lparr>ws_fs := fs1\<rparr>"
    using assms(2) by (auto simp: owner_directory_def rbind_Inr)
  have ok: "fs_ok fs1"
    using mkdirs_from_fs_ok [OF fs1(1) [unfolded mkdirs_def]] assms(1) path_join_comps by (simp add: workspaces_ok_def)
  obtain e where "entry_at fs1 phys = Some e"
    using realpath_entry [OF ok fs1(2)] by blast
  then show ?thesis
    using workspaces_ok_fs [OF assms(1) ok] fs1(3) by auto
qed

lemma allocate_ws_ok:
  assumes ok: "workspaces_ok w" and r: "allocate_ws is_uuid n owner session w = (res, w')"
  shows "workspaces_ok w' \<and> ws_phys w' = ws_phys w"
proof (cases "\<not> rx_match plugin_id_pattern owner \<or> \<not> is_uuid session \<or> jget (ws_handles w) (handle_key owner session) \<noteq> None")
  case True
  then show ?thesis using assms by (auto simp: allocate_ws_def split: if_splits)
next
  case new: False
  show ?thesis
  proof (cases "owner_directory n owner w")
    case (Inl e)
    then show ?thesis using assms new by (auto simp: allocate_ws_def)
  next
    case (Inr x)
    obtain phys w1 where x: "x = (phys, w1)" by fastforce
    note w1 = owner_directory_ok [OF ok Inr [unfolded x]]
    let ?req = "path_join (path_join (ws_root w) owner) session"
    have req: "list_all comp_ok ?req"
      using ok path_join_comps by (simp add: workspaces_ok_def)
    show ?thesis
    proof (cases "rbind (assert_contained (ws_phys w) phys) (\<lambda>_. session_directory n ?req (ws_fs w1))")
      case (Inl e)
      then show ?thesis using r new Inr x w1 by (simp add: allocate_ws_def Let_def)
    next
      case fs2: (Inr fs2)
      have below: "assert_contained (ws_phys w) phys = Inr ()" and sd: "session_directory n ?req (ws_fs w1) = Inr fs2"
        using fs2 by (auto simp: rbind_Inr)
      have ok1: "fs_ok (ws_fs w1)" and ok2: "fs_ok fs2"
        using w1 session_directory_fs_ok [OF _ sd req] by (auto simp: workspaces_ok_def)
      have w2: "workspaces_ok (w1\<lparr>ws_fs := fs2\<rparr>)"
        using w1 ok2 workspaces_ok_fs by blast
      show ?thesis
      proof (cases "rbind (fs_res (realpath n fs2 ?req)) (\<lambda>z. rbind (assert_contained phys z) (\<lambda>_. Inr z))")
        case (Inl e)
        then show ?thesis using r new Inr x w1 fs2 w2 by (auto simp: allocate_ws_def Let_def)
      next
        case root: (Inr z)
        have z: "realpath n fs2 ?req = Inr z" "assert_contained phys z = Inr ()"
          using root by (auto simp: rbind_Inr)
        obtain e1 where e1: "entry_at (ws_fs w1) phys = Some e1" using w1 by blast
        obtain e2 where e2: "entry_at fs2 z = Some e2" using realpath_entry [OF ok2 z(1)] by blast
        have "strictly_below (ws_phys w) z" "list_all comp_ok z"
          using below z(2) assert_contained_iff [OF fs_ok_comps [OF ok1 e1]] assert_contained_iff [OF fs_ok_comps [OF ok2 e2]]
            fs_ok_comps [OF ok2 e2] strictly_below_trans by blast+
        moreover have "w' = w1\<lparr>ws_fs := fs2, ws_handles := jset (handle_key owner session)
            \<lparr>wh_owner = owner, wh_session = session, wh_root = z\<rparr> (ws_handles w1)\<rparr>"
          using r new Inr x fs2 root by (simp add: allocate_ws_def Let_def)
        ultimately show ?thesis
          using w1 w2 by (auto simp: workspaces_ok_def)
      qed
    qed
  qed
qed

lemma require_handle_some:
  "require_handle is_uuid owner session w = Inr h \<longleftrightarrow> is_uuid session \<and> jget (ws_handles w) (handle_key owner session) = Some h"
  by (auto simp: require_handle_def get_handle_def split: option.splits)

lemma release_ws_ok:
  assumes "workspaces_ok w" and "release_ws is_uuid owner session w = (res, w')"
  shows "workspaces_ok w' \<and> ws_phys w' = ws_phys w"
proof (cases "get_handle is_uuid owner session w")
  case (Inr oh)
  show ?thesis
  proof (cases oh)
    case (Some h)
    then have h: "jget (ws_handles w) (handle_key owner session) = Some h"
      using Inr by (auto simp: get_handle_def split: if_splits)
    then have "strictly_below (ws_phys w) (wh_root h)"
      using assms(1) by (simp add: workspaces_ok_def)
    then have "wh_root h \<noteq> []"
      by (auto simp: strictly_below_def)
    then have "fs_ok (rm_recursive (ws_fs w) (wh_root h))"
      using assms(1) rm_recursive_ok by (simp add: workspaces_ok_def)
    then show ?thesis
      using assms Inr Some by (auto simp: release_ws_def workspaces_ok_def split: if_splits)
  qed (use assms Inr in \<open>simp add: release_ws_def\<close>)
qed (use assms in \<open>simp add: release_ws_def\<close>)

lemma posix_relative_comps:
  assumes "posix_relative_path s = Inr q"
  shows "list_all comp_ok (js_split (CHR ''/'') q)"
proof -
  let ?segs = "js_split (CHR ''/'') s"
  have q: "q = js_join ''/'' ?segs" and segs: "\<not> list_ex (\<lambda>g. g = [] \<or> g = ''.'' \<or> g = ''..'') ?segs"
    using assms by (auto simp: posix_relative_path_def Let_def split: if_splits)
  have free: "CHR ''/'' \<notin> set g" if "g \<in> set ?segs" for g
    using that js_split_slash_free [of s] by (simp add: list_all_iff slash_free_def)
  have "js_split (CHR ''/'') q = ?segs"
    unfolding q by (rule js_split_join) (use free in auto)
  then show ?thesis
    using segs free by (auto simp: list_all_iff list_ex_iff comp_ok_def)
qed

lemma dirs_added_keeps: "dirs_added d fs fs' \<Longrightarrow> entry_at fs p = Some e \<Longrightarrow> entry_at fs' p = Some e"
  by (auto simp: dirs_added_def entry_at_append)

lemma dirs_added_sizes:
  assumes "\<forall>(p, e) \<in> set new. strictly_below d p \<and> e = DirE"
  shows "file_sizes new = []"
  using assms by (induction new) (auto simp: file_sizes_def List.map_filter_def)

text \<open>All that an import can do, whatever it returns.\<close>

lemma import_native_paths_adds:
  assumes "fs_ok (ws_fs w)" and "require_handle is_uuid owner session w = Inr h"
    and "entry_at (ws_fs w) (wh_root h) = Some DirE"
    and "import_native_paths is_uuid n owner session paths dest_dir w = (res, w')"
  obtains new where "w' = w\<lparr>ws_fs := ws_fs w @ new\<rparr>" and "fs_ok (ws_fs w @ new)"
    and "\<forall>(p, e) \<in> set new. strictly_below (wh_root h) p"
    and "length (file_sizes new) \<le> IMPORT_BATCH_FILES" and "sum_list (file_sizes new) \<le> IMPORT_BATCH_BYTES"
    and "\<forall>z \<in> set (file_sizes new). z \<le> IMPORT_FILE_LIMIT"
    and "\<And>acc. res = Inr acc \<Longrightarrow> ia_imported acc = length (file_sizes new) \<and> ia_bytes acc = sum_list (file_sizes new)"
proof -
  let ?P = "\<lambda>new. w' = w\<lparr>ws_fs := ws_fs w @ new\<rparr> \<and> fs_ok (ws_fs w @ new) \<and>
      (\<forall>(p, e) \<in> set new. strictly_below (wh_root h) p) \<and> length (file_sizes new) \<le> IMPORT_BATCH_FILES \<and>
      sum_list (file_sizes new) \<le> IMPORT_BATCH_BYTES \<and> (\<forall>z \<in> set (file_sizes new). z \<le> IMPORT_FILE_LIMIT) \<and>
      (\<forall>acc. res = Inr acc \<longrightarrow> ia_imported acc = length (file_sizes new) \<and> ia_bytes acc = sum_list (file_sizes new))"
  have "\<exists>new. ?P new"
  proof (cases "case dest_dir of None \<Rightarrow> Inr (h, []) | Some dd \<Rightarrow> rbind (posix_relative_path dd) (\<lambda>q. Inr (h, js_split (CHR ''/'') q))")
    case (Inl e)
    then have "?P []"
      using assms(1, 2, 4) by (auto simp: import_native_paths_def)
    then show ?thesis by blast
  next
    case (Inr x)
    then obtain segs where x: "x = (h, segs)" "list_all comp_ok segs"
      using posix_relative_comps by (cases dest_dir) (auto simp: rbind_Inr)
    obtain r1 fs1 where e: "ensure_contained_directory n (wh_root h) (wh_root h) segs (ws_fs w) = (r1, fs1)" by fastforce
    note ens = ensure_contained_directory_ok [OF e assms(1, 3) _ x(2)]
    obtain new1 where n1: "fs1 = ws_fs w @ new1" "\<forall>(p, e) \<in> set new1. strictly_below (wh_root h) p \<and> e = DirE" "fs_ok fs1"
      using ens unfolding dirs_added_def by blast
    note no1 = dirs_added_sizes [OF n1(2)]
    show ?thesis
    proof (cases r1)
      case (Inl er)
      then have "w' = w\<lparr>ws_fs := ws_fs w @ new1\<rparr> \<and> res = Inl er"
        using assms(2, 4) Inr x e n1 by (auto simp: import_native_paths_def)
      then have "?P new1"
        using n1 no1 by auto
      then show ?thesis by blast
    next
      case dest: (Inr dest)
      let ?acc = "\<lparr>ia_imported = 0, ia_skipped = 0, ia_bytes = 0\<rparr>"
      obtain r2 fs2 acc where i: "import_natives n dest paths (fs1, ?acc) = (r2, fs2, acc)" by (metis surj_pair)
      have d: "entry_at fs1 dest = Some DirE" "dest = wh_root h \<or> strictly_below (wh_root h) dest"
        using ens dest by auto
      have "import_adds dest (fs1, ?acc) (fs2, acc)"
        by (rule import_natives_adds [OF i]) (use n1 d in auto)
      then obtain new2 where n2: "fs2 = fs1 @ new2" "fs_ok fs2" "\<forall>(p, e) \<in> set new2. strictly_below dest p"
          "ia_imported acc = length (file_sizes new2)" "ia_bytes acc = sum_list (file_sizes new2)" "acc_ok acc"
          "\<forall>z \<in> set (file_sizes new2). z \<le> IMPORT_FILE_LIMIT"
        unfolding import_adds_def by (auto simp: acc_ok_def)
      have "\<forall>(p, e) \<in> set new2. strictly_below (wh_root h) p"
        using n2(3) d(2) strictly_below_trans by blast
      moreover have "w' = w\<lparr>ws_fs := fs2\<rparr>" "\<And>a. res = Inr a \<Longrightarrow> a = acc"
        using assms(2, 4) Inr x e dest i by (auto simp: import_native_paths_def split: option.splits)
      ultimately have "?P (new1 @ new2)"
        using n1 n2 no1 by (auto simp: acc_ok_def)
      then show ?thesis by blast
    qed
  qed
  then show thesis using that by blast
qed

datatype ws_op =
    WsAllocate string string
  | WsRelease string string
  | WsImport string string "string list" "string option"

fun ws_step :: "(string \<Rightarrow> bool) \<Rightarrow> nat \<Rightarrow> ws_op \<Rightarrow> workspaces \<Rightarrow> workspaces" where
  "ws_step is_uuid n (WsAllocate owner session) w = snd (allocate_ws is_uuid n owner session w)"
| "ws_step is_uuid n (WsRelease owner session) w = snd (release_ws is_uuid owner session w)"
| "ws_step is_uuid n (WsImport owner session paths dd) w = snd (import_native_paths is_uuid n owner session paths dd w)"

text \<open>No import goes into a workspace whose directory is gone.\<close>

fun roots_present :: "(string \<Rightarrow> bool) \<Rightarrow> nat \<Rightarrow> ws_op list \<Rightarrow> workspaces \<Rightarrow> bool" where
  "roots_present is_uuid n [] w = True"
| "roots_present is_uuid n (op # ops) w =
     ((case op of
         WsImport owner session paths dd \<Rightarrow>
           (case require_handle is_uuid owner session w of
              Inl _ \<Rightarrow> True | Inr h \<Rightarrow> entry_at (ws_fs w) (wh_root h) = Some DirE)
       | _ \<Rightarrow> True) \<and> roots_present is_uuid n ops (ws_step is_uuid n op w))"

lemma ws_step_ok:
  assumes "workspaces_ok w" and "roots_present is_uuid n [op] w"
  shows "workspaces_ok (ws_step is_uuid n op w) \<and> ws_phys (ws_step is_uuid n op w) = ws_phys w"
proof (cases op)
  case (WsImport owner session paths dd)
  obtain res w' where i: "import_native_paths is_uuid n owner session paths dd w = (res, w')" by fastforce
  show ?thesis
  proof (cases "require_handle is_uuid owner session w")
    case (Inl e)
    then show ?thesis using assms(1) WsImport by (simp add: import_native_paths_def)
  next
    case (Inr h)
    obtain new where "w' = w\<lparr>ws_fs := ws_fs w @ new\<rparr>" "fs_ok (ws_fs w @ new)"
      by (rule import_native_paths_adds [OF _ Inr _ i]) (use assms Inr WsImport in \<open>auto simp: workspaces_ok_def\<close>)
    then show ?thesis
      using WsImport i workspaces_ok_fs [OF assms(1)] by simp
  qed
next
  case (WsAllocate owner session)
  then show ?thesis
    using allocate_ws_ok [OF assms(1), of is_uuid n owner session] by (metis prod.collapse ws_step.simps(1))
next
  case (WsRelease owner session)
  then show ?thesis
    using release_ws_ok [OF assms(1), of is_uuid owner session] by (metis prod.collapse ws_step.simps(2))
qed

definition ws_run :: "(string \<Rightarrow> bool) \<Rightarrow> nat \<Rightarrow> ws_op list \<Rightarrow> workspaces \<Rightarrow> workspaces" where
  "ws_run is_uuid n ops w = fold (ws_step is_uuid n) ops w"

lemma ws_run_ok:
  "workspaces_ok w \<Longrightarrow> roots_present is_uuid n ops w \<Longrightarrow>
     workspaces_ok (ws_run is_uuid n ops w) \<and> ws_phys (ws_run is_uuid n ops w) = ws_phys w"
  unfolding ws_run_def
proof (induction ops arbitrary: w)
  case (Cons op ops)
  then show ?case
    using ws_step_ok [OF Cons.prems(1), of is_uuid n op] by simp
qed simp

section \<open>Properties\<close>

text \<open>A small file system for the witnesses, with a link that leads out of the directory it is in.\<close>

definition sample_fs :: fsys where
  "sample_fs =
     [([''data''], DirE), ([''home''], DirE), ([''home'', ''a.txt''], FileE ''hi''), ([''home'', ''d''], DirE),
      ([''home'', ''d'', ''b.md''], FileE ''x''), ([''home'', ''l''], LinkE True [''data''])]"

definition sample_uuid :: "string \<Rightarrow> bool" where
  "sample_uuid s = (s = ''s1'')"

definition sample_start :: workspaces where
  "sample_start = \<lparr>ws_root = [''data''], ws_phys = [''data''], ws_handles = [], ws_fs = sample_fs\<rparr>"

definition sample_workspaces :: workspaces where
  "sample_workspaces =
     \<lparr>ws_root = [''data''], ws_phys = [''data''],
      ws_handles = [(''acme.x:s1'', \<lparr>wh_owner = ''acme.x'', wh_session = ''s1'', wh_root = [''data'', ''acme.x'', ''s1'']\<rparr>)],
      ws_fs = sample_fs @ [([''data'', ''acme.x''], DirE), ([''data'', ''acme.x'', ''s1''], DirE),
        ([''data'', ''acme.x'', ''s1'', ''c.txt''], FileE ''abc'')]\<rparr>"

text \<open>
  Evaluating the sample: conditional and sequenced code is entered only once its guard is known.
\<close>

lemma rbind_first: "r = r' \<Longrightarrow> rbind r f = rbind r' f"
  by simp

lemma fold_first: "xs = xs' \<Longrightarrow> st = st' \<Longrightarrow> fold f xs st = fold f xs' st'"
  by simp

lemma allocate_unique_name_first:
  "exists_path n fs (path_join d b) = Inr False \<Longrightarrow> allocate_unique_name n fs d b = Inr b"
  using unique_name_from.simps(2) [of n fs d b b 2 9998]
  by (simp add: allocate_unique_name_def UNIQUE_NAME_LIMIT_def)

lemmas fs_eval = sample_fs_def sample_uuid_def sample_start_def entry_at_def path_join_def realpath_def real_dir_def
  lstat_def mkdir_def mkdirs_def copy_file_excl_def fs_res_def rbind_def fold_simps guard_r_def Let_def
  path_relative_def js_starts_with_def path_is_absolute_def handle_key_def assert_contained_def contained_test_def
  require_handle_def get_handle_def posix_relative_path_def join_relative_def exists_path_def

lemma sample_fs_ok: "fs_ok sample_fs"
  by code_simp

lemma sample_workspaces_ok: "workspaces_ok sample_workspaces"
  by (simp add: workspaces_ok_def sample_workspaces_def strictly_below_def handle_key_def) code_simp

lemma sample_owner: "rx_match plugin_id_pattern ''acme.x''"
  by code_simp

lemma sample_new: "new_workspaces 40 sample_fs [''data''] = Inr sample_start"
  by (simp add: new_workspaces_def fs_eval cong: rbind_first)

lemma sample_allocate:
  "allocate_ws sample_uuid 40 ''acme.x'' ''s1'' sample_start =
   (Inr \<lparr>wh_owner = ''acme.x'', wh_session = ''s1'', wh_root = [''data'', ''acme.x'', ''s1'']\<rparr>,
    sample_workspaces\<lparr>ws_fs := sample_fs @ [([''data'', ''acme.x''], DirE), ([''data'', ''acme.x'', ''s1''], DirE)]\<rparr>)"
  by (simp add: allocate_ws_def sample_owner owner_directory_def session_directory_def sample_workspaces_def fs_eval
      del: rx_match.simps cong: rbind_first)

lemma sample_read:
  "read_ws_file sample_uuid 40 ''acme.x'' ''s1'' ''c.txt'' sample_workspaces = Inr (preview_of ''c.txt'' ''abc'')"
  by (simp add: read_ws_file_def resolve_contained_file_def sample_workspaces_def fs_eval cong: rbind_first)

lemma sample_list:
  "list_files sample_uuid (\<lambda>x y. True) 40 10 ''acme.x'' ''s1'' sample_workspaces = Some (Inr [(''c.txt'', 3)])"
  using visit_dir.simps(2) [of 9]
  by (simp add: list_files_def children_def sort_by_def LIST_LIMIT_def sample_workspaces_def fs_eval
      cong: rbind_first fold_first)

definition sample_imported :: workspaces where
  "sample_imported =
     sample_workspaces\<lparr>ws_fs := ws_fs sample_workspaces @
       [([''data'', ''acme.x'', ''s1'', ''in''], DirE), ([''data'', ''acme.x'', ''s1'', ''in'', ''a.txt''], FileE ''hi'')]\<rparr>"

lemma sample_import:
  "import_native_paths sample_uuid 40 ''acme.x'' ''s1'' [''/home/a.txt'', ''rel''] (Some ''in'') sample_workspaces =
   (Inr \<lparr>ia_imported = 1, ia_skipped = 1, ia_bytes = 2\<rparr>, sample_imported)"
  by (simp add: import_native_paths_def allocate_unique_name_first import_file_def native_source_def path_basename_def
      IMPORT_FILE_LIMIT_def IMPORT_BATCH_FILES_def IMPORT_BATCH_BYTES_def skip_entry_def sample_workspaces_def
      sample_imported_def fs_eval cong: rbind_first)

lemma sample_import_facts:
  "require_handle sample_uuid ''acme.x'' ''s1'' sample_workspaces =
     Inr \<lparr>wh_owner = ''acme.x'', wh_session = ''s1'', wh_root = [''data'', ''acme.x'', ''s1'']\<rparr>"
  "entry_at (ws_fs sample_workspaces) [''data'', ''acme.x'', ''s1''] = Some DirE"
  by (simp_all add: sample_workspaces_def fs_eval)

text \<open>
  The kernel's test on the text of \<open>path.relative\<close> is right: a normalised path passes it exactly when it
  lies strictly below the root.
\<close>

theorem contained_iff_below:
  assumes "list_all comp_ok candidate"
  shows "assert_contained root_dir candidate = Inr () \<longleftrightarrow> strictly_below root_dir candidate"
  using assert_contained_iff [OF assms] .

theorem contained_iff_below_witness:
  "assert_contained [''a''] [''a'', ''..b''] = Inr () \<and> assert_contained [''a''] [''ab''] = Inl OutsideRoot"
proof -
  have "list_all comp_ok [''a'', ''..b'']"
    by (simp add: comp_ok_def)
  then have "assert_contained [''a''] [''a'', ''..b''] = Inr ()"
    using contained_iff_below [of "[''a'', ''..b'']" "[''a'']"] by (simp add: strictly_below_def)
  moreover have "assert_contained [''a''] [''ab''] = Inl OutsideRoot"
    by code_simp
  ultimately show ?thesis ..
qed

text \<open>
  C31: whatever is allocated, released and imported, the file system stays well formed and the directory of every
  workspace lies strictly below the physical root directory, under the key of its owner and session.
\<close>

theorem handle_roots_contained:
  assumes "fs_ok fs" and "list_all comp_ok root_dir" and "new_workspaces n fs root_dir = Inr w"
    and "roots_present is_uuid n ops w" and "w' = ws_run is_uuid n ops w"
    and "jget (ws_handles w') k = Some h"
  shows "fs_ok (ws_fs w') \<and> strictly_below (ws_phys w) (wh_root h) \<and> k = handle_key (wh_owner h) (wh_session h)"
  using ws_run_ok [OF new_workspaces_ok [OF assms(1-3)] assms(4)] assms(5, 6) by (auto simp: workspaces_ok_def)

theorem handle_roots_contained_witness:
  "strictly_below [''data''] [''data'', ''acme.x'', ''s1''] \<and>
   ws_run sample_uuid 40 [WsAllocate ''acme.x'' ''s1''] sample_start =
     sample_workspaces\<lparr>ws_fs := sample_fs @ [([''data'', ''acme.x''], DirE), ([''data'', ''acme.x'', ''s1''], DirE)]\<rparr>"
proof -
  let ?w = "ws_run sample_uuid 40 [WsAllocate ''acme.x'' ''s1''] sample_start"
  have run: "?w = sample_workspaces\<lparr>ws_fs := sample_fs @ [([''data'', ''acme.x''], DirE), ([''data'', ''acme.x'', ''s1''], DirE)]\<rparr>"
    by (simp add: ws_run_def sample_allocate)
  have present: "roots_present sample_uuid 40 [WsAllocate ''acme.x'' ''s1''] sample_start"
    by (simp add: sample_allocate)
  have h: "jget (ws_handles ?w) ''acme.x:s1'' =
      Some \<lparr>wh_owner = ''acme.x'', wh_session = ''s1'', wh_root = [''data'', ''acme.x'', ''s1'']\<rparr>"
    by (simp add: run sample_workspaces_def)
  have "list_all comp_ok [''data'']"
    by (simp add: comp_ok_def)
  then show ?thesis
    using handle_roots_contained [OF sample_fs_ok _ sample_new present refl h] run by (simp add: sample_start_def)
qed

text \<open>
  C32: reading a workspace file returns a preview of a regular file that lies below the root of the caller's own
  workspace, whatever links the path goes through.
\<close>

theorem read_contained:
  assumes "workspaces_ok w" and "read_ws_file is_uuid n owner session p w = Inr preview"
  shows "\<exists>h q r content. jget (ws_handles w) (handle_key owner session) = Some h \<and> posix_relative_path p = Inr q \<and>
    r \<noteq> [] \<and> entry_at (ws_fs w) (wh_root h @ r) = Some (FileE content) \<and> preview = preview_of q content"
proof -
  obtain h q real where h: "require_handle is_uuid owner session w = Inr h" and q: "posix_relative_path p = Inr q"
    and real: "resolve_contained_file n (ws_fs w) (wh_root h) q = Inr real"
    using assms(2) by (auto simp: read_ws_file_def rbind_Inr)
  have "fs_ok (ws_fs w)"
    using assms(1) by (simp add: workspaces_ok_def)
  then obtain e r where e: "entry_at (ws_fs w) real = Some e" "real = wh_root h @ r" "r \<noteq> []"
    using resolve_contained_file_ok [OF _ real] by (auto simp: strictly_below_def)
  have "\<exists>content. e = FileE content \<and> preview = preview_of q content"
    using assms(2) h q real e(1) by (cases e) (auto simp: read_ws_file_def)
  then show ?thesis
    using h q e by (auto simp: require_handle_some)
qed

theorem read_contained_witness:
  "\<exists>r content. r \<noteq> [] \<and> entry_at (ws_fs sample_workspaces) ([''data'', ''acme.x'', ''s1''] @ r) = Some (FileE content) \<and>
     preview_of ''c.txt'' ''abc'' = preview_of ''c.txt'' content"
proof -
  from read_contained [OF sample_workspaces_ok sample_read] obtain h q r content where
      h: "jget (ws_handles sample_workspaces) (handle_key ''acme.x'' ''s1'') = Some h"
      "posix_relative_path ''c.txt'' = Inr q" "r \<noteq> []"
      "entry_at (ws_fs sample_workspaces) (wh_root h @ r) = Some (FileE content)"
      "preview_of ''c.txt'' ''abc'' = preview_of q content"
    by blast
  moreover have "posix_relative_path ''c.txt'' = Inr ''c.txt''"
    by code_simp
  ultimately show ?thesis
    by (auto simp: sample_workspaces_def handle_key_def)
qed

text \<open>
  C33: while the root of the workspace is a directory and not a link, importing never changes or removes what is
  there, and everything it adds lies below the root, whether it returns or throws.
\<close>

theorem import_adds_only:
  assumes "workspaces_ok w" and "require_handle is_uuid owner session w = Inr h"
    and "entry_at (ws_fs w) (wh_root h) = Some DirE"
    and "import_native_paths is_uuid n owner session paths dest_dir w = (res, w')"
  shows "(entry_at (ws_fs w) p = Some e \<longrightarrow> entry_at (ws_fs w') p = Some e) \<and>
    (entry_at (ws_fs w) p = None \<longrightarrow> entry_at (ws_fs w') p \<noteq> None \<longrightarrow> strictly_below (wh_root h) p) \<and>
    ws_handles w' = ws_handles w \<and> fs_ok (ws_fs w')"
proof -
  have ok: "fs_ok (ws_fs w)"
    using assms(1) by (simp add: workspaces_ok_def)
  obtain new where w': "w' = w\<lparr>ws_fs := ws_fs w @ new\<rparr>" "fs_ok (ws_fs w @ new)"
      "\<forall>(p, e) \<in> set new. strictly_below (wh_root h) p"
    by (rule import_native_paths_adds [OF ok assms(2-4)]) blast
  have "strictly_below (wh_root h) p" if "entry_at new p \<noteq> None" "p \<noteq> []"
    using that w'(3) by (auto simp: entry_at_def dest: map_of_SomeD)
  moreover have "p \<noteq> []" if "entry_at (ws_fs w) p = None"
    using that by auto
  ultimately show ?thesis
    using w' by (auto simp: entry_at_append)
qed

text \<open>
  C34: an import that returns has added as many files and bytes as it reports, at most 50 files and 128 MiB together,
  and none larger than 32 MiB.
\<close>

theorem import_within_limits:
  assumes "workspaces_ok w" and "require_handle is_uuid owner session w = Inr h"
    and "entry_at (ws_fs w) (wh_root h) = Some DirE"
    and "import_native_paths is_uuid n owner session paths dest_dir w = (Inr acc, w')"
  shows "\<exists>new. ws_fs w' = ws_fs w @ new \<and> ia_imported acc = length (file_sizes new) \<and>
    ia_bytes acc = sum_list (file_sizes new) \<and> ia_imported acc \<le> 50 \<and> ia_bytes acc \<le> 134217728 \<and>
    list_all (\<lambda>z. z \<le> 33554432) (file_sizes new)"
proof -
  have ok: "fs_ok (ws_fs w)"
    using assms(1) by (simp add: workspaces_ok_def)
  obtain new where new: "w' = w\<lparr>ws_fs := ws_fs w @ new\<rparr>" "length (file_sizes new) \<le> IMPORT_BATCH_FILES"
      "sum_list (file_sizes new) \<le> IMPORT_BATCH_BYTES" "\<forall>z \<in> set (file_sizes new). z \<le> IMPORT_FILE_LIMIT"
      "\<And>acc'. Inr acc = Inr acc' \<Longrightarrow> ia_imported acc' = length (file_sizes new) \<and> ia_bytes acc' = sum_list (file_sizes new)"
    by (rule import_native_paths_adds [OF ok assms(2-4)]) blast
  show ?thesis
    using new(1-4) new(5) [OF refl]
    by (intro exI [of _ new])
      (simp add: list_all_iff IMPORT_BATCH_FILES_def IMPORT_BATCH_BYTES_def IMPORT_FILE_LIMIT_def)
qed

theorem import_adds_only_witness:
  "entry_at (ws_fs sample_imported) [''home'', ''a.txt''] = Some (FileE ''hi'') \<and>
   strictly_below [''data'', ''acme.x'', ''s1''] [''data'', ''acme.x'', ''s1'', ''in'', ''a.txt'']"
proof -
  note adds = import_adds_only [OF sample_workspaces_ok sample_import_facts(1) _ sample_import]
  have "entry_at (ws_fs sample_workspaces) [''home'', ''a.txt''] = Some (FileE ''hi'')"
    by (simp add: sample_workspaces_def fs_eval)
  then have "entry_at (ws_fs sample_imported) [''home'', ''a.txt''] = Some (FileE ''hi'')"
    using adds sample_import_facts(2) by simp
  moreover have "entry_at (ws_fs sample_workspaces) [''data'', ''acme.x'', ''s1'', ''in'', ''a.txt''] = None"
      "entry_at (ws_fs sample_imported) [''data'', ''acme.x'', ''s1'', ''in'', ''a.txt''] \<noteq> None"
    by (simp_all add: sample_imported_def sample_workspaces_def fs_eval)
  ultimately show ?thesis
    using adds [of "[''data'', ''acme.x'', ''s1'', ''in'', ''a.txt'']"] sample_import_facts(2) by simp
qed

theorem import_within_limits_witness:
  "\<exists>new. ws_fs sample_imported = ws_fs sample_workspaces @ new \<and> length (file_sizes new) = 1 \<and> sum_list (file_sizes new) = 2"
  using import_within_limits [OF sample_workspaces_ok sample_import_facts(1) _ sample_import] sample_import_facts(2)
  by auto

text \<open>
  C36: listing a workspace always ends: with more fuel than there are entries it does not run out, whatever the
  directories and links are.
\<close>

theorem listing_terminates:
  assumes "fs_ok (ws_fs w)" and "length (ws_fs w) < fuel"
  shows "\<exists>r. list_files is_uuid le n fuel owner session w = Some r"
proof (cases "require_handle is_uuid owner session w")
  case (Inr h)
  show ?thesis
  proof (cases "real_dir n (ws_fs w) (wh_root h)")
    case dir: (Inr d)
    obtain fl where "visit_dir fuel le (ws_fs w) d d [] = Some fl"
      using visit_dir_visits [OF assms(1) real_dir_entry [OF dir]] assms(2) by force
    then show ?thesis
      using Inr dir by (simp add: list_files_def fs_res_def)
  qed (simp add: list_files_def Inr fs_res_def)
qed (simp add: list_files_def)

theorem listing_terminates_witness:
  "\<exists>r. list_files sample_uuid (\<lambda>x y. True) 40 100 ''acme.x'' ''s1'' sample_imported = Some r"
proof (rule listing_terminates)
  show "fs_ok (ws_fs sample_imported)"
    by code_simp
  show "length (ws_fs sample_imported) < 100"
    by (simp add: sample_imported_def sample_workspaces_def sample_fs_def)
qed

text \<open>
  C35: the listing of a workspace names only regular files below its root (below the directory the root leads to,
  which is the root itself as long as that is a directory and not a link), at most 1000 of them; when it names fewer,
  it names every regular file there, with its size.
\<close>

theorem listing_exact:
  assumes "fs_ok (ws_fs w)" and "length (ws_fs w) < fuel"
    and "require_handle is_uuid owner session w = Inr h"
    and "list_files is_uuid le n fuel owner session w = Some (Inr fl)"
  shows "\<exists>d. real_dir n (ws_fs w) (wh_root h) = Inr d \<and>
    (entry_at (ws_fs w) (wh_root h) = Some DirE \<longrightarrow> d = wh_root h) \<and>
    length fl \<le> 1000 \<and> set fl \<subseteq> listed d ` files_below (ws_fs w) d \<and>
    (length fl < 1000 \<longrightarrow> set fl = listed d ` files_below (ws_fs w) d)"
proof -
  obtain d where d: "real_dir n (ws_fs w) (wh_root h) = Inr d"
    using assms(3, 4) by (cases "real_dir n (ws_fs w) (wh_root h)") (auto simp: list_files_def fs_res_def)
  obtain fl' where fl': "visit_dir fuel le (ws_fs w) d d [] = Some fl'" "visits d (files_below (ws_fs w) d) [] fl'"
    using visit_dir_visits [OF assms(1) real_dir_entry [OF d], of fuel le d "[]"] assms(2) by auto
  have "fl = fl'"
    using assms(3, 4) d fl'(1) by (simp add: list_files_def fs_res_def)
  moreover have "d = wh_root h" if "entry_at (ws_fs w) (wh_root h) = Some DirE"
    using real_dir_real [OF assms(1) that, of n] d by simp
  ultimately show ?thesis
    using fl'(2) d by (auto simp: visits_def LIST_LIMIT_def)
qed

theorem listing_exact_witness:
  "set [(''c.txt'', 3)] =
     listed [''data'', ''acme.x'', ''s1''] ` files_below (ws_fs sample_workspaces) [''data'', ''acme.x'', ''s1'']"
proof -
  have ok: "fs_ok (ws_fs sample_workspaces)"
    using sample_workspaces_ok by (simp add: workspaces_ok_def)
  have "length (ws_fs sample_workspaces) < 10"
    by (simp add: sample_workspaces_def sample_fs_def)
  moreover have "entry_at (ws_fs sample_workspaces) [''data'', ''acme.x'', ''s1''] = Some DirE"
    using sample_import_facts(2) by simp
  ultimately show ?thesis
    using listing_exact [OF ok _ sample_import_facts(1) sample_list] by auto
qed

end
