(* ===== verification/Persona.thy ===== *)
theory Persona
  imports Json Regex
begin

text \<open>
  Personas and skills: the documents of \<open>personaSchema\<close> and \<open>skillSchema\<close>
  (\<open>packages/contracts/src/index.ts\<close>) and the two services that keep them,
  \<open>persona-service.ts\<close> and \<open>skill-service.ts\<close> in \<open>packages/kernel/src\<close>. Both keep a state in memory and
  a document in the store, and queue their changes one behind the other; a change is one step here.
  The schema of an MCP server is an argument, since it parses URLs with the platform's \<open>URL\<close>.
\<close>

section \<open>Fields of a schema\<close>

definition text_field :: "jsval \<Rightarrow> string option" where
  "text_field v = str_of v"

definition min_text :: "jsval \<Rightarrow> string option" where
  "min_text v = (case v of VStr s \<Rightarrow> if s = [] then None else Some s | _ \<Rightarrow> None)"

definition pattern_text :: "rx \<Rightarrow> jsval \<Rightarrow> string option" where
  "pattern_text r v = (case v of VStr s \<Rightarrow> if rx_match r s then Some s else None | _ \<Rightarrow> None)"

definition trimmed_text :: "nat \<Rightarrow> jsval \<Rightarrow> string option" where
  "trimmed_text n v =
     (case v of
        VStr s \<Rightarrow> let t = js_trim s in if t = [] \<or> n < length t then None else Some t
      | _ \<Rightarrow> None)"

definition bounded_text :: "nat \<Rightarrow> jsval \<Rightarrow> string option" where
  "bounded_text n v = (case v of VStr s \<Rightarrow> if s = [] \<or> n < length s then None else Some s | _ \<Rightarrow> None)"

definition bool_field :: "jsval \<Rightarrow> bool option" where
  "bool_field v = (case v of VBool b \<Rightarrow> Some b | _ \<Rightarrow> None)"

fun all_some :: "('a \<Rightarrow> 'b option) \<Rightarrow> 'a list \<Rightarrow> 'b list option" where
  "all_some f [] = Some []"
| "all_some f (x # xs) = Option.bind (f x) (\<lambda>y. Option.bind (all_some f xs) (\<lambda>ys. Some (y # ys)))"

definition array_field :: "(jsval \<Rightarrow> 'a option) \<Rightarrow> jsval \<Rightarrow> 'a list option" where
  "array_field p v = (case v of VArr xs \<Rightarrow> all_some p xs | _ \<Rightarrow> None)"

definition limit_field :: "('a list \<Rightarrow> bool) \<Rightarrow> (jsval \<Rightarrow> 'a list option) \<Rightarrow> jsval \<Rightarrow> 'a list option" where
  "limit_field ok p v = Option.bind (p v) (\<lambda>xs. if ok xs then Some xs else None)"

definition opt_field :: "(jsval \<Rightarrow> 'a option) \<Rightarrow> jsval \<Rightarrow> 'a option option" where
  "opt_field p v = (if v = VUndef then Some None else map_option Some (p v))"

definition default_field :: "'a \<Rightarrow> (jsval \<Rightarrow> 'a option) \<Rightarrow> jsval \<Rightarrow> 'a option" where
  "default_field d p v = (if v = VUndef then Some d else p v)"

definition strict_object :: "string list \<Rightarrow> jsval \<Rightarrow> bool" where
  "strict_object ks v = (is_plain_object v \<and> list_all (\<lambda>(k, _). List.member ks k) (obj_fields v))"

text \<open>Object literals: a key whose value is undefined is not written.\<close>

definition opt_val :: "('a \<Rightarrow> jsval) \<Rightarrow> 'a option \<Rightarrow> jsval" where
  "opt_val f x = (case x of None \<Rightarrow> VUndef | Some a \<Rightarrow> f a)"

definition object_of :: "(string \<times> jsval) list \<Rightarrow> jsval" where
  "object_of fs = VObj (jfilter (\<lambda>_ v. v \<noteq> VUndef) fs)"

definition array_val :: "('a \<Rightarrow> jsval) \<Rightarrow> 'a list \<Rightarrow> jsval" where
  "array_val f xs = VArr (map f xs)"

text \<open>What a field accepts, it accepts again after printing.\<close>

definition codec :: "(jsval \<Rightarrow> 'a option) \<Rightarrow> ('a \<Rightarrow> jsval) \<Rightarrow> bool" where
  "codec p f \<longleftrightarrow> (\<forall>v x. p v = Some x \<longrightarrow> p (f x) = Some x \<and> f x \<noteq> VUndef)"

lemma codecD: "codec p f \<Longrightarrow> p v = Some x \<Longrightarrow> p (f x) = Some x"
  by (simp add: codec_def)

lemma dropWhile_trim:
  "xs \<noteq> [] \<Longrightarrow> \<not> P (hd xs) \<Longrightarrow> rev (dropWhile P (rev xs)) \<noteq> [] \<and> hd (rev (dropWhile P (rev xs))) = hd xs"
proof (induction xs rule: rev_induct)
  case (snoc x xs)
  show ?case
  proof (cases "xs = []")
    case False
    then have "rev (dropWhile P (rev xs)) \<noteq> [] \<and> hd (rev (dropWhile P (rev xs))) = hd xs"
      using snoc by (metis hd_append2)
    then show ?thesis
      using False by simp
  qed (use snoc.prems in simp)
qed simp

lemma js_trim_idem: "js_trim (js_trim s) = js_trim s"
proof -
  let ?a = "dropWhile is_ws s"
  let ?b = "rev (dropWhile is_ws (rev ?a))"
  have "dropWhile is_ws ?b = ?b"
  proof (cases "?a = []")
    case False
    then have "\<not> is_ws (hd ?a)"
      by (metis hd_dropWhile)
    then have "hd ?b = hd ?a" "?b \<noteq> []"
      using dropWhile_trim [OF False] by blast+
    then show ?thesis
      using \<open>\<not> is_ws (hd ?a)\<close> by (metis dropWhile.simps(2) list.exhaust_sel)
  next
    case True
    show ?thesis unfolding True by simp
  qed
  moreover have "dropWhile is_ws (rev ?b) = rev ?b"
    by simp
  ultimately show ?thesis
    unfolding js_trim_def by (metis rev_rev_ident)
qed

named_theorems codec_intro

lemma codec_text [codec_intro]: "codec text_field VStr"
  by (auto simp: codec_def text_field_def)

lemma codec_min_text [codec_intro]: "codec min_text VStr"
  by (auto simp: codec_def min_text_def split: jsval.splits if_splits)

lemma codec_pattern [codec_intro]: "codec (pattern_text r) VStr"
  by (auto simp: codec_def pattern_text_def split: jsval.splits if_splits)

lemma codec_trimmed [codec_intro]: "codec (trimmed_text n) VStr"
  by (auto simp: codec_def trimmed_text_def Let_def js_trim_idem split: jsval.splits if_splits)

lemma codec_bounded [codec_intro]: "codec (bounded_text n) VStr"
  by (auto simp: codec_def bounded_text_def split: jsval.splits if_splits)

lemma codec_bool [codec_intro]: "codec bool_field VBool"
  by (auto simp: codec_def bool_field_def split: jsval.splits)

lemma all_some_print: "codec p f \<Longrightarrow> all_some p vs = Some xs \<Longrightarrow> all_some p (map f xs) = Some xs"
  by (induction vs arbitrary: xs) (auto simp: Option.bind_eq_Some_conv dest: codecD)

lemma codec_array [codec_intro]: "codec p f \<Longrightarrow> codec (array_field p) (array_val f)"
  unfolding codec_def [of "array_field p"] array_field_def array_val_def
  by (auto simp: all_some_print split: jsval.splits)

lemma codec_limit [codec_intro]: "codec p f \<Longrightarrow> codec (limit_field ok p) f"
  by (auto simp: codec_def limit_field_def Option.bind_eq_Some_conv split: if_splits)

lemma codec_default [codec_intro]: "codec p f \<Longrightarrow> p (f d) = Some d \<Longrightarrow> f d \<noteq> VUndef \<Longrightarrow> codec (default_field d p) f"
  by (auto simp: codec_def default_field_def split: if_splits)

lemma default_print:
  "codec p f \<Longrightarrow> p (f d) = Some d \<Longrightarrow> f d \<noteq> VUndef \<Longrightarrow> default_field d p v = Some x \<Longrightarrow>
     default_field d p (f x) = Some x"
  by (auto simp: codec_def default_field_def split: if_splits)

lemma opt_print: "codec p f \<Longrightarrow> opt_field p v = Some x \<Longrightarrow> opt_field p (opt_val f x) = Some x"
  by (auto simp: codec_def opt_field_def opt_val_def split: if_splits option.splits)

lemma getp_object_of: "distinct (map fst fs) \<Longrightarrow> getp (object_of fs) k = getp (VObj fs) k"
  by (cases "jget fs k") (simp_all add: object_of_def getp_def obj_fields_def jget_jfilter)

lemma strict_object_of: "list_all (\<lambda>(k, _). List.member ks k) fs \<Longrightarrow> strict_object ks (object_of fs)"
  by (auto simp: strict_object_def object_of_def is_plain_object_def obj_fields_def list_all_iff jfilter_def)

section \<open>Personas\<close>

definition id_char :: "char \<Rightarrow> bool" where
  "id_char c = (is_digit_c c \<or> is_lower_c c \<or> is_upper_c c \<or> List.member ''_-'' c)"

definition persona_id_rx :: rx where
  "persona_id_rx =
     RSeq (rplus (RCls id_char)) (rplus (RSeq (rset ''/'') (rplus (RCls id_char))))"

definition hex_char :: "char \<Rightarrow> bool" where
  "hex_char c = (is_digit_c c \<or> List.member ''abcdefABCDEF'' c)"

definition color_rx :: rx where
  "color_rx =
     (let h = RCls hex_char; h3 = RSeq h (RSeq h h) in RSeq (rset ''#'') (RAlt h3 (RSeq h3 h3)))"

definition template_id_rx :: rx where
  "template_id_rx =
     RSeq (RCls (\<lambda>c. is_digit_c c \<or> is_lower_c c \<or> is_upper_c c)) (RStar (RCls id_char))"

record prompt_template =
  pt_id :: string
  pt_name :: string
  pt_prompt :: string

datatype loop_strategy = React | CodeAct

datatype tool_execution_mode = SequentialPartial | SequentialFull | ParallelTools

datatype context_map = GeneralMap | CodeMap | AdvancedMap

record persona =
  ps_id :: string
  ps_name :: string
  ps_description :: "string option"
  ps_instructions :: string
  ps_preferred :: "string list"
  ps_secondary :: "string list"
  ps_allowed :: "string list"
  ps_mcp :: "jsval list"
  ps_strategy :: loop_strategy
  ps_mode :: tool_execution_mode
  ps_skills :: "string list"
  ps_context :: "context_map option"
  ps_avatar :: "string option"
  ps_color :: "string option"
  ps_templates :: "prompt_template list"
  ps_archived :: bool
  ps_bundled :: bool

definition strategy_val :: "loop_strategy \<Rightarrow> jsval" where
  "strategy_val s = VStr (case s of React \<Rightarrow> ''react'' | CodeAct \<Rightarrow> ''code-act'')"

definition parse_strategy :: "jsval \<Rightarrow> loop_strategy option" where
  "parse_strategy v =
     (if v = VStr ''react'' then Some React else if v = VStr ''code-act'' then Some CodeAct else None)"

definition mode_val :: "tool_execution_mode \<Rightarrow> jsval" where
  "mode_val m = VStr (case m of SequentialPartial \<Rightarrow> ''sequential-partial''
     | SequentialFull \<Rightarrow> ''sequential-full'' | ParallelTools \<Rightarrow> ''parallel'')"

definition parse_mode :: "jsval \<Rightarrow> tool_execution_mode option" where
  "parse_mode v =
     (if v = VStr ''sequential-partial'' then Some SequentialPartial
      else if v = VStr ''sequential-full'' then Some SequentialFull
      else if v = VStr ''parallel'' then Some ParallelTools else None)"

definition context_val :: "context_map \<Rightarrow> jsval" where
  "context_val c = VStr (case c of GeneralMap \<Rightarrow> ''general'' | CodeMap \<Rightarrow> ''code'' | AdvancedMap \<Rightarrow> ''advanced'')"

definition parse_context :: "jsval \<Rightarrow> context_map option" where
  "parse_context v =
     (if v = VStr ''general'' then Some GeneralMap else if v = VStr ''code'' then Some CodeMap
      else if v = VStr ''advanced'' then Some AdvancedMap else None)"

lemma codec_strategy [codec_intro]: "codec parse_strategy strategy_val"
  unfolding codec_def parse_strategy_def strategy_val_def by (auto split: loop_strategy.splits)

lemma codec_mode [codec_intro]: "codec parse_mode mode_val"
  unfolding codec_def parse_mode_def mode_val_def by (auto split: tool_execution_mode.splits)

lemma codec_context [codec_intro]: "codec parse_context context_val"
  unfolding codec_def parse_context_def context_val_def by (auto split: context_map.splits)

definition template_val :: "prompt_template \<Rightarrow> jsval" where
  "template_val t =
     object_of [(''id'', VStr (pt_id t)), (''name'', VStr (pt_name t)), (''prompt'', VStr (pt_prompt t))]"

definition parse_template :: "jsval \<Rightarrow> prompt_template option" where
  "parse_template v =
     (if \<not> strict_object [''id'', ''name'', ''prompt''] v then None
      else Option.bind (pattern_text template_id_rx (getp v ''id'')) (\<lambda>i.
           Option.bind (trimmed_text 80 (getp v ''name'')) (\<lambda>n.
           Option.bind (bounded_text 8000 (getp v ''prompt'')) (\<lambda>p.
             Some \<lparr>pt_id = i, pt_name = n, pt_prompt = p\<rparr>))))"

text \<open>The keys of a persona, and the persona of a value. \<open>mcp\<close> is \<open>mcpServerConfigSchema\<close>.\<close>

definition persona_keys :: "string list" where
  "persona_keys =
     [''id'', ''name'', ''description'', ''instructions'', ''preferredModels'', ''secondaryModels'', ''allowedTools'',
      ''mcpServers'', ''loopStrategy'', ''toolExecutionMode'', ''skillIds'', ''contextMapStrategy'', ''avatar'',
      ''color'', ''promptTemplates'', ''archived'', ''bundled'']"

definition persona_val :: "persona \<Rightarrow> jsval" where
  "persona_val p = object_of
     [(''id'', VStr (ps_id p)), (''name'', VStr (ps_name p)), (''description'', opt_val VStr (ps_description p)),
      (''instructions'', VStr (ps_instructions p)), (''preferredModels'', array_val VStr (ps_preferred p)),
      (''secondaryModels'', array_val VStr (ps_secondary p)), (''allowedTools'', array_val VStr (ps_allowed p)),
      (''mcpServers'', array_val id (ps_mcp p)), (''loopStrategy'', strategy_val (ps_strategy p)),
      (''toolExecutionMode'', mode_val (ps_mode p)), (''skillIds'', array_val VStr (ps_skills p)),
      (''contextMapStrategy'', opt_val context_val (ps_context p)), (''avatar'', opt_val VStr (ps_avatar p)),
      (''color'', opt_val VStr (ps_color p)), (''promptTemplates'', array_val template_val (ps_templates p)),
      (''archived'', VBool (ps_archived p)), (''bundled'', VBool (ps_bundled p))]"

definition parse_persona :: "(jsval \<Rightarrow> jsval option) \<Rightarrow> jsval \<Rightarrow> persona option" where
  "parse_persona mcp v =
     (if \<not> strict_object persona_keys v then None
      else Option.bind (pattern_text persona_id_rx (getp v ''id'')) (\<lambda>i.
           Option.bind (min_text (getp v ''name'')) (\<lambda>n.
           Option.bind (opt_field text_field (getp v ''description'')) (\<lambda>d.
           Option.bind (min_text (getp v ''instructions'')) (\<lambda>ins.
           Option.bind (limit_field (\<lambda>xs. xs \<noteq> []) (array_field min_text) (getp v ''preferredModels'')) (\<lambda>pm.
           Option.bind (default_field [] (array_field min_text) (getp v ''secondaryModels'')) (\<lambda>sm.
           Option.bind (default_field [''*''] (array_field min_text) (getp v ''allowedTools'')) (\<lambda>tls.
           Option.bind (default_field [] (limit_field (\<lambda>xs. length xs \<le> 64) (array_field mcp))
             (getp v ''mcpServers'')) (\<lambda>ms.
           Option.bind (default_field React parse_strategy (getp v ''loopStrategy'')) (\<lambda>st.
           Option.bind (default_field SequentialPartial parse_mode (getp v ''toolExecutionMode'')) (\<lambda>md.
           Option.bind (default_field [] (array_field min_text) (getp v ''skillIds'')) (\<lambda>sk.
           Option.bind (opt_field parse_context (getp v ''contextMapStrategy'')) (\<lambda>cx.
           Option.bind (opt_field (trimmed_text 16) (getp v ''avatar'')) (\<lambda>av.
           Option.bind (opt_field (pattern_text color_rx) (getp v ''color'')) (\<lambda>co.
           Option.bind (default_field [] (limit_field (\<lambda>xs. length xs \<le> 32) (array_field parse_template))
             (getp v ''promptTemplates'')) (\<lambda>ts.
           Option.bind (default_field False bool_field (getp v ''archived'')) (\<lambda>ar.
           Option.bind (default_field False bool_field (getp v ''bundled'')) (\<lambda>bu.
             if distinct (map (\<lambda>m. getp m ''id'') ms) \<and> distinct (map pt_id ts) then
               Some \<lparr>ps_id = i, ps_name = n, ps_description = d, ps_instructions = ins, ps_preferred = pm,
                     ps_secondary = sm, ps_allowed = tls, ps_mcp = ms, ps_strategy = st, ps_mode = md,
                     ps_skills = sk, ps_context = cx, ps_avatar = av, ps_color = co, ps_templates = ts,
                     ps_archived = ar, ps_bundled = bu\<rparr>
             else None))))))))))))))))))"

lemma codec_template [codec_intro]: "codec parse_template template_val"
  unfolding codec_def
proof (intro allI impI)
  fix v t
  assume t: "parse_template v = Some t"
  then have f: "pattern_text template_id_rx (getp v ''id'') = Some (pt_id t)"
      "trimmed_text 80 (getp v ''name'') = Some (pt_name t)" "bounded_text 8000 (getp v ''prompt'') = Some (pt_prompt t)"
    by (auto simp: parse_template_def Option.bind_eq_Some_conv split: if_splits)
  note p = codecD [OF codec_pattern f(1)] codecD [OF codec_trimmed f(2)] codecD [OF codec_bounded f(3)]
  have "strict_object [''id'', ''name'', ''prompt''] (template_val t)"
    unfolding template_val_def by (rule strict_object_of) simp
  moreover have "getp (template_val t) ''id'' = VStr (pt_id t)" "getp (template_val t) ''name'' = VStr (pt_name t)"
      "getp (template_val t) ''prompt'' = VStr (pt_prompt t)"
    unfolding template_val_def by (simp_all add: getp_object_of) (simp_all add: getp_def obj_fields_def)
  ultimately show "parse_template (template_val t) = Some t \<and> template_val t \<noteq> VUndef"
    using p by (simp add: parse_template_def) (simp add: template_val_def object_of_def)
qed

lemma getp_persona_val:
  "getp (persona_val p) ''id'' = VStr (ps_id p)" "getp (persona_val p) ''name'' = VStr (ps_name p)"
  "getp (persona_val p) ''description'' = opt_val VStr (ps_description p)"
  "getp (persona_val p) ''instructions'' = VStr (ps_instructions p)"
  "getp (persona_val p) ''preferredModels'' = array_val VStr (ps_preferred p)"
  "getp (persona_val p) ''secondaryModels'' = array_val VStr (ps_secondary p)"
  "getp (persona_val p) ''allowedTools'' = array_val VStr (ps_allowed p)"
  "getp (persona_val p) ''mcpServers'' = array_val id (ps_mcp p)"
  "getp (persona_val p) ''loopStrategy'' = strategy_val (ps_strategy p)"
  "getp (persona_val p) ''toolExecutionMode'' = mode_val (ps_mode p)"
  "getp (persona_val p) ''skillIds'' = array_val VStr (ps_skills p)"
  "getp (persona_val p) ''contextMapStrategy'' = opt_val context_val (ps_context p)"
  "getp (persona_val p) ''avatar'' = opt_val VStr (ps_avatar p)"
  "getp (persona_val p) ''color'' = opt_val VStr (ps_color p)"
  "getp (persona_val p) ''promptTemplates'' = array_val template_val (ps_templates p)"
  "getp (persona_val p) ''archived'' = VBool (ps_archived p)" "getp (persona_val p) ''bundled'' = VBool (ps_bundled p)"
  unfolding persona_val_def by (simp_all add: getp_object_of) (simp_all add: getp_def obj_fields_def)

lemma strict_persona_val: "strict_object persona_keys (persona_val p)"
  unfolding persona_val_def persona_keys_def by (rule strict_object_of) simp

text \<open>What a persona must be for the schema to accept its value.\<close>

definition persona_fields_ok :: "(jsval \<Rightarrow> jsval option) \<Rightarrow> persona \<Rightarrow> bool" where
  "persona_fields_ok mcp p \<longleftrightarrow>
     pattern_text persona_id_rx (VStr (ps_id p)) = Some (ps_id p) \<and> min_text (VStr (ps_name p)) = Some (ps_name p) \<and>
     opt_field text_field (opt_val VStr (ps_description p)) = Some (ps_description p) \<and>
     min_text (VStr (ps_instructions p)) = Some (ps_instructions p) \<and>
     limit_field (\<lambda>xs. xs \<noteq> []) (array_field min_text) (array_val VStr (ps_preferred p)) = Some (ps_preferred p) \<and>
     default_field [] (array_field min_text) (array_val VStr (ps_secondary p)) = Some (ps_secondary p) \<and>
     default_field [''*''] (array_field min_text) (array_val VStr (ps_allowed p)) = Some (ps_allowed p) \<and>
     default_field [] (limit_field (\<lambda>xs. length xs \<le> 64) (array_field mcp)) (array_val id (ps_mcp p)) = Some (ps_mcp p) \<and>
     default_field React parse_strategy (strategy_val (ps_strategy p)) = Some (ps_strategy p) \<and>
     default_field SequentialPartial parse_mode (mode_val (ps_mode p)) = Some (ps_mode p) \<and>
     default_field [] (array_field min_text) (array_val VStr (ps_skills p)) = Some (ps_skills p) \<and>
     opt_field parse_context (opt_val context_val (ps_context p)) = Some (ps_context p) \<and>
     opt_field (trimmed_text 16) (opt_val VStr (ps_avatar p)) = Some (ps_avatar p) \<and>
     opt_field (pattern_text color_rx) (opt_val VStr (ps_color p)) = Some (ps_color p) \<and>
     default_field [] (limit_field (\<lambda>xs. length xs \<le> 32) (array_field parse_template))
       (array_val template_val (ps_templates p)) = Some (ps_templates p) \<and>
     distinct (map (\<lambda>m. getp m ''id'') (ps_mcp p)) \<and> distinct (map pt_id (ps_templates p))"

lemma persona_fields_parse: "persona_fields_ok mcp p \<Longrightarrow> parse_persona mcp (persona_val p) = Some p"
  unfolding persona_fields_ok_def parse_persona_def getp_persona_val using strict_persona_val [of p]
  by (simp add: default_field_def [of False] bool_field_def)

lemma persona_fields:
  assumes "codec mcp id" and "parse_persona mcp v = Some p"
  shows "persona_fields_ok mcp p"
proof -
  have f: "pattern_text persona_id_rx (getp v ''id'') = Some (ps_id p)" "min_text (getp v ''name'') = Some (ps_name p)"
      "opt_field text_field (getp v ''description'') = Some (ps_description p)"
      "min_text (getp v ''instructions'') = Some (ps_instructions p)"
      "limit_field (\<lambda>xs. xs \<noteq> []) (array_field min_text) (getp v ''preferredModels'') = Some (ps_preferred p)"
      "default_field [] (array_field min_text) (getp v ''secondaryModels'') = Some (ps_secondary p)"
      "default_field [''*''] (array_field min_text) (getp v ''allowedTools'') = Some (ps_allowed p)"
      "default_field [] (limit_field (\<lambda>xs. length xs \<le> 64) (array_field mcp)) (getp v ''mcpServers'') = Some (ps_mcp p)"
      "default_field React parse_strategy (getp v ''loopStrategy'') = Some (ps_strategy p)"
      "default_field SequentialPartial parse_mode (getp v ''toolExecutionMode'') = Some (ps_mode p)"
      "default_field [] (array_field min_text) (getp v ''skillIds'') = Some (ps_skills p)"
      "opt_field parse_context (getp v ''contextMapStrategy'') = Some (ps_context p)"
      "opt_field (trimmed_text 16) (getp v ''avatar'') = Some (ps_avatar p)"
      "opt_field (pattern_text color_rx) (getp v ''color'') = Some (ps_color p)"
      "default_field [] (limit_field (\<lambda>xs. length xs \<le> 32) (array_field parse_template)) (getp v ''promptTemplates'') =
         Some (ps_templates p)"
      "default_field False bool_field (getp v ''archived'') = Some (ps_archived p)"
      "default_field False bool_field (getp v ''bundled'') = Some (ps_bundled p)"
      "distinct (map (\<lambda>m. getp m ''id'') (ps_mcp p)) \<and> distinct (map pt_id (ps_templates p))"
    using assms(2) by (auto simp: parse_persona_def Option.bind_eq_Some_conv split: if_splits)
  have arr: "default_field d (array_field min_text) (array_val VStr xs) = Some xs"
    if "default_field d (array_field min_text) w = Some xs" "all_some min_text (map VStr d) = Some d" for d w xs
    by (rule default_print [OF codec_array [OF codec_min_text] _ _ that(1)])
      (use that(2) in \<open>auto simp: array_field_def array_val_def\<close>)
  have lim: "default_field [] (limit_field ok (array_field q)) (array_val g xs) = Some xs"
    if "default_field [] (limit_field ok (array_field q)) w = Some xs" "codec q g" "ok []" for ok q g w xs
    by (rule default_print [OF codec_limit [OF codec_array [OF that(2)]] _ _ that(1)])
      (use that(3) in \<open>auto simp: limit_field_def array_field_def array_val_def\<close>)
  have enums: "parse_strategy (strategy_val React) = Some React" "parse_mode (mode_val SequentialPartial) = Some SequentialPartial"
      "bool_field (VBool False) = Some False" "strategy_val React \<noteq> VUndef" "mode_val SequentialPartial \<noteq> VUndef"
      "VBool False \<noteq> VUndef"
    by (simp_all add: parse_strategy_def strategy_val_def parse_mode_def mode_val_def bool_field_def)
  have star: "all_some min_text (map VStr [''*'']) = Some [''*'']"
    by (simp add: min_text_def)
  note fields = codecD [OF codec_pattern f(1)] codecD [OF codec_min_text f(2)] opt_print [OF codec_text f(3)]
    codecD [OF codec_min_text f(4)] codecD [OF codec_limit [OF codec_array [OF codec_min_text]] f(5)]
    arr [OF f(6)] arr [OF f(7) star] lim [OF f(8) assms(1)] default_print [OF codec_strategy enums(1, 4) f(9)]
    default_print [OF codec_mode enums(2, 5) f(10)] arr [OF f(11)] opt_print [OF codec_context f(12)]
    opt_print [OF codec_trimmed f(13)] opt_print [OF codec_pattern f(14)] lim [OF f(15) codec_template]
  show ?thesis
    unfolding persona_fields_ok_def using fields f(18) by simp
qed

lemma persona_reparses:
  "codec mcp id \<Longrightarrow> parse_persona mcp v = Some p \<Longrightarrow> parse_persona mcp (persona_val p) = Some p"
  by (rule persona_fields_parse [OF persona_fields])

section \<open>Skills\<close>

record skill =
  sk_id :: string
  sk_name :: string
  sk_description :: "string option"
  sk_instructions :: string
  sk_archived :: bool
  sk_bundled :: bool

definition skill_keys :: "string list" where
  "skill_keys = [''id'', ''name'', ''description'', ''instructions'', ''archived'', ''bundled'']"

definition skill_val :: "skill \<Rightarrow> jsval" where
  "skill_val k = object_of
     [(''id'', VStr (sk_id k)), (''name'', VStr (sk_name k)), (''description'', opt_val VStr (sk_description k)),
      (''instructions'', VStr (sk_instructions k)), (''archived'', VBool (sk_archived k)),
      (''bundled'', VBool (sk_bundled k))]"

definition parse_skill :: "jsval \<Rightarrow> skill option" where
  "parse_skill v =
     (if \<not> strict_object skill_keys v then None
      else Option.bind (pattern_text persona_id_rx (getp v ''id'')) (\<lambda>i.
           Option.bind (min_text (getp v ''name'')) (\<lambda>n.
           Option.bind (opt_field text_field (getp v ''description'')) (\<lambda>d.
           Option.bind (min_text (getp v ''instructions'')) (\<lambda>ins.
           Option.bind (default_field False bool_field (getp v ''archived'')) (\<lambda>ar.
           Option.bind (default_field False bool_field (getp v ''bundled'')) (\<lambda>bu.
             Some \<lparr>sk_id = i, sk_name = n, sk_description = d, sk_instructions = ins,
                   sk_archived = ar, sk_bundled = bu\<rparr>)))))))"

lemma skill_reparses:
  assumes "parse_skill v = Some k"
  shows "parse_skill (skill_val k) = Some k"
proof -
  have f: "pattern_text persona_id_rx (getp v ''id'') = Some (sk_id k)" "min_text (getp v ''name'') = Some (sk_name k)"
      "opt_field text_field (getp v ''description'') = Some (sk_description k)"
      "min_text (getp v ''instructions'') = Some (sk_instructions k)"
      "default_field False bool_field (getp v ''archived'') = Some (sk_archived k)"
      "default_field False bool_field (getp v ''bundled'') = Some (sk_bundled k)"
    using assms by (auto simp: parse_skill_def Option.bind_eq_Some_conv split: if_splits)
  have b: "bool_field (VBool False) = Some False" "VBool False \<noteq> VUndef"
    by (simp_all add: bool_field_def)
  note fields = codecD [OF codec_pattern f(1)] codecD [OF codec_min_text f(2)] opt_print [OF codec_text f(3)]
    codecD [OF codec_min_text f(4)] default_print [OF codec_bool b f(5)] default_print [OF codec_bool b f(6)]
  have g: "getp (skill_val k) ''id'' = VStr (sk_id k)" "getp (skill_val k) ''name'' = VStr (sk_name k)"
      "getp (skill_val k) ''description'' = opt_val VStr (sk_description k)"
      "getp (skill_val k) ''instructions'' = VStr (sk_instructions k)"
      "getp (skill_val k) ''archived'' = VBool (sk_archived k)" "getp (skill_val k) ''bundled'' = VBool (sk_bundled k)"
    unfolding skill_val_def by (simp_all add: getp_object_of) (simp_all add: getp_def obj_fields_def)
  have "strict_object skill_keys (skill_val k)"
    unfolding skill_val_def skill_keys_def by (rule strict_object_of) simp
  then show ?thesis
    unfolding parse_skill_def g using fields by simp
qed

section \<open>States and documents\<close>

record persona_state =
  pn_default :: string
  pn_personas :: "persona list"

text \<open>\<open>normalizeState\<close>: an object without a version is read as version 1.\<close>

definition with_version :: "jsval \<Rightarrow> jsval" where
  "with_version v =
     (case v of VObj fs \<Rightarrow> if jhas fs ''version'' then v else VObj (fs @ [(''version'', VNum (Fin 1))]) | _ \<Rightarrow> v)"

definition version_one :: "jsval \<Rightarrow> bool" where
  "version_one v = (getp v ''version'' = VNum (Fin 1))"

definition normalize_personas :: "(jsval \<Rightarrow> jsval option) \<Rightarrow> jsval \<Rightarrow> persona_state option" where
  "normalize_personas mcp c =
     (let v = with_version c in
      if \<not> strict_object [''version'', ''defaultPersonaId'', ''personas''] v \<or> \<not> version_one v then None
      else Option.bind (pattern_text persona_id_rx (getp v ''defaultPersonaId'')) (\<lambda>d.
           Option.bind (array_field (parse_persona mcp) (getp v ''personas'')) (\<lambda>ps.
             Some \<lparr>pn_default = d, pn_personas = ps\<rparr>)))"

definition personas_val :: "persona_state \<Rightarrow> jsval" where
  "personas_val s = object_of
     [(''version'', VNum (Fin 1)), (''defaultPersonaId'', VStr (pn_default s)),
      (''personas'', array_val persona_val (pn_personas s))]"

definition normalize_skills :: "jsval \<Rightarrow> skill list option" where
  "normalize_skills c =
     (let v = with_version c in
      if \<not> strict_object [''version'', ''skills''] v \<or> \<not> version_one v then None
      else array_field parse_skill (getp v ''skills''))"

definition skills_val :: "skill list \<Rightarrow> jsval" where
  "skills_val ks = object_of [(''version'', VNum (Fin 1)), (''skills'', array_val skill_val ks)]"

text \<open>States that a schema accepts unchanged.\<close>

definition personas_valid :: "(jsval \<Rightarrow> jsval option) \<Rightarrow> persona_state \<Rightarrow> bool" where
  "personas_valid mcp s \<longleftrightarrow>
     rx_match persona_id_rx (pn_default s) \<and>
     list_all (\<lambda>p. parse_persona mcp (persona_val p) = Some p) (pn_personas s)"

definition skills_valid :: "skill list \<Rightarrow> bool" where
  "skills_valid ks \<longleftrightarrow> list_all (\<lambda>k. parse_skill (skill_val k) = Some k) ks"

lemma all_some_map: "all_some f (map g xs) = Some xs \<longleftrightarrow> list_all (\<lambda>x. f (g x) = Some x) xs"
  by (induction xs) (auto simp: Option.bind_eq_Some_conv)

lemma all_some_each: "all_some f vs = Some xs \<Longrightarrow> (\<And>v x. f v = Some x \<Longrightarrow> P x) \<Longrightarrow> list_all P xs"
  by (induction vs arbitrary: xs) (auto simp: Option.bind_eq_Some_conv)

lemma versioned_object_of: "with_version (object_of ((''version'', VNum (Fin 1)) # fs)) = object_of ((''version'', VNum (Fin 1)) # fs)"
  by (simp add: with_version_def object_of_def jfilter_def)

lemma normalize_personas_val: "personas_valid mcp s \<Longrightarrow> normalize_personas mcp (personas_val s) = Some s"
proof -
  assume ok: "personas_valid mcp s"
  have g: "getp (personas_val s) ''version'' = VNum (Fin 1)" "getp (personas_val s) ''defaultPersonaId'' = VStr (pn_default s)"
      "getp (personas_val s) ''personas'' = array_val persona_val (pn_personas s)"
    unfolding personas_val_def by (simp_all add: getp_object_of) (simp_all add: getp_def obj_fields_def)
  have "strict_object [''version'', ''defaultPersonaId'', ''personas''] (personas_val s)"
    unfolding personas_val_def by (rule strict_object_of) simp
  moreover have "with_version (personas_val s) = personas_val s"
    unfolding personas_val_def by (rule versioned_object_of)
  moreover have "array_field (parse_persona mcp) (array_val persona_val (pn_personas s)) = Some (pn_personas s)"
    using ok by (simp add: personas_valid_def array_field_def array_val_def all_some_map)
  ultimately show ?thesis
    using ok by (simp add: normalize_personas_def g version_one_def pattern_text_def personas_valid_def)
qed

lemma normalize_personas_valid:
  assumes "codec mcp id" and "normalize_personas mcp v = Some s"
  shows "personas_valid mcp s"
proof -
  obtain ps where "array_field (parse_persona mcp) (getp (with_version v) ''personas'') = Some ps" "pn_personas s = ps"
      "pattern_text persona_id_rx (getp (with_version v) ''defaultPersonaId'') = Some (pn_default s)"
    using assms(2) by (auto simp: normalize_personas_def Let_def Option.bind_eq_Some_conv split: if_splits)
  then show ?thesis
    using persona_reparses [OF assms(1)] all_some_each [of "parse_persona mcp"]
    by (auto simp: personas_valid_def array_field_def pattern_text_def split: jsval.splits if_splits)
qed

lemma normalize_skills_val: "skills_valid ks \<Longrightarrow> normalize_skills (skills_val ks) = Some ks"
proof -
  assume ok: "skills_valid ks"
  have g: "getp (skills_val ks) ''version'' = VNum (Fin 1)" "getp (skills_val ks) ''skills'' = array_val skill_val ks"
    unfolding skills_val_def by (simp_all add: getp_object_of) (simp_all add: getp_def obj_fields_def)
  have "strict_object [''version'', ''skills''] (skills_val ks)"
    unfolding skills_val_def by (rule strict_object_of) simp
  moreover have "with_version (skills_val ks) = skills_val ks"
    unfolding skills_val_def by (rule versioned_object_of)
  ultimately show ?thesis
    using ok by (simp add: normalize_skills_def g version_one_def skills_valid_def array_field_def array_val_def all_some_map)
qed

lemma normalize_skills_valid: "normalize_skills v = Some ks \<Longrightarrow> skills_valid ks"
  using skill_reparses all_some_each [of parse_skill]
  by (auto simp: normalize_skills_def skills_valid_def Let_def array_field_def split: jsval.splits if_splits)

section \<open>The services\<close>

datatype document_error =
    NotInitialized
  | SchemaRejected
  | Unavailable string
  | AlreadyExists string
  | SystemNamespace
  | ImmutableIdentity
  | LastActivePersona
  | NoActivePersona
  | StoreFailed

text \<open>
  A service: its state, undefined before \<open>initialize\<close>, and the document in the store. \<open>stored\<close> tells
  whether the store accepts the write; a write that fails leaves the document as it was.
\<close>

record 's document =
  doc_state :: "'s option"
  doc_stored :: "jsval option"

definition new_document :: "jsval option \<Rightarrow> 's document" where
  "new_document v = \<lparr>doc_state = None, doc_stored = v\<rparr>"

text \<open>\<open>#persistState\<close> after the state was set: how \<open>initialize\<close> ends.\<close>

definition start_document ::
  "('s \<Rightarrow> jsval) \<Rightarrow> bool \<Rightarrow> 's \<Rightarrow> 's document \<Rightarrow> (document_error + unit) \<times> 's document" where
  "start_document encode stored st d =
     (if stored then (Inr (), \<lparr>doc_state = Some st, doc_stored = Some (encode st)\<rparr>)
      else (Inl StoreFailed, d\<lparr>doc_state := Some st\<rparr>))"

text \<open>\<open>#mutate\<close>: the state changes only after the store took the new document.\<close>

definition mutate ::
  "(jsval \<Rightarrow> 's option) \<Rightarrow> ('s \<Rightarrow> jsval) \<Rightarrow> bool \<Rightarrow> ('s \<Rightarrow> document_error + 'a \<times> 's) \<Rightarrow> 's document
    \<Rightarrow> (document_error + 'a) \<times> 's document" where
  "mutate reparse encode stored f d =
     (case doc_state d of
        None \<Rightarrow> (Inl NotInitialized, d)
      | Some st \<Rightarrow>
          (case f st of
             Inl e \<Rightarrow> (Inl e, d)
           | Inr (r, draft) \<Rightarrow>
               (case reparse (encode draft) of
                  None \<Rightarrow> (Inl SchemaRejected, d)
                | Some next_state \<Rightarrow>
                    if stored then (Inr r, \<lparr>doc_state = Some next_state, doc_stored = Some (encode next_state)\<rparr>)
                    else (Inl StoreFailed, d))))"

locale stored_document =
  fixes reparse :: "jsval \<Rightarrow> 's option"
    and encode :: "'s \<Rightarrow> jsval"
    and valid :: "'s \<Rightarrow> bool"
  assumes reparse_encode: "valid st \<Longrightarrow> reparse (encode st) = Some st"
    and reparse_valid: "reparse v = Some st \<Longrightarrow> valid st"
begin

definition in_step :: "'s document \<Rightarrow> bool" where
  "in_step d \<longleftrightarrow> (\<exists>st. doc_state d = Some st \<and> valid st \<and> doc_stored d = Some (encode st))"

lemma start_in_step: "valid st \<Longrightarrow> start_document encode True st d = (r, d') \<Longrightarrow> in_step d'"
  by (auto simp: start_document_def in_step_def)

lemma mutate_in_step:
  assumes "in_step d" and "mutate reparse encode stored f d = (r, d')"
  shows "in_step d'"
  using assms reparse_valid
  by (auto simp: mutate_def in_step_def split: option.splits sum.splits if_splits)

text \<open>What a change returns is what the mutation returned, and its draft is the next state.\<close>

lemma mutate_result:
  assumes "mutate reparse encode stored f d = (Inr r, d')"
  obtains st draft where "doc_state d = Some st" "f st = Inr (r, draft)" "reparse (encode draft) = doc_state d'"
    "doc_state d' \<noteq> None"
  using assms by (auto simp: mutate_def split: option.splits sum.splits if_splits)

lemma mutate_keeps:
  assumes "in_step d" and "P (the (doc_state d))" and "mutate reparse encode stored f d = (r, d')"
    and "\<And>st x draft. valid st \<Longrightarrow> P st \<Longrightarrow> f st = Inr (x, draft) \<Longrightarrow> valid draft \<and> P draft"
  shows "in_step d' \<and> P (the (doc_state d'))"
proof -
  obtain st where st: "doc_state d = Some st" "valid st" "doc_stored d = Some (encode st)"
    using assms(1) by (auto simp: in_step_def)
  show ?thesis
  proof (cases "f st")
    case (Inl e)
    then show ?thesis
      using assms(1-3) st by (simp add: mutate_def)
  next
    case (Inr xd)
    obtain x draft where xd: "f st = Inr (x, draft)"
      using Inr by (cases xd) simp
    have "valid draft \<and> P draft"
      using assms(4) [OF st(2) _ xd] assms(2) st(1) by simp
    then show ?thesis
      using assms(1-3) st xd reparse_encode [of draft]
      by (cases stored) (auto simp: mutate_def in_step_def)
  qed
qed

lemma mutate_error: "mutate reparse encode stored f d = (Inl e, d') \<Longrightarrow> d' = d"
  by (auto simp: mutate_def split: option.splits sum.splits if_splits)

end

section \<open>Personas: operations\<close>

definition DEFAULT_PERSONA_ID :: string where
  "DEFAULT_PERSONA_ID = ''system/general''"

definition bundled_general_persona :: persona where
  "bundled_general_persona =
     \<lparr>ps_id = DEFAULT_PERSONA_ID, ps_name = ''General'', ps_description = Some ''General-purpose local assistant'',
      ps_instructions = ''You are Borg, a careful local assistant. Be concise, use tools only when useful, and explain consequential actions.'',
      ps_preferred = [''borg.mock-llm:mock:scripted''], ps_secondary = [], ps_allowed = [''*''], ps_mcp = [],
      ps_strategy = React, ps_mode = SequentialPartial, ps_skills = [], ps_context = Some GeneralMap,
      ps_avatar = None, ps_color = None, ps_templates = [], ps_archived = False, ps_bundled = True\<rparr>"

definition has_active :: "string \<Rightarrow> persona list \<Rightarrow> bool" where
  "has_active i ps = list_ex (\<lambda>p. ps_id p = i \<and> \<not> ps_archived p) ps"

fun replace_first :: "('a \<Rightarrow> bool) \<Rightarrow> 'a \<Rightarrow> 'a list \<Rightarrow> 'a list" where
  "replace_first P y [] = []"
| "replace_first P y (x # xs) = (if P x then y # xs else x # replace_first P y xs)"

definition find_persona :: "string \<Rightarrow> persona list \<Rightarrow> persona option" where
  "find_persona i ps = List.find (\<lambda>p. ps_id p = i) ps"

text \<open>The repairs of \<open>initialize\<close>: the general persona is there, one persona is active, the default is active.\<close>

definition with_general :: "persona list \<Rightarrow> persona list" where
  "with_general ps =
     (if list_ex (\<lambda>p. ps_id p = DEFAULT_PERSONA_ID) ps then ps else ps @ [bundled_general_persona])"

definition with_active :: "persona list \<Rightarrow> persona list" where
  "with_active ps =
     (if list_ex (\<lambda>p. \<not> ps_archived p) ps then ps
      else case find_persona DEFAULT_PERSONA_ID ps of
        None \<Rightarrow> ps
      | Some g \<Rightarrow> replace_first (\<lambda>p. ps_id p = DEFAULT_PERSONA_ID) (g\<lparr>ps_archived := False\<rparr>) ps)"

definition repaired :: "persona_state \<Rightarrow> persona_state" where
  "repaired s =
     (let ps = with_active (with_general (pn_personas s)) in
      \<lparr>pn_default =
         (if has_active (pn_default s) ps then pn_default s
          else case List.find (\<lambda>p. \<not> ps_archived p) ps of None \<Rightarrow> pn_default s | Some p \<Rightarrow> ps_id p),
       pn_personas = ps\<rparr>)"

definition initialize_personas ::
  "(jsval \<Rightarrow> jsval option) \<Rightarrow> bool \<Rightarrow> persona_state document \<Rightarrow> (document_error + unit) \<times> persona_state document" where
  "initialize_personas mcp stored d =
     (case doc_stored d of
        None \<Rightarrow>
          start_document personas_val stored
            \<lparr>pn_default = DEFAULT_PERSONA_ID, pn_personas = [bundled_general_persona]\<rparr> d
      | Some v \<Rightarrow>
          (case normalize_personas mcp v of
             None \<Rightarrow> (Inl SchemaRejected, d)
           | Some s \<Rightarrow> start_document personas_val stored (repaired s) d))"

definition get_persona :: "string \<Rightarrow> persona_state document \<Rightarrow> document_error + persona option" where
  "get_persona i d =
     (case doc_state d of None \<Rightarrow> Inl NotInitialized | Some s \<Rightarrow> Inr (find_persona i (pn_personas s)))"

definition list_personas ::
  "(string \<Rightarrow> string \<Rightarrow> bool) \<Rightarrow> bool \<Rightarrow> persona_state document \<Rightarrow> document_error + persona list" where
  "list_personas le include_archived d =
     (case doc_state d of
        None \<Rightarrow> Inl NotInitialized
      | Some s \<Rightarrow>
          Inr (sort_by (\<lambda>l r. le (ps_name l) (ps_name r))
            (filter (\<lambda>p. include_archived \<or> \<not> ps_archived p) (pn_personas s))))"

definition get_default :: "persona_state document \<Rightarrow> document_error + persona" where
  "get_default d =
     (case doc_state d of
        None \<Rightarrow> Inl NotInitialized
      | Some s \<Rightarrow>
          (case List.find (\<lambda>p. ps_id p = pn_default s \<and> \<not> ps_archived p) (pn_personas s) of
             Some p \<Rightarrow> Inr p
           | None \<Rightarrow>
               (case List.find (\<lambda>p. ps_id p = DEFAULT_PERSONA_ID \<and> \<not> ps_archived p) (pn_personas s) of
                  Some p \<Rightarrow> Inr p
                | None \<Rightarrow> Inl NoActivePersona)))"

abbreviation change_personas ::
  "(jsval \<Rightarrow> jsval option) \<Rightarrow> bool \<Rightarrow> (persona_state \<Rightarrow> document_error + 'a \<times> persona_state)
    \<Rightarrow> persona_state document \<Rightarrow> (document_error + 'a) \<times> persona_state document" where
  "change_personas mcp \<equiv> mutate (normalize_personas mcp) personas_val"

definition set_default_draft :: "string \<Rightarrow> persona_state \<Rightarrow> document_error + persona \<times> persona_state" where
  "set_default_draft i s =
     (case List.find (\<lambda>p. ps_id p = i \<and> \<not> ps_archived p) (pn_personas s) of
        None \<Rightarrow> Inl (Unavailable i)
      | Some p \<Rightarrow> Inr (p, s\<lparr>pn_default := i\<rparr>))"

definition set_default_persona ::
  "(jsval \<Rightarrow> jsval option) \<Rightarrow> bool \<Rightarrow> string \<Rightarrow> persona_state document
    \<Rightarrow> (document_error + persona) \<times> persona_state document" where
  "set_default_persona mcp stored i d =
     (if \<not> rx_match persona_id_rx i then (Inl SchemaRejected, d)
      else change_personas mcp stored (set_default_draft i) d)"

text \<open>Spreading a candidate or a patch into an object literal.\<close>

definition spread :: "jsval \<Rightarrow> (string \<times> jsval) list \<Rightarrow> jsval" where
  "spread v fs = VObj (fold (\<lambda>(k, x) m. jset k x m) fs (obj_fields v))"

definition create_persona_draft ::
  "(jsval \<Rightarrow> jsval option) \<Rightarrow> jsval \<Rightarrow> persona_state \<Rightarrow> document_error + persona \<times> persona_state" where
  "create_persona_draft mcp candidate s =
     (case parse_persona mcp (spread candidate [(''bundled'', VBool False)]) of
        None \<Rightarrow> Inl SchemaRejected
      | Some p \<Rightarrow>
          if find_persona (ps_id p) (pn_personas s) \<noteq> None then Inl (AlreadyExists (ps_id p))
          else if js_starts_with ''system/'' (ps_id p) then Inl SystemNamespace
          else Inr (p, s\<lparr>pn_personas := pn_personas s @ [p]\<rparr>))"

definition create_persona ::
  "(jsval \<Rightarrow> jsval option) \<Rightarrow> bool \<Rightarrow> jsval \<Rightarrow> persona_state document
    \<Rightarrow> (document_error + persona) \<times> persona_state document" where
  "create_persona mcp stored candidate d = change_personas mcp stored (create_persona_draft mcp candidate) d"

definition update_persona_draft ::
  "(jsval \<Rightarrow> jsval option) \<Rightarrow> string \<Rightarrow> (string \<times> jsval) list \<Rightarrow> persona_state
    \<Rightarrow> document_error + persona \<times> persona_state" where
  "update_persona_draft mcp i patch s =
     (case find_persona i (pn_personas s) of
        None \<Rightarrow> Inl (Unavailable i)
      | Some current \<Rightarrow>
          if jhas patch ''id'' \<or> jhas patch ''bundled'' then Inl ImmutableIdentity
          else
            (case parse_persona mcp (spread (persona_val current) patch) of
               None \<Rightarrow> Inl SchemaRejected
             | Some updated \<Rightarrow>
                 let others = filter (\<lambda>p. ps_id p \<noteq> i \<and> \<not> ps_archived p) (pn_personas s) in
                 if ps_archived updated \<and> others = [] then Inl LastActivePersona
                 else
                   Inr (updated,
                     \<lparr>pn_default = (if ps_archived updated \<and> pn_default s = ps_id updated then ps_id (hd others)
                                   else pn_default s),
                      pn_personas = replace_first (\<lambda>p. ps_id p = i) updated (pn_personas s)\<rparr>)))"

definition update_persona ::
  "(jsval \<Rightarrow> jsval option) \<Rightarrow> bool \<Rightarrow> string \<Rightarrow> (string \<times> jsval) list \<Rightarrow> persona_state document
    \<Rightarrow> (document_error + persona) \<times> persona_state document" where
  "update_persona mcp stored i patch d =
     (if \<not> rx_match persona_id_rx i then (Inl SchemaRejected, d)
      else change_personas mcp stored (update_persona_draft mcp i patch) d)"

definition archive_persona ::
  "(jsval \<Rightarrow> jsval option) \<Rightarrow> bool \<Rightarrow> string \<Rightarrow> persona_state document
    \<Rightarrow> (document_error + persona) \<times> persona_state document" where
  "archive_persona mcp stored i d = update_persona mcp stored i [(''archived'', VBool True)] d"

section \<open>Skills: operations\<close>

definition initialize_skills :: "bool \<Rightarrow> skill list document \<Rightarrow> (document_error + unit) \<times> skill list document" where
  "initialize_skills stored d =
     (case doc_stored d of
        None \<Rightarrow> start_document skills_val stored [] d
      | Some v \<Rightarrow>
          (case normalize_skills v of
             None \<Rightarrow> (Inl SchemaRejected, d)
           | Some ks \<Rightarrow> start_document skills_val stored ks d))"

definition find_skill :: "string \<Rightarrow> skill list \<Rightarrow> skill option" where
  "find_skill i ks = List.find (\<lambda>k. sk_id k = i) ks"

definition list_skills ::
  "(string \<Rightarrow> string \<Rightarrow> bool) \<Rightarrow> bool \<Rightarrow> skill list document \<Rightarrow> document_error + skill list" where
  "list_skills le include_archived d =
     (case doc_state d of
        None \<Rightarrow> Inl NotInitialized
      | Some ks \<Rightarrow>
          Inr (sort_by (\<lambda>l r. le (sk_name l) (sk_name r)) (filter (\<lambda>k. include_archived \<or> \<not> sk_archived k) ks)))"

definition resolve_skills :: "string list \<Rightarrow> skill list document \<Rightarrow> document_error + skill list" where
  "resolve_skills ids d =
     (case doc_state d of
        None \<Rightarrow> if ids = [] then Inr [] else Inl NotInitialized
      | Some ks \<Rightarrow>
          Inr (List.map_filter
            (\<lambda>i. case find_skill i ks of
                   Some k \<Rightarrow> if sk_archived k then None else Some k
                 | None \<Rightarrow> None) ids))"

definition create_skill_draft :: "jsval \<Rightarrow> skill list \<Rightarrow> document_error + skill \<times> skill list" where
  "create_skill_draft candidate ks =
     (case parse_skill (spread candidate [(''bundled'', VBool False)]) of
        None \<Rightarrow> Inl SchemaRejected
      | Some k \<Rightarrow>
          if find_skill (sk_id k) ks \<noteq> None then Inl (AlreadyExists (sk_id k))
          else if js_starts_with ''system/'' (sk_id k) then Inl SystemNamespace
          else Inr (k, ks @ [k]))"

definition create_skill ::
  "bool \<Rightarrow> jsval \<Rightarrow> skill list document \<Rightarrow> (document_error + skill) \<times> skill list document" where
  "create_skill stored candidate d = mutate normalize_skills skills_val stored (create_skill_draft candidate) d"

definition update_skill_draft ::
  "string \<Rightarrow> (string \<times> jsval) list \<Rightarrow> skill list \<Rightarrow> document_error + skill \<times> skill list" where
  "update_skill_draft i patch ks =
     (case find_skill i ks of
        None \<Rightarrow> Inl (Unavailable i)
      | Some current \<Rightarrow>
          if jhas patch ''id'' \<or> jhas patch ''bundled'' then Inl ImmutableIdentity
          else
            (case parse_skill (spread (skill_val current) patch) of
               None \<Rightarrow> Inl SchemaRejected
             | Some updated \<Rightarrow> Inr (updated, replace_first (\<lambda>k. sk_id k = i) updated ks)))"

definition update_skill ::
  "bool \<Rightarrow> string \<Rightarrow> (string \<times> jsval) list \<Rightarrow> skill list document
    \<Rightarrow> (document_error + skill) \<times> skill list document" where
  "update_skill stored i patch d =
     (if \<not> rx_match persona_id_rx i then (Inl SchemaRejected, d)
      else mutate normalize_skills skills_val stored (update_skill_draft i patch) d)"

definition archive_skill ::
  "bool \<Rightarrow> string \<Rightarrow> skill list document \<Rightarrow> (document_error + skill) \<times> skill list document" where
  "archive_skill stored i d = update_skill stored i [(''archived'', VBool True)] d"

section \<open>The state and the document agree\<close>

lemma persona_document: "codec mcp id \<Longrightarrow> stored_document (normalize_personas mcp) personas_val (personas_valid mcp)"
  by unfold_locales (auto intro: normalize_personas_val normalize_personas_valid)

interpretation skills: stored_document normalize_skills skills_val skills_valid
  by unfold_locales (auto intro: normalize_skills_val normalize_skills_valid)

lemma parse_persona_id: "parse_persona mcp v = Some p \<Longrightarrow> rx_match persona_id_rx (ps_id p)"
  by (auto simp: parse_persona_def Option.bind_eq_Some_conv pattern_text_def split: if_splits jsval.splits)

lemma valid_persona:
  "personas_valid mcp s \<Longrightarrow> p \<in> set (pn_personas s) \<Longrightarrow>
     parse_persona mcp (persona_val p) = Some p \<and> rx_match persona_id_rx (ps_id p)"
  using parse_persona_id by (fastforce simp: personas_valid_def list_all_iff)

lemma bundled_general_valid: "parse_persona mcp (persona_val bundled_general_persona) = Some bundled_general_persona"
proof -
  have "rx_match persona_id_rx DEFAULT_PERSONA_ID" by code_simp
  then show ?thesis
    unfolding parse_persona_def getp_persona_val using strict_persona_val [of bundled_general_persona]
    by (simp add: bundled_general_persona_def pattern_text_def min_text_def opt_field_def opt_val_def text_field_def
        str_of_def limit_field_def array_field_def array_val_def default_field_def strategy_val_def parse_strategy_def
        mode_val_def parse_mode_def context_val_def parse_context_def bool_field_def)
qed

definition personas_ok :: "persona_state \<Rightarrow> bool" where
  "personas_ok s \<longleftrightarrow> has_active (pn_default s) (pn_personas s) \<and> find_persona DEFAULT_PERSONA_ID (pn_personas s) \<noteq> None"

lemma find_None: "List.find P xs = None \<longleftrightarrow> list_all (\<lambda>x. \<not> P x) xs"
  by (induction xs) auto

lemma find_Some: "List.find P xs = Some x \<Longrightarrow> x \<in> set xs \<and> P x"
  by (induction xs) (auto split: if_splits)

lemma find_append: "List.find P (xs @ ys) = (case List.find P xs of None \<Rightarrow> List.find P ys | Some x \<Rightarrow> Some x)"
  by (induction xs) auto

lemma set_replace_first: "set (replace_first P y xs) \<subseteq> insert y (set xs)"
  by (induction xs) auto

lemma in_replace_first: "x \<in> set xs \<Longrightarrow> \<not> P x \<Longrightarrow> x \<in> set (replace_first P y xs)"
  by (induction xs) auto

lemma new_in_replace_first: "List.find P xs \<noteq> None \<Longrightarrow> y \<in> set (replace_first P y xs)"
  by (induction xs) (auto split: if_splits)

lemma find_replace_first:
  "List.find Q xs \<noteq> None \<Longrightarrow> (\<And>x. x \<in> set xs \<Longrightarrow> P x \<Longrightarrow> Q x \<Longrightarrow> Q y) \<Longrightarrow>
     List.find Q (replace_first P y xs) \<noteq> None"
  by (induction xs) (auto split: if_splits)

lemma has_active_iff: "has_active i ps \<longleftrightarrow> (\<exists>p \<in> set ps. ps_id p = i \<and> \<not> ps_archived p)"
  by (auto simp: has_active_def list_ex_iff)

lemma repaired_ok:
  assumes "codec mcp id" and "personas_valid mcp s"
  shows "personas_valid mcp (repaired s) \<and> personas_ok (repaired s)"
proof -
  let ?v = "\<lambda>p. parse_persona mcp (persona_val p) = Some p"
  define g where "g = with_general (pn_personas s)"
  have g: "\<forall>p \<in> set g. ?v p" "find_persona DEFAULT_PERSONA_ID g \<noteq> None"
    using assms(2) bundled_general_valid
    by (auto simp: g_def with_general_def personas_valid_def find_persona_def find_None list_all_iff list_ex_iff
        bundled_general_persona_def)
  have archived: "?v (p\<lparr>ps_archived := False\<rparr>)" if "?v p" for p
    using persona_fields [OF assms(1) that] by (intro persona_fields_parse) (simp add: persona_fields_ok_def)
  define ps where "ps = with_active g"
  have ps: "\<forall>p \<in> set ps. ?v p" "find_persona DEFAULT_PERSONA_ID ps \<noteq> None" "\<exists>p \<in> set ps. \<not> ps_archived p"
  proof -
    obtain q where q: "find_persona DEFAULT_PERSONA_ID g = Some q"
      using g(2) by blast
    have q': "q \<in> set g" "ps_id q = DEFAULT_PERSONA_ID"
      using find_Some [OF q [unfolded find_persona_def]] by simp_all
    let ?r = "replace_first (\<lambda>p. ps_id p = DEFAULT_PERSONA_ID) (q\<lparr>ps_archived := False\<rparr>) g"
    have "q\<lparr>ps_archived := False\<rparr> \<in> set ?r"
      using q by (intro new_in_replace_first) (simp add: find_persona_def)
    moreover have "find_persona DEFAULT_PERSONA_ID ?r \<noteq> None"
      unfolding find_persona_def using q q'(2) by (intro find_replace_first) (auto simp: find_persona_def)
    moreover have "\<forall>p \<in> set ?r. ?v p"
      using set_replace_first g(1) q'(1) archived by fastforce
    moreover have "\<exists>p \<in> set ?r. \<not> ps_archived p"
      using calculation(1) by (intro bexI [of _ "q\<lparr>ps_archived := False\<rparr>"]) simp_all
    ultimately show "\<forall>p \<in> set ps. ?v p" "find_persona DEFAULT_PERSONA_ID ps \<noteq> None" "\<exists>p \<in> set ps. \<not> ps_archived p"
      using g q by (auto simp: ps_def with_active_def list_ex_iff)
  qed
  obtain a where a: "List.find (\<lambda>p. \<not> ps_archived p) ps = Some a"
    using ps(3) by (cases "List.find (\<lambda>p. \<not> ps_archived p) ps") (auto simp: find_None list_all_iff)
  have a': "a \<in> set ps" "\<not> ps_archived a"
    using find_Some [OF a] by simp_all
  have "repaired s = \<lparr>pn_default = (if has_active (pn_default s) ps then pn_default s else ps_id a), pn_personas = ps\<rparr>"
    using a by (simp add: repaired_def ps_def g_def Let_def)
  then show ?thesis
    using ps a' assms(2) parse_persona_id by (fastforce simp: personas_valid_def personas_ok_def has_active_iff list_all_iff)
qed

lemma repaired_id:
  assumes "personas_ok s"
  shows "repaired s = s"
proof -
  have "list_ex (\<lambda>p. ps_id p = DEFAULT_PERSONA_ID) (pn_personas s)" "list_ex (\<lambda>p. \<not> ps_archived p) (pn_personas s)"
    using assms by (auto simp: personas_ok_def find_persona_def find_None list_ex_iff list_all_iff has_active_iff)
  then show ?thesis
    using assms by (simp add: repaired_def with_general_def with_active_def personas_ok_def Let_def)
qed

definition personas_in_step :: "(jsval \<Rightarrow> jsval option) \<Rightarrow> persona_state document \<Rightarrow> bool" where
  "personas_in_step mcp d \<longleftrightarrow>
     (\<exists>s. doc_state d = Some s \<and> personas_valid mcp s \<and> doc_stored d = Some (personas_val s) \<and> personas_ok s)"

lemma in_step_iff:
  assumes "codec mcp id"
  shows "personas_in_step mcp d \<longleftrightarrow>
    stored_document.in_step personas_val (personas_valid mcp) d \<and> personas_ok (the (doc_state d))"
  unfolding stored_document.in_step_def [OF persona_document [OF assms]] personas_in_step_def by auto

lemma initialize_ok:
  assumes "codec mcp id" and "initialize_personas mcp True d = (Inr u, d')"
  shows "personas_in_step mcp d'"
proof (cases "doc_stored d")
  case None
  have "rx_match persona_id_rx DEFAULT_PERSONA_ID" by code_simp
  then show ?thesis
    using None assms(2) bundled_general_valid [of mcp]
    by (auto simp: initialize_personas_def start_document_def personas_in_step_def personas_valid_def personas_ok_def
        has_active_def find_persona_def bundled_general_persona_def)
next
  case (Some v)
  then obtain s where s: "normalize_personas mcp v = Some s"
    using assms(2) by (auto simp: initialize_personas_def split: option.splits)
  then have "doc_state d' = Some (repaired s)" "doc_stored d' = Some (personas_val (repaired s))"
    using Some assms(2) by (auto simp: initialize_personas_def start_document_def)
  then show ?thesis
    using repaired_ok [OF assms(1) normalize_personas_valid [OF assms(1) s]] by (simp add: personas_in_step_def)
qed

lemma set_default_draft_ok:
  assumes "personas_valid mcp s" and "personas_ok s" and "rx_match persona_id_rx i"
    and "set_default_draft i s = Inr (p, draft)"
  shows "personas_valid mcp draft \<and> personas_ok draft"
proof -
  have f: "List.find (\<lambda>p. ps_id p = i \<and> \<not> ps_archived p) (pn_personas s) = Some p" and d: "draft = s\<lparr>pn_default := i\<rparr>"
    using assms(4) by (auto simp: set_default_draft_def split: option.splits)
  show ?thesis
    using find_Some [OF f] assms(1-3) by (auto simp: d personas_valid_def personas_ok_def has_active_iff)
qed

lemma create_persona_draft_ok:
  assumes "codec mcp id" and "personas_valid mcp s" and "personas_ok s"
    and "create_persona_draft mcp c s = Inr (p, draft)"
  shows "personas_valid mcp draft \<and> personas_ok draft"
  using assms persona_reparses [OF assms(1)]
  by (auto simp: create_persona_draft_def personas_valid_def personas_ok_def has_active_iff find_persona_def find_append
      split: option.splits if_splits)

lemma update_persona_id:
  assumes "parse_persona mcp (spread (persona_val q) patch) = Some u" and "\<not> jhas patch ''id''"
  shows "ps_id u = ps_id q"
proof -
  have other: "getp (spread v patch) k = getp v k" if "\<not> jhas patch k" for v k
  proof -
    have "jget (fold (\<lambda>(k, x) m. jset k x m) patch fs) k = jget fs k" for fs
      using that by (induction patch arbitrary: fs) (auto split: if_splits)
    then show ?thesis
      by (simp add: spread_def getp_def obj_fields_def)
  qed
  have "pattern_text persona_id_rx (getp (spread (persona_val q) patch) ''id'') = Some (ps_id u)"
    using assms(1) by (auto simp: parse_persona_def Option.bind_eq_Some_conv split: if_splits)
  then show ?thesis
    using other [OF assms(2)] by (simp add: getp_persona_val pattern_text_def split: if_splits)
qed

lemma update_persona_draft_ok:
  assumes "codec mcp id" and "personas_valid mcp s" and "personas_ok s"
    and "update_persona_draft mcp i patch s = Inr (u, draft)"
  shows "personas_valid mcp draft \<and> personas_ok draft"
proof -
  define others where "others = filter (\<lambda>p. ps_id p \<noteq> i \<and> \<not> ps_archived p) (pn_personas s)"
  obtain q where q: "find_persona i (pn_personas s) = Some q" and noid: "\<not> jhas patch ''id''"
    and u: "parse_persona mcp (spread (persona_val q) patch) = Some u"
    and keep: "ps_archived u \<longrightarrow> others \<noteq> []"
    and draft: "draft = \<lparr>pn_default = (if ps_archived u \<and> pn_default s = ps_id u then ps_id (hd others) else pn_default s),
       pn_personas = replace_first (\<lambda>p. ps_id p = i) u (pn_personas s)\<rparr>"
    using assms(4) by (auto simp: update_persona_draft_def others_def Let_def split: option.splits if_splits)
  let ?ps = "replace_first (\<lambda>p. ps_id p = i) u (pn_personas s)"
  have qi: "ps_id q = i" "q \<in> set (pn_personas s)"
    using find_Some [OF q [unfolded find_persona_def]] by simp_all
  have ui: "ps_id u = i"
    using update_persona_id [OF u noid] qi by simp
  have valid: "\<forall>p \<in> set ?ps. parse_persona mcp (persona_val p) = Some p"
    using set_replace_first persona_reparses [OF assms(1) u] assms(2) by (fastforce simp: personas_valid_def list_all_iff)
  have uin: "u \<in> set ?ps"
    using q by (intro new_in_replace_first) (simp add: find_persona_def)
  have general: "find_persona DEFAULT_PERSONA_ID ?ps \<noteq> None"
    unfolding find_persona_def using assms(3) ui by (intro find_replace_first) (auto simp: personas_ok_def find_persona_def)
  have hd_other: "hd others \<in> set ?ps" "\<not> ps_archived (hd others)" "ps_id (hd others) \<noteq> i" if "ps_archived u"
  proof -
    have "hd others \<in> set others"
      using keep that by simp
    then have "hd others \<in> set (pn_personas s)" "\<not> ps_archived (hd others)" "ps_id (hd others) \<noteq> i"
      by (simp_all add: others_def)
    then show "hd others \<in> set ?ps" "\<not> ps_archived (hd others)" "ps_id (hd others) \<noteq> i"
      by (simp_all add: in_replace_first)
  qed
  obtain a where a: "a \<in> set (pn_personas s)" "ps_id a = pn_default s" "\<not> ps_archived a"
    using assms(3) by (auto simp: personas_ok_def has_active_iff)
  have active: "has_active (pn_default draft) ?ps"
  proof (cases "pn_default s = i")
    case True
    show ?thesis
    proof (cases "ps_archived u")
      case True
      then show ?thesis
        using hd_other \<open>pn_default s = i\<close> ui unfolding has_active_iff draft
        by (intro bexI [of _ "hd others"]) simp_all
    next
      case False
      then show ?thesis
        using uin ui \<open>pn_default s = i\<close> unfolding has_active_iff draft by (intro bexI [of _ u]) simp_all
    qed
  next
    case False
    then show ?thesis
      using a in_replace_first [OF a(1), of "\<lambda>p. ps_id p = i" u] ui unfolding has_active_iff draft
      by (intro bexI [of _ a]) simp_all
  qed
  obtain b where "b \<in> set ?ps" "ps_id b = pn_default draft"
    using active unfolding has_active_iff by blast
  then have "rx_match persona_id_rx (pn_default draft)"
    using valid parse_persona_id by metis
  then show ?thesis
    using valid general active by (simp add: draft personas_valid_def personas_ok_def list_all_iff)
qed

text \<open>Any sequence of changes, each with the answer of the store to its write.\<close>

datatype persona_op =
    SetDefaultPersona bool string
  | CreatePersona bool jsval
  | UpdatePersona bool string "(string \<times> jsval) list"

fun persona_step :: "(jsval \<Rightarrow> jsval option) \<Rightarrow> persona_op \<Rightarrow> persona_state document \<Rightarrow> persona_state document" where
  "persona_step mcp (SetDefaultPersona stored i) d = snd (set_default_persona mcp stored i d)"
| "persona_step mcp (CreatePersona stored c) d = snd (create_persona mcp stored c d)"
| "persona_step mcp (UpdatePersona stored i patch) d = snd (update_persona mcp stored i patch d)"

definition persona_run ::
  "(jsval \<Rightarrow> jsval option) \<Rightarrow> persona_op list \<Rightarrow> persona_state document \<Rightarrow> persona_state document" where
  "persona_run mcp ops d = fold (persona_step mcp) ops d"

lemma change_ok:
  assumes "codec mcp id" and "personas_in_step mcp d"
    and "\<And>s p draft. personas_valid mcp s \<Longrightarrow> personas_ok s \<Longrightarrow> f s = Inr (p, draft) \<Longrightarrow>
           personas_valid mcp draft \<and> personas_ok draft"
  shows "personas_in_step mcp (snd (change_personas mcp stored f d))"
proof -
  have d: "stored_document.in_step personas_val (personas_valid mcp) d" "personas_ok (the (doc_state d))"
    using assms(2) unfolding in_step_iff [OF assms(1)] by simp_all
  show ?thesis
    unfolding in_step_iff [OF assms(1)]
    by (rule stored_document.mutate_keeps [OF persona_document [OF assms(1)], where P = personas_ok and d = d,
          OF d prod.collapse [symmetric]])
      (rule assms(3))
qed

lemma persona_step_ok: "codec mcp id \<Longrightarrow> personas_in_step mcp d \<Longrightarrow> personas_in_step mcp (persona_step mcp op d)"
proof (cases op)
  case (SetDefaultPersona stored i)
  assume a: "codec mcp id" "personas_in_step mcp d"
  show ?thesis
  proof (cases "rx_match persona_id_rx i")
    case True
    have "personas_in_step mcp (snd (change_personas mcp stored (set_default_draft i) d))"
      by (rule change_ok [OF a]) (rule set_default_draft_ok [OF _ _ True])
    then show ?thesis
      using True unfolding SetDefaultPersona persona_step.simps set_default_persona_def by simp
  next
    case False
    then show ?thesis
      using a(2) unfolding SetDefaultPersona persona_step.simps set_default_persona_def by simp
  qed
next
  case (CreatePersona stored c)
  assume a: "codec mcp id" "personas_in_step mcp d"
  show ?thesis
    unfolding CreatePersona persona_step.simps create_persona_def
    by (rule change_ok [OF a]) (rule create_persona_draft_ok [OF a(1)])
next
  case (UpdatePersona stored i patch)
  assume a: "codec mcp id" "personas_in_step mcp d"
  have "personas_in_step mcp (snd (change_personas mcp stored (update_persona_draft mcp i patch) d))"
    by (rule change_ok [OF a]) (rule update_persona_draft_ok [OF a(1)])
  then show ?thesis
    using a(2) unfolding UpdatePersona persona_step.simps update_persona_def by simp
qed

lemma persona_run_ok: "codec mcp id \<Longrightarrow> personas_in_step mcp d \<Longrightarrow> personas_in_step mcp (persona_run mcp ops d)"
  unfolding persona_run_def by (induction ops arbitrary: d) (simp_all add: persona_step_ok)

section \<open>Properties\<close>

text \<open>
  C37: once the persona service is initialised, whatever is created, changed and archived and whichever
  writes fail, there is an active default persona, and it is the one the state names.
\<close>

theorem default_always_active:
  assumes "codec mcp id" and "initialize_personas mcp True d = (Inr u, d0)" and "d' = persona_run mcp ops d0"
  shows "\<exists>s p. doc_state d' = Some s \<and> get_default d' = Inr p \<and> p \<in> set (pn_personas s) \<and> ps_id p = pn_default s \<and>
    \<not> ps_archived p"
proof -
  obtain s where s: "doc_state d' = Some s" "has_active (pn_default s) (pn_personas s)"
    using persona_run_ok [OF assms(1) initialize_ok [OF assms(1, 2)]] assms(3)
    by (auto simp: personas_in_step_def personas_ok_def)
  obtain p where p: "List.find (\<lambda>p. ps_id p = pn_default s \<and> \<not> ps_archived p) (pn_personas s) = Some p"
    using s(2) by (cases "List.find (\<lambda>p. ps_id p = pn_default s \<and> \<not> ps_archived p) (pn_personas s)")
      (auto simp: find_None has_active_iff list_all_iff)
  show ?thesis
    using s(1) p find_Some [OF p] by (auto simp: get_default_def)
qed

definition sample_persona :: jsval where
  "sample_persona = VObj [(''id'', VStr ''me/x''), (''name'', VStr ''X''), (''instructions'', VStr ''Do.''),
     (''preferredModels'', VArr [VStr ''m''])]"

theorem default_always_active_witness:
  "\<exists>p. get_default (persona_run (\<lambda>v. None) [CreatePersona True sample_persona, UpdatePersona True ''system/general''
     [(''archived'', VBool True)]] (snd (initialize_personas (\<lambda>v. None) True (new_document None)))) = Inr p \<and>
     ps_id p = ''me/x''"
proof -
  let ?d = "snd (initialize_personas (\<lambda>v. None) True (new_document None))"
  let ?e = "persona_run (\<lambda>v. None) [CreatePersona True sample_persona, UpdatePersona True ''system/general''
     [(''archived'', VBool True)]] ?d"
  have c: "codec (\<lambda>v. None) id"
    by (simp add: codec_def)
  have i: "initialize_personas (\<lambda>v. None) True (new_document None) = (Inr (), ?d)"
    by (simp add: initialize_personas_def new_document_def start_document_def)
  have e: "map_option pn_default (doc_state ?e) = Some ''me/x''"
    by code_simp
  obtain s p where "doc_state ?e = Some s" "get_default ?e = Inr p" "ps_id p = pn_default s"
    using default_always_active [OF c i refl] by blast
  then show ?thesis
    using e by auto
qed

text \<open>
  C38: a restart changes nothing: initialising from the stored document gives the personas and the default that
  were there before, and writes the same document again.
\<close>

theorem persona_restart:
  assumes "codec mcp id" and "initialize_personas mcp True d = (Inr u, d0)" and "d' = persona_run mcp ops d0"
  shows "initialize_personas mcp True (new_document (doc_stored d')) = (Inr (), d')"
proof -
  obtain s where s: "doc_state d' = Some s" "personas_valid mcp s" "doc_stored d' = Some (personas_val s)" "personas_ok s"
    using persona_run_ok [OF assms(1) initialize_ok [OF assms(1, 2)]] assms(3) by (auto simp: personas_in_step_def)
  then show ?thesis
    using normalize_personas_val [OF s(2)] repaired_id [OF s(4)]
    by (cases d') (simp add: initialize_personas_def new_document_def start_document_def)
qed

theorem persona_restart_witness:
  "initialize_personas (\<lambda>v. None) True (new_document (doc_stored
     (persona_run (\<lambda>v. None) [CreatePersona True sample_persona] (snd (initialize_personas (\<lambda>v. None) True (new_document None)))))) =
   (Inr (), persona_run (\<lambda>v. None) [CreatePersona True sample_persona]
     (snd (initialize_personas (\<lambda>v. None) True (new_document None))))"
proof (rule persona_restart)
  show "codec (\<lambda>v. None) id"
    by (simp add: codec_def)
  show "initialize_personas (\<lambda>v. None) True (new_document None) =
      (Inr (), snd (initialize_personas (\<lambda>v. None) True (new_document None)))"
    by (simp add: initialize_personas_def new_document_def start_document_def)
qed (rule refl)

text \<open>
  A skill that was created is found again after a restart, as long as nothing else was written.
\<close>

theorem created_skill_restart:
  assumes "initialize_skills True d = (Inr u, d0)" and "create_skill True c d0 = (Inr k, d1)"
    and "initialize_skills True (new_document (doc_stored d1)) = (r, d2)"
  shows "r = Inr () \<and> resolve_skills [sk_id k] d2 = Inr (if sk_archived k then [] else [k])"
proof -
  obtain ks where "skills_valid ks" "start_document skills_val True ks d = (Inr u, d0)"
    using assms(1) normalize_skills_valid
    by (auto simp: initialize_skills_def skills_valid_def start_document_def split: option.splits)
  then have d0: "skills.in_step d0"
    using skills.start_in_step by blast
  obtain ks draft where ks: "doc_state d0 = Some ks" "create_skill_draft c ks = Inr (k, draft)"
      "normalize_skills (skills_val draft) = doc_state d1"
    by (rule skills.mutate_result [OF assms(2) [unfolded create_skill_def]])
  have draft: "draft = ks @ [k]" "find_skill (sk_id k) ks = None" "parse_skill (skill_val k) = Some k"
    using ks(2) skill_reparses by (auto simp: create_skill_draft_def split: option.splits if_splits)
  have "skills_valid ks"
    using d0 ks(1) by (auto simp: skills.in_step_def)
  then have "skills_valid (ks @ [k])"
    using draft(3) by (simp add: skills_valid_def)
  then have n: "normalize_skills (skills_val (ks @ [k])) = Some (ks @ [k])"
    by (rule normalize_skills_val)
  have "doc_stored d1 = Some (skills_val (ks @ [k]))"
    using skills.mutate_in_step [OF d0 assms(2) [unfolded create_skill_def]] ks(3) n draft(1)
    by (auto simp: skills.in_step_def)
  then have "r = Inr ()" "doc_state d2 = Some (ks @ [k])"
    using assms(3) n by (auto simp: initialize_skills_def new_document_def start_document_def)
  then show ?thesis
    using draft(2) by (simp add: resolve_skills_def find_skill_def find_append List.map_filter_def)
qed

theorem created_skill_restart_witness:
  "\<exists>d2. initialize_skills True (new_document (doc_stored (snd (create_skill True
     (VObj [(''id'', VStr ''me/s''), (''name'', VStr ''S''), (''instructions'', VStr ''Do.'')])
     (snd (initialize_skills True (new_document None))))))) = (Inr (), d2) \<and>
     map_sum id (map sk_id) (resolve_skills [''me/s''] d2) = Inr [''me/s'']"
proof -
  let ?d0 = "snd (initialize_skills True (new_document None))"
  let ?c = "VObj [(''id'', VStr ''me/s''), (''name'', VStr ''S''), (''instructions'', VStr ''Do.'')]"
  let ?k = "\<lparr>sk_id = ''me/s'', sk_name = ''S'', sk_description = None, sk_instructions = ''Do.'', sk_archived = False,
      sk_bundled = False\<rparr>"
  have a: "initialize_skills True (new_document None) = (Inr (), ?d0)"
    by (simp add: initialize_skills_def new_document_def start_document_def)
  have "fst (create_skill True ?c ?d0) = Inr ?k"
    by code_simp
  then have b: "create_skill True ?c ?d0 = (Inr ?k, snd (create_skill True ?c ?d0))"
    by (metis prod.collapse)
  obtain r d2 where r: "initialize_skills True (new_document (doc_stored (snd (create_skill True ?c ?d0)))) = (r, d2)"
    by fastforce
  have "r = Inr ()" "resolve_skills [''me/s''] d2 = Inr [?k]"
    using created_skill_restart [OF a b r] by simp_all
  then show ?thesis
    using r by (intro exI [of _ d2]) simp
qed

end
