(* ===== verification/Spec2Isabelle.thy ===== *)
theory Spec2Isabelle
  imports Trust Execution_Security Distribution Scheduler Json_Schema Command_Bus Tool_Registry Tool_Invoke
    Plugin_Manager Workspace Prompts
begin

text \<open>
  A model of the kernel of Borg, a host for agent plugins (\<open>packages/kernel/src\<close>, with the schemas of
  \<open>packages/contracts/src/index.ts\<close> and \<open>packages/plugin-sdk/src/index.ts\<close>), and theorems about it.

  \<^bold>\<open>The program.\<close> Plugins register commands, events, tools, scanners and schedules with the services of
  the kernel. A run of an agent carries a data classification, which only rises; tools that leave the
  machine have a capacity, and the trust authorizer decides from policy, classification, scans and
  remembered answers whether a call runs silently, asks the user or is refused. Executions tie runs,
  jobs and their children together so that results carry their classification with them.

  \<^bold>\<open>Theories and sources\<close> (files are in \<open>packages/kernel/src\<close> unless a directory is given):
  \<^item> \<open>Prelude\<close>: insertion-ordered maps, results, JavaScript strings, stable sorting, and the locale of
    registries that hand out tokens. \<open>Regex\<close>: regular expressions and their matcher, for the patterns of
    the schemas. \<open>Json\<close>: the values of JavaScript that the schemas see.
  \<^item> \<open>Classification\<close>: \<open>classification-service.ts\<close>; the levels, their order, and the record of each run.
  \<^item> \<open>Execution_Security\<close>: \<open>execution-security.ts\<close>; execution contexts, parent grants, binding, merging and
    importing of results, commits at a checked level.
  \<^item> \<open>Approval_Grants\<close>, \<open>Scanner\<close>, \<open>Interaction\<close>, \<open>Trust\<close>: \<open>approval-grants.ts\<close>, \<open>scanner-registry.ts\<close>,
    \<open>interaction-service.ts\<close>, \<open>trust-authorizer.ts\<close>; \<open>Trust\<close> composes the other three.
  \<^item> \<open>Tool_Registry\<close>, \<open>Tool_Invoke\<close>: \<open>tool-service.ts\<close>; registration, policies of runs with dynamic catalogs,
    and the phases of one invocation, which composes \<open>Trust\<close>, \<open>Classification\<close>, \<open>Scanner\<close> and
    \<open>Execution_Security\<close>.
  \<^item> \<open>Scheduler\<close>, \<open>Cron\<close>: \<open>scheduler-core.ts\<close>, \<open>cron.ts\<close>.
  \<^item> \<open>Command_Bus\<close>: \<open>command-event-bus.ts\<close>. \<open>Json_Schema\<close>: \<open>json-schema.ts\<close>.
  \<^item> \<open>Engine_Range\<close>, \<open>Distribution\<close>: \<open>engine-range.ts\<close>, \<open>distribution.ts\<close> and \<open>plugin-enablement.ts\<close>.
  \<^item> \<open>Plugin_Manager\<close>: \<open>plugin-manager.ts\<close>; manifests, activation, deactivation, enabling.
  \<^item> \<open>File_System\<close>, \<open>Workspace\<close>: \<open>workspace-service.ts\<close>, over a model of the paths, links and directories
    that it uses of \<open>node:fs\<close> and \<open>node:path\<close>.
  \<^item> \<open>Persona\<close>: \<open>persona-service.ts\<close> and \<open>skill-service.ts\<close>, with their schemas. \<open>Prompts\<close>:
    \<open>prompt-assembler.ts\<close> and \<open>memory-facade.ts\<close>.

  \<^bold>\<open>How code becomes definitions.\<close> A class is a record of its private fields, a method a function from the
  record to a result and the record. What the code throws is \<open>Inl\<close> of an error of the component. A method
  that awaits is split at the awaits that other operations can get between; the pieces are operations of
  their own, and the runs of a component (\<open>..._run\<close>) are lists of operations in any order, so properties of
  runs hold whatever is interleaved. Object identity is a natural number drawn from a counter of the state.
  Clocks, random identifiers, hashes, timers, plugin functions and stores are arguments or operations of the
  environment. Strings are lists of characters below 256. JavaScript numbers are integers or rationals, as
  each theory says where it uses them.

  \<^bold>\<open>What the lemmas show.\<close> Each theory proves an invariant of its state for every operation (\<open>..._ok\<close>), lifts
  it to runs, and draws its properties from it. \<open>Trust\<close> relates the code to a declarative specification
  that shares none of its helpers for reviews and levels, \<open>Json_Schema\<close> to a semantics of schemas without order
  and budgets, \<open>Scanner\<close> to the answers of the scanners,
  \<open>Engine_Range\<close> to the precedence of semantic versions, \<open>Cron\<close> to the earliest matching minute.
  \<open>Execution_Security\<close> and \<open>Classification\<close> count the raises of a context and of a run along a sequence of
  calls. \<open>Tool_Invoke\<close> follows one invocation while the rest of the kernel does anything else in between; its
  steps carry what the authorizer learned on the way (a remembered grant it found, an answer the user gave),
  so that a result can be traced to the answer that allowed it.
  The locale \<open>token_registry\<close> of \<open>Prelude\<close> and those of \<open>Engine_Range\<close> and the other theories are
  interpreted on the model's own definitions. Some properties (kind \<open>error\<close>) state where the code does not
  do what it means to; they are listed as findings of the development.

  \<^bold>\<open>Bounds.\<close> Loops are structural or carry fuel: the search of \<open>Cron\<close> runs over at most the minutes of its
  window, as the code does; the validator of \<open>Json_Schema\<close> recurses on the schema and is bounded by the depth
  limit that the code checks first; the listing of \<open>Workspace\<close> takes fuel, and its length of the file system
  is proved to be enough; following links has a limit that is an argument, as systems have one.

  \<^bold>\<open>Not modelled.\<close> The closures of the context that a plugin receives (\<open>plugin-manager.ts\<close>, lines 420 to 1718)
  check permissions and forward to the services. Of them only the registrations they stage or make at once are
  operations. A publication on the bus is one step: what a handler does to the bus while the loop over the
  handlers runs comes after it. The schema of an MCP server in \<open>Persona\<close> is an argument, of which a restart
  assumes that parsing its own result changes nothing. Numbers keep no sign of zero, so copying a value as
  JSON is the identity. The remaining services of the kernel (communication,
  model gateway, loops, OAuth, sockets, processes, agent-to-agent), the plugins, the desktop application, the
  user interfaces, examples and scripts are not modelled: most of them are input and output or clients of
  external services. Text of messages, logging and timestamps that nothing reads are left out.
\<close>

end
